(* ===== verification/Slime_Prelude.thy ===== *)
theory Slime_Prelude
  imports Main "HOL-Library.Word"
begin

unbundle bit_operations_syntax

text \<open>
  Shared vocabulary of the Slime OS development: the machine integer and byte types, the
  \<open>Result\<close> combinators the Rust code uses through \<open>?\<close>, the checked and saturating
  arithmetic of the standard library, slices and in-place copies of byte arrays, and
  little-endian integers.  Every component theory imports this one; its rewrite rules are
  \<open>[simp]\<close> or live in the collections \<open>result_simps\<close>, \<open>checked_simps\<close> and
  \<open>slice_simps\<close>.
\<close>

named_theorems result_simps \<open>inversion of successful and failing results\<close>
named_theorems checked_simps \<open>checked and saturating word arithmetic, read through unat\<close>
named_theorems slice_simps \<open>slices of byte arrays built by copies\<close>

section \<open>Types\<close>

type_synonym u8 = "8 word"
type_synonym u16 = "16 word"
type_synonym u32 = "32 word"
type_synonym u64 = "64 word"
type_synonym bytes = "u8 list"

text \<open>\<open>core::result::Result\<close>: \<open>Inl\<close> is \<open>Err\<close>, \<open>Inr\<close> is \<open>Ok\<close>.\<close>

type_synonym ('e, 'a) res = "'e + 'a"

section \<open>Results\<close>

text \<open>The \<open>?\<close> operator: stop at an error, continue with the value otherwise.\<close>

definition rbind :: "('e, 'a) res \<Rightarrow> ('a \<Rightarrow> ('e, 'b) res) \<Rightarrow> ('e, 'b) res" where
  "rbind r f = (case r of Inl e \<Rightarrow> Inl e | Inr x \<Rightarrow> f x)"

definition ok_or :: "'e \<Rightarrow> 'a option \<Rightarrow> ('e, 'a) res" where
  "ok_or e v = (case v of None \<Rightarrow> Inl e | Some x \<Rightarrow> Inr x)"

definition map_err :: "('e \<Rightarrow> 'f) \<Rightarrow> ('e, 'a) res \<Rightarrow> ('f, 'a) res" where
  "map_err f r = (case r of Inl e \<Rightarrow> Inl (f e) | Inr x \<Rightarrow> Inr x)"

lemma rbind_simps [simp]:
  "rbind (Inl e) f = Inl e"
  "rbind (Inr x) f = f x"
  by (simp_all add: rbind_def)

lemma ok_or_simps [simp]:
  "ok_or e None = Inl e"
  "ok_or e (Some x) = Inr x"
  by (simp_all add: ok_or_def)

lemma map_err_simps [simp]:
  "map_err f (Inl e) = Inl (f e)"
  "map_err f (Inr x) = Inr x"
  by (simp_all add: map_err_def)

lemma rbind_Inr_iff [result_simps]:
  "rbind r f = Inr y \<longleftrightarrow> (\<exists>x. r = Inr x \<and> f x = Inr y)"
  by (cases r) simp_all

lemma ok_or_Inr_iff [result_simps]: "ok_or e v = Inr x \<longleftrightarrow> v = Some x"
  by (cases v) simp_all

lemma map_err_Inr_iff [result_simps]: "map_err f r = Inr x \<longleftrightarrow> r = Inr x"
  by (cases r) simp_all

lemma if_Inl_Inr_iff [result_simps]:
  "(if b then Inl e else r) = Inr x \<longleftrightarrow> \<not> b \<and> r = Inr x"
  by simp

lemma rbind_cong [fundef_cong]:
  "r = r' \<Longrightarrow> (\<And>x. r' = Inr x \<Longrightarrow> f x = g x) \<Longrightarrow> rbind r f = rbind r' g"
  by (cases r') simp_all

section \<open>Fallible code over a mutable state\<close>

text \<open>
  A method that takes \<open>&mut\<close> state and returns a \<open>Result\<close>: the state it leaves is returned
  on success and on failure alike.
\<close>

type_synonym ('s, 'e, 'a) sres = "'s \<Rightarrow> ('e, 'a) res \<times> 's"

definition sreturn :: "'a \<Rightarrow> ('s, 'e, 'a) sres" where
  "sreturn x s = (Inr x, s)"

definition sfail :: "'e \<Rightarrow> ('s, 'e, 'a) sres" where
  "sfail e s = (Inl e, s)"

definition slift :: "('e, 'a) res \<Rightarrow> ('s, 'e, 'a) sres" where
  "slift r s = (r, s)"

definition sbind :: "('s, 'e, 'a) sres \<Rightarrow> ('a \<Rightarrow> ('s, 'e, 'b) sres) \<Rightarrow> ('s, 'e, 'b) sres" where
  "sbind m f s = (case m s of (Inl e, s') \<Rightarrow> (Inl e, s') | (Inr x, s') \<Rightarrow> f x s')"

definition smap_err :: "('e \<Rightarrow> 'f) \<Rightarrow> ('s, 'e, 'a) sres \<Rightarrow> ('s, 'f, 'a) sres" where
  "smap_err f m s = (case m s of (r, s') \<Rightarrow> (map_err f r, s'))"

text \<open>Run a computation and continue with its result as a value, whether it failed or not.\<close>

definition sattempt :: "('s, 'e, 'a) sres \<Rightarrow> (('e, 'a) res \<Rightarrow> ('s, 'f, 'b) sres) \<Rightarrow> ('s, 'f, 'b) sres" where
  "sattempt m f s = (case m s of (r, s') \<Rightarrow> f r s')"

lemma sattempt_iff [result_simps]:
  "sattempt m f s = (r, t) \<longleftrightarrow> (\<exists>q u. m s = (q, u) \<and> f q u = (r, t))"
  by (auto simp: sattempt_def split: prod.splits)

lemma sreturn_simp [simp]: "sreturn x s = (Inr x, s)"
  by (simp add: sreturn_def)

lemma sfail_simp [simp]: "sfail e s = (Inl e, s)"
  by (simp add: sfail_def)

lemma slift_simp [simp]: "slift r s = (r, s)"
  by (simp add: slift_def)

lemma sbind_Inr_iff [result_simps]:
  "sbind m f s = (Inr y, t) \<longleftrightarrow> (\<exists>x u. m s = (Inr x, u) \<and> f x u = (Inr y, t))"
  by (auto simp: sbind_def split: prod.splits sum.splits)

lemma smap_err_Inr_iff [result_simps]: "smap_err f m s = (Inr y, t) \<longleftrightarrow> m s = (Inr y, t)"
  by (auto simp: smap_err_def map_err_def split: prod.splits sum.splits)

lemma sbind_simps [simp]:
  "m s = (Inl e, t) \<Longrightarrow> sbind m f s = (Inl e, t)"
  "m s = (Inr x, t) \<Longrightarrow> sbind m f s = f x t"
  by (simp_all add: sbind_def)

lemma sbind_slift [simp]:
  "sbind (slift (Inr x)) f = f x"
  "sbind (slift (Inl e)) f = sfail e"
  by (simp_all add: fun_eq_iff sbind_def)

text \<open>
  Whatever a computation returns, the state it leaves is related to the state it started from.
\<close>

definition keeps :: "('s \<Rightarrow> 's \<Rightarrow> bool) \<Rightarrow> ('s, 'e, 'a) sres \<Rightarrow> bool" where
  "keeps R m \<longleftrightarrow> (\<forall>s. R s (snd (m s)))"

lemma keepsD: "keeps R m \<Longrightarrow> m s = (r, t) \<Longrightarrow> R s t"
  by (metis keeps_def snd_conv)

lemma keeps_Pair [intro]: "reflp R \<Longrightarrow> keeps R (Pair r)"
  by (simp add: keeps_def reflp_def)

lemma keeps_return [intro]: "reflp R \<Longrightarrow> keeps R (sreturn x)"
  by (simp add: keeps_def reflp_def)

lemma keeps_fail [intro]: "reflp R \<Longrightarrow> keeps R (sfail e)"
  by (simp add: keeps_def reflp_def)

lemma keeps_lift [intro]: "reflp R \<Longrightarrow> keeps R (slift r)"
  by (simp add: keeps_def reflp_def)

lemma keeps_map_err [intro]: "keeps R m \<Longrightarrow> keeps R (smap_err f m)"
  by (auto simp: keeps_def smap_err_def split: prod.split) (metis snd_conv)

lemma keeps_bind [intro]:
  assumes "transp R" and "keeps R m" and "\<And>x. keeps R (f x)"
  shows "keeps R (sbind m f)"
  unfolding keeps_def
proof
  fix s
  obtain r t where t: "m s = (r, t)" by fastforce
  then have "R s t" using assms(2) by (rule keepsD [rotated])
  moreover have "R t (snd (f x t))" for x
    using assms(3) by (simp add: keeps_def)
  ultimately show "R s (snd (sbind m f s))"
    using t assms(1) by (cases r) (auto simp: sbind_def dest: transpD)
qed

lemma keeps_attempt [intro]:
  assumes "transp R" and "keeps R m" and "\<And>r. keeps R (f r)"
  shows "keeps R (sattempt m f)"
  unfolding keeps_def
proof
  fix s
  obtain r t where t: "m s = (r, t)" by fastforce
  then have "R s t" using assms(2) by (rule keepsD [rotated])
  moreover have "R t (snd (f r t))" using assms(3) by (simp add: keeps_def)
  ultimately have "R s (snd (f r t))" using assms(1) by (blast dest: transpD)
  then show "R s (snd (sattempt m f s))" by (simp add: sattempt_def t)
qed

section \<open>Checked arithmetic\<close>

definition checked_add :: "'a::len word \<Rightarrow> 'a word \<Rightarrow> 'a word option" where
  "checked_add a b = (if unat a + unat b < 2 ^ LENGTH('a) then Some (a + b) else None)"

definition checked_sub :: "'a::len word \<Rightarrow> 'a word \<Rightarrow> 'a word option" where
  "checked_sub a b = (if b \<le> a then Some (a - b) else None)"

definition checked_mul :: "'a::len word \<Rightarrow> 'a word \<Rightarrow> 'a word option" where
  "checked_mul a b = (if unat a * unat b < 2 ^ LENGTH('a) then Some (a * b) else None)"

definition saturating_add :: "'a::len word \<Rightarrow> 'a word \<Rightarrow> 'a word" where
  "saturating_add a b = (if unat a + unat b < 2 ^ LENGTH('a) then a + b else - 1)"

definition saturating_sub :: "'a::len word \<Rightarrow> 'a word \<Rightarrow> 'a word" where
  "saturating_sub a b = (if b \<le> a then a - b else 0)"

definition is_multiple_of :: "'a::len word \<Rightarrow> 'a word \<Rightarrow> bool" where
  "is_multiple_of a b = (if b = 0 then a = 0 else a mod b = 0)"

definition count_ones :: "'a::len word \<Rightarrow> nat" where
  "count_ones w = length (filter (bit w) [0..<LENGTH('a)])"

lemma unat_add_fits:
  "unat a + unat b < 2 ^ LENGTH('a) \<Longrightarrow> unat (a + b) = unat a + unat (b :: 'a::len word)"
  by (simp add: unat_word_ariths)

lemma unat_sub_fits: "b \<le> a \<Longrightarrow> unat (a - b) = unat a - unat (b :: 'a::len word)"
  by (rule unat_sub)

lemma checked_add_iff [checked_simps]:
  "checked_add a b = Some c \<longleftrightarrow> unat c = unat a + unat (b :: 'a::len word)"
proof
  assume "checked_add a b = Some c"
  then show "unat c = unat a + unat b"
    by (auto simp: checked_add_def unat_add_fits split: if_splits)
next
  assume eq: "unat c = unat a + unat b"
  have "unat a + unat b < 2 ^ LENGTH('a)"
    by (simp flip: eq)
  moreover from this have "c = a + b"
    using eq by (simp add: word_unat_eq_iff unat_add_fits)
  ultimately show "checked_add a b = Some c"
    by (simp add: checked_add_def)
qed

lemma checked_add_None_iff [checked_simps]:
  "checked_add a b = None \<longleftrightarrow> 2 ^ LENGTH('a) \<le> unat a + unat (b :: 'a::len word)"
  by (auto simp: checked_add_def)

lemma checked_sub_iff [checked_simps]:
  "checked_sub a b = Some c \<longleftrightarrow> unat a = unat b + unat (c :: 'a::len word)"
proof
  assume "checked_sub a b = Some c"
  then have "b \<le> a" and "c = a - b"
    by (auto simp: checked_sub_def split: if_splits)
  then show "unat a = unat b + unat c"
    by (simp add: unat_sub_fits word_le_nat_alt)
next
  assume eq: "unat a = unat b + unat c"
  then have le: "b \<le> a" by (simp add: word_le_nat_alt)
  moreover have "c = a - b"
    using eq le by (simp add: word_unat_eq_iff unat_sub_fits)
  ultimately show "checked_sub a b = Some c"
    by (simp add: checked_sub_def)
qed

lemma checked_sub_None_iff [checked_simps]:
  "checked_sub a b = None \<longleftrightarrow> unat a < unat (b :: 'a::len word)"
  by (auto simp: checked_sub_def word_le_nat_alt)

lemma checked_mul_iff [checked_simps]:
  "checked_mul a b = Some c \<longleftrightarrow> unat c = unat a * unat (b :: 'a::len word)"
proof
  assume "checked_mul a b = Some c"
  then show "unat c = unat a * unat b"
    by (auto simp: checked_mul_def unat_word_ariths split: if_splits)
next
  assume eq: "unat c = unat a * unat b"
  have lt: "unat a * unat b < 2 ^ LENGTH('a)"
    by (simp flip: eq)
  then have "c = a * b"
    using eq by (simp add: word_unat_eq_iff unat_word_ariths)
  with lt show "checked_mul a b = Some c"
    by (simp add: checked_mul_def)
qed

lemma unat_saturating_add [checked_simps]:
  "unat (saturating_add a b) = min (unat a + unat b) (2 ^ LENGTH('a) - 1)"
  for a b :: "'a::len word"
  by (auto simp: saturating_add_def unat_add_fits unsigned_minus_1_eq_mask mask_eq_exp_minus_1)

lemma unat_saturating_sub [checked_simps]:
  "unat (saturating_sub a b) = unat a - unat (b :: 'a::len word)"
  by (auto simp: saturating_sub_def unat_sub_fits word_le_nat_alt)

section \<open>Slices and copies\<close>

text \<open>
  \<open>bytes[a..b]\<close> on an array long enough, \<open>bytes.get(a..b)\<close> on any slice,
  \<open>out[off..].copy_from_slice(src)\<close> and \<open>fill(0)\<close>.
\<close>

definition slice :: "nat \<Rightarrow> nat \<Rightarrow> 'a list \<Rightarrow> 'a list" where
  "slice a b xs = take (b - a) (drop a xs)"

definition get_range :: "nat \<Rightarrow> nat \<Rightarrow> 'a list \<Rightarrow> 'a list option" where
  "get_range a b xs = (if a \<le> b \<and> b \<le> length xs then Some (slice a b xs) else None)"

definition splice :: "nat \<Rightarrow> 'a list \<Rightarrow> 'a list \<Rightarrow> 'a list" where
  "splice off src dst = take off dst @ src @ drop (off + length src) dst"

definition zeros :: "nat \<Rightarrow> bytes" where
  "zeros n = replicate n 0"

definition all_zero :: "bytes \<Rightarrow> bool" where
  "all_zero bs = list_all (\<lambda>b. b = 0) bs"

lemma length_zeros [simp]: "length (zeros n) = n"
  by (simp add: zeros_def)

lemma length_slice [simp]: "b \<le> length xs \<Longrightarrow> length (slice a b xs) = b - a"
  by (simp add: slice_def)

lemma length_splice [simp]:
  "off + length src \<le> length dst \<Longrightarrow> length (splice off src dst) = length dst"
  by (simp add: splice_def)

lemma slice_splice_same [slice_simps]:
  "off \<le> length dst \<Longrightarrow> b = off + length src \<Longrightarrow> slice off b (splice off src dst) = src"
  by (simp add: slice_def splice_def)

lemma slice_splice_before [slice_simps]:
  "b \<le> off \<Longrightarrow> off \<le> length dst \<Longrightarrow> slice a b (splice off src dst) = slice a b dst"
  by (cases "a \<le> b") (simp_all add: slice_def splice_def take_drop min_def)

lemma slice_splice_after [slice_simps]:
  "off + length src \<le> a \<Longrightarrow> off + length src \<le> length dst \<Longrightarrow>
   slice a b (splice off src dst) = slice a b dst"
  by (simp add: slice_def splice_def)

lemma slice_splice_within:
  "off \<le> a \<Longrightarrow> a \<le> b \<Longrightarrow> b \<le> off + length src \<Longrightarrow> off \<le> length dst \<Longrightarrow>
   slice a b (splice off src dst) = slice (a - off) (b - off) src"
  by (simp add: slice_def splice_def)

lemma slice_zeros [slice_simps]: "b \<le> n \<Longrightarrow> slice a b (zeros n) = zeros (b - a)"
  by (simp add: slice_def zeros_def)

lemma slice_all [slice_simps]: "b = length xs \<Longrightarrow> slice 0 b xs = xs"
  by (simp add: slice_def)

lemma slice_append: "b \<le> length xs \<Longrightarrow> slice a b (xs @ ys) = slice a b xs"
  by (simp add: slice_def)

lemma slice_slice [slice_simps]:
  "a + d \<le> b \<Longrightarrow> slice c d (slice a b xs) = slice (a + c) (a + d) xs"
  by (simp add: slice_def drop_take add.commute)

lemma slice_split:
  assumes "a \<le> b" and "b \<le> c"
  shows "slice a c xs = slice a b xs @ slice b c xs"
proof -
  obtain k l where "b = a + k" and "c = a + k + l"
    using assms by (metis add.assoc le_add_diff_inverse)
  then show ?thesis by (simp add: slice_def take_add add.commute)
qed

lemma splice_slice_id:
  assumes "a \<le> b" and "b \<le> length xs"
  shows "splice a (slice a b xs) xs = xs"
proof -
  have "slice 0 (length xs) xs = slice 0 a xs @ slice a b xs @ slice b (length xs) xs"
    using assms slice_split [of 0 a "length xs" xs] slice_split [of a b "length xs" xs] by simp
  then show ?thesis
    using assms by (simp add: splice_def slice_def)
qed

text \<open>
  A run of field copies into one buffer, in program order.  Reading back a field needs only that
  the fields fit and that no later copy touches it.
\<close>

primrec splices :: "(nat \<times> 'a list) list \<Rightarrow> 'a list \<Rightarrow> 'a list" where
  "splices [] out = out"
| "splices (f # fs) out = splices fs (splice (fst f) (snd f) out)"

definition fits :: "nat \<Rightarrow> (nat \<times> 'a list) list \<Rightarrow> bool" where
  "fits n fs = list_all (\<lambda>f. fst f + length (snd f) \<le> n) fs"

definition untouched :: "nat \<Rightarrow> nat \<Rightarrow> (nat \<times> 'a list) list \<Rightarrow> bool" where
  "untouched a b fs = list_all (\<lambda>f. fst f + length (snd f) \<le> a \<or> b \<le> fst f) fs"

lemma fits_simps [simp]:
  "fits n []"
  "fits n ((off, src) # fs) \<longleftrightarrow> off + length src \<le> n \<and> fits n fs"
  by (simp_all add: fits_def)

lemma untouched_simps [simp]:
  "untouched a b []"
  "untouched a b ((off, src) # fs) \<longleftrightarrow> (off + length src \<le> a \<or> b \<le> off) \<and> untouched a b fs"
  by (simp_all add: untouched_def)

lemma length_splices: "fits (length out) fs \<Longrightarrow> length (splices fs out) = length out"
  by (induction fs arbitrary: out) (auto simp: fits_def)

lemma slice_splice_disjoint:
  "off + length src \<le> length dst \<Longrightarrow> off + length src \<le> a \<or> b \<le> off \<Longrightarrow>
   slice a b (splice off src dst) = slice a b dst"
  by (auto simp: slice_splice_before slice_splice_after)

lemma slice_splices_untouched:
  "fits (length out) fs \<Longrightarrow> untouched a b fs \<Longrightarrow> slice a b (splices fs out) = slice a b out"
  by (induction fs arbitrary: out)
    (auto simp: fits_def untouched_def slice_splice_disjoint)

lemma nth_splice:
  "off + length src \<le> length dst \<Longrightarrow> i < length dst \<Longrightarrow>
   splice off src dst ! i = (if off \<le> i \<and> i < off + length src then src ! (i - off) else dst ! i)"
  by (auto simp: splice_def nth_append)

lemma slice_eq_iff:
  assumes "length xs = length ys"
  shows "slice a b xs = slice a b ys \<longleftrightarrow> (\<forall>i. a \<le> i \<and> i < b \<and> i < length xs \<longrightarrow> xs ! i = ys ! i)"
proof
  assume eq: "slice a b xs = slice a b ys"
  show "\<forall>i. a \<le> i \<and> i < b \<and> i < length xs \<longrightarrow> xs ! i = ys ! i"
  proof (intro allI impI)
    fix i
    assume "a \<le> i \<and> i < b \<and> i < length xs"
    then show "xs ! i = ys ! i"
      using arg_cong [OF eq, of "\<lambda>zs. zs ! (i - a)"] assms by (auto simp: slice_def diff_less_mono)
  qed
next
  assume "\<forall>i. a \<le> i \<and> i < b \<and> i < length xs \<longrightarrow> xs ! i = ys ! i"
  then show "slice a b xs = slice a b ys"
    using assms by (auto simp: slice_def less_diff_conv add.commute intro!: nth_equalityI)
qed

lemma slice_splice_cong:
  "off + length src \<le> length out \<Longrightarrow> length out' = length out \<Longrightarrow> slice a b out = slice a b out' \<Longrightarrow>
   slice a b (splice off src out) = slice a b (splice off src out')"
  by (simp add: slice_eq_iff nth_splice)

lemma slice_splices_cong:
  "fits (length out) fs \<Longrightarrow> length out' = length out \<Longrightarrow> slice a b out = slice a b out' \<Longrightarrow>
   slice a b (splices fs out) = slice a b (splices fs out')"
proof (induction fs arbitrary: out out')
  case (Cons f fs)
  have "slice a b (splice (fst f) (snd f) out) = slice a b (splice (fst f) (snd f) out')"
    using Cons.prems by (intro slice_splice_cong) (simp_all add: fits_def)
  then show ?case
    using Cons.prems by (auto simp: fits_def intro!: Cons.IH)
qed simp

lemma slice_splices_miss:
  "off + length src \<le> length out \<Longrightarrow> fits (length out) fs \<Longrightarrow>
   off + length src \<le> a \<or> b \<le> off \<Longrightarrow>
   slice a b (splices ((off, src) # fs) out) = slice a b (splices fs out)"
  by (auto simp: slice_splice_disjoint intro!: slice_splices_cong)

text \<open>The rewrite rules that look a field up in a run of copies.\<close>

lemma slice_splices_hit:
  "off + length src \<le> length out \<Longrightarrow> fits (length out) fs \<Longrightarrow> b = off + length src \<Longrightarrow>
   untouched off b fs \<Longrightarrow> slice off b (splices ((off, src) # fs) out) = src"
  by (simp add: slice_splices_untouched slice_splice_same)

lemmas slice_splices = length_splices slice_splices_untouched slice_splices_hit slice_splices_miss

text \<open>A list cut at given positions: two buffers are equal when they agree on every piece.\<close>

fun slices :: "nat list \<Rightarrow> 'a list \<Rightarrow> 'a list" where
  "slices (a # b # cs) xs = slice a b xs @ slices (b # cs) xs"
| "slices _ xs = []"

lemma slices_eq: "sorted (a # cs) \<Longrightarrow> slices (a # cs) xs = slice a (last (a # cs)) xs"
proof (induction "a # cs" xs arbitrary: a cs rule: slices.induct)
  case (1 a b cs xs)
  have "b \<le> last (b # cs)" using 1 by (cases cs rule: rev_cases) auto
  then show ?case using 1 slice_split [of a b "last (b # cs)" xs] by simp
qed (simp add: slice_def)

declare slices.simps [simp del]

lemma slices_whole: "sorted (0 # cs) \<Longrightarrow> last (0 # cs) = length xs \<Longrightarrow> slices (0 # cs) xs = xs"
  by (simp only: slices_eq slice_all)

lemma all_zero_zeros [simp]: "all_zero (zeros n)"
  by (simp add: all_zero_def zeros_def list_all_iff)

lemma all_zero_iff: "all_zero bs \<longleftrightarrow> bs = zeros (length bs)"
  by (induction bs) (auto simp: all_zero_def zeros_def)

lemma get_range_iff [result_simps]:
  "get_range a b xs = Some ys \<longleftrightarrow> a \<le> b \<and> b \<le> length xs \<and> ys = slice a b xs"
  by (auto simp: get_range_def)

section \<open>Little-endian integers\<close>

primrec le_bytes :: "nat \<Rightarrow> nat \<Rightarrow> bytes" where
  "le_bytes 0 n = []"
| "le_bytes (Suc k) n = word_of_nat n # le_bytes k (n div 256)"

primrec le_nat :: "bytes \<Rightarrow> nat" where
  "le_nat [] = 0"
| "le_nat (b # bs) = unat b + 256 * le_nat bs"

text \<open>\<open>to_le_bytes\<close> at the width of the word, \<open>from_le_bytes\<close>, and the field readers.\<close>

definition to_le :: "'a::len word \<Rightarrow> bytes" where
  "to_le w = le_bytes (LENGTH('a) div 8) (unat w)"

definition from_le :: "bytes \<Rightarrow> 'a::len word" where
  "from_le bs = word_of_nat (le_nat bs)"

definition read_u16 :: "bytes \<Rightarrow> nat \<Rightarrow> u16" where
  "read_u16 bs off = from_le (slice off (off + 2) bs)"

definition read_u32 :: "bytes \<Rightarrow> nat \<Rightarrow> u32" where
  "read_u32 bs off = from_le (slice off (off + 4) bs)"

definition read_u64 :: "bytes \<Rightarrow> nat \<Rightarrow> u64" where
  "read_u64 bs off = from_le (slice off (off + 8) bs)"

lemma length_le_bytes [simp]: "length (le_bytes k n) = k"
  by (induction k arbitrary: n) simp_all

lemma length_to_le [simp]: "length (to_le (w :: 'a::len word)) = LENGTH('a) div 8"
  by (simp add: to_le_def)

lemma le_bytes_zero: "le_bytes k 0 = zeros k"
  by (induction k) (simp_all add: zeros_def)

lemma to_le_zero: "to_le (0 :: 'a::len word) = zeros (LENGTH('a) div 8)"
  by (simp add: to_le_def le_bytes_zero)

lemma unat_less_u8: "unat (w :: u8) < 256"
proof -
  have "unat w < 2 ^ LENGTH(8)" by (rule unsigned_less)
  then show ?thesis by simp
qed

lemma unat_less_u16: "unat (w :: u16) < 65536"
proof -
  have "unat w < 2 ^ LENGTH(16)" by (rule unsigned_less)
  then show ?thesis by simp
qed

lemma unat_less_u32: "unat (w :: u32) < 4294967296"
proof -
  have "unat w < 2 ^ LENGTH(32)" by (rule unsigned_less)
  then show ?thesis by simp
qed

lemma unat_less_u64: "unat (w :: u64) < 18446744073709551616"
proof -
  have "unat w < 2 ^ LENGTH(64)" by (rule unsigned_less)
  then show ?thesis by simp
qed

lemmas unat_less_simps = unat_less_u8 unat_less_u16 unat_less_u32 unat_less_u64

lemma unat_less_max_u64: "(w :: u64) \<noteq> - 1 \<Longrightarrow> unat w < 18446744073709551615"
  using unat_less_u64 [of w]
  by (simp add: word_unat_eq_iff unsigned_minus_1_eq_mask mask_eq_exp_minus_1)

lemma unat_ucast_u32_u64 [simp]: "unat (ucast (w :: u32) :: u64) = unat w"
  using unat_less_u32 [of w] by (simp add: unsigned_ucast_eq take_bit_eq_mod)

lemma le_nat_le_bytes: "le_nat (le_bytes k n) = n mod 256 ^ k"
proof (induction k arbitrary: n)
  case 0
  then show ?case by simp
next
  case (Suc k)
  have "unat (word_of_nat n :: u8) = n mod 256"
    by (simp add: unat_of_nat take_bit_eq_mod)
  then show ?case
    by (simp add: Suc.IH mod_mult2_eq)
qed

lemma le_bytes_le_nat: "le_bytes (length bs) (le_nat bs) = bs"
proof (induction bs)
  case Nil
  then show ?case by simp
next
  case (Cons b bs)
  have b: "unat b < 256" by (rule unat_less_u8)
  have "(unat b + 256 * le_nat bs) div 256 = le_nat bs"
    using b by simp
  moreover have "(word_of_nat (unat b + 256 * le_nat bs) :: u8) = b"
    using b by (simp add: word_unat_eq_iff unat_of_nat take_bit_eq_mod del: of_nat_add of_nat_mult)
  ultimately show ?case using Cons.IH by simp
qed

lemma le_nat_bound: "le_nat bs < 256 ^ length bs"
proof (induction bs)
  case Nil
  then show ?case by simp
next
  case (Cons b bs)
  have "unat b < 256" by (rule unat_less_u8)
  with Cons.IH show ?case by simp
qed

lemma from_le_to_le_u16 [simp]: "from_le (to_le (w :: u16)) = w"
  by (simp add: from_le_def to_le_def le_nat_le_bytes word_unat_eq_iff unat_of_nat take_bit_eq_mod
      unat_less_simps)

lemma from_le_to_le_u32 [simp]: "from_le (to_le (w :: u32)) = w"
  by (simp add: from_le_def to_le_def le_nat_le_bytes word_unat_eq_iff unat_of_nat take_bit_eq_mod
      unat_less_simps)

lemma from_le_to_le_u64 [simp]: "from_le (to_le (w :: u64)) = w"
  by (simp add: from_le_def to_le_def le_nat_le_bytes word_unat_eq_iff unat_of_nat take_bit_eq_mod
      unat_less_simps)

lemma to_le_from_le_u32: "length bs = 4 \<Longrightarrow> to_le (from_le bs :: u32) = bs"
  using le_nat_bound [of bs] le_bytes_le_nat [of bs]
  by (simp add: from_le_def to_le_def unat_of_nat take_bit_eq_mod)

lemma to_le_from_le_u64: "length bs = 8 \<Longrightarrow> to_le (from_le bs :: u64) = bs"
  using le_nat_bound [of bs] le_bytes_le_nat [of bs]
  by (simp add: from_le_def to_le_def unat_of_nat take_bit_eq_mod)

end
