(* ===== verification/Crc32.thy ===== *)
theory Crc32
  imports Slime_Prelude
begin

text \<open>
  The checksum of \<open>boot-contracts/src/crc32.rs\<close>: the compile-time table, the streaming
  checksum that consumes one byte per table lookup, and the one-shot function.  The reference
  is the shift register that divides by the reflected polynomial one bit at a time.  The
  section on detection shows what the partition and store readers rely on: a change confined to
  four adjacent bytes always changes the checksum.
\<close>

section \<open>The code\<close>

definition POLY :: u32 where
  "POLY = 0xEDB88320"

text \<open>The inner loop of \<open>build_table\<close>: one bit, then \<open>n\<close> bits.\<close>

definition crc_bit :: "u32 \<Rightarrow> u32" where
  "crc_bit value = (if value AND 1 \<noteq> 0 then drop_bit 1 value XOR POLY else drop_bit 1 value)"

primrec crc_bits :: "nat \<Rightarrow> u32 \<Rightarrow> u32" where
  "crc_bits 0 value = value"
| "crc_bits (Suc n) value = crc_bits n (crc_bit value)"

text \<open>The outer loop of \<open>build_table\<close> over the array under construction.\<close>

function build_from :: "nat \<Rightarrow> u32 list \<Rightarrow> u32 list" where
  "build_from index table =
     (if index < 256 then build_from (index + 1) (table[index := crc_bits 8 (of_nat index)])
      else table)"
  by auto

termination build_from
  by (relation "measure (\<lambda>(index, _). 256 - index)") auto

declare build_from.simps [simp del]

definition build_table :: "u32 list" where
  "build_table = build_from 0 (replicate 256 0)"

definition TABLE :: "u32 list" where
  "TABLE = build_table"

record Crc32_state =
  crc_state :: u32

definition crc_new :: Crc32_state where
  "crc_new = \<lparr>crc_state = NOT 0\<rparr>"

definition update_byte :: "u8 \<Rightarrow> u32 \<Rightarrow> u32" where
  "update_byte byte state =
     TABLE ! unat ((state XOR ucast byte) AND 0xFF) XOR drop_bit 8 state"

definition crc_update :: "bytes \<Rightarrow> Crc32_state \<Rightarrow> Crc32_state" where
  "crc_update data c = c\<lparr>crc_state := fold update_byte data (crc_state c)\<rparr>"

definition crc_finish :: "Crc32_state \<Rightarrow> u32" where
  "crc_finish c = NOT (crc_state c)"

definition crc32 :: "bytes \<Rightarrow> u32" where
  "crc32 data = crc_finish (crc_update data crc_new)"

section \<open>The reference: a bit-serial shift register\<close>

text \<open>
  CRC-32/IEEE as a feedback shift register: message bits enter least significant first and are
  compared with the bit shifted out.
\<close>

definition serial_bit :: "bool \<Rightarrow> u32 \<Rightarrow> u32" where
  "serial_bit b state =
     (if bit state 0 \<noteq> b then drop_bit 1 state XOR POLY else drop_bit 1 state)"

definition bits_of_byte :: "u8 \<Rightarrow> bool list" where
  "bits_of_byte byte = map (bit byte) [0..<8]"

definition crc32_reference :: "bytes \<Rightarrow> u32" where
  "crc32_reference data = NOT (fold serial_bit (concat (map bits_of_byte data)) (NOT 0))"

text \<open>Eight register steps on a byte at once, the form the proofs use.\<close>

definition shift_byte :: "u8 \<Rightarrow> u32 \<Rightarrow> u32" where
  "shift_byte byte state = crc_bits 8 (state XOR ucast byte)"

section \<open>The table\<close>

lemma length_build_from [simp]: "length (build_from index table) = length table"
  by (induction index table rule: build_from.induct) (subst build_from.simps, simp)

lemma nth_build_from:
  "length table = 256 \<Longrightarrow> k < 256 \<Longrightarrow>
   build_from index table ! k = (if index \<le> k then crc_bits 8 (of_nat k) else table ! k)"
proof (induction index table rule: build_from.induct)
  case (1 index table)
  then show ?case
    by (subst build_from.simps) (auto simp: nth_list_update not_less_eq_eq le_antisym)
qed

lemma length_TABLE [simp]: "length TABLE = 256"
  by (simp add: TABLE_def build_table_def)

lemma nth_TABLE: "k < 256 \<Longrightarrow> TABLE ! k = crc_bits 8 (of_nat k)"
  by (simp add: TABLE_def build_table_def nth_build_from)

section \<open>The register is linear and its steps are injective\<close>

lemma and_one_xor: "(a XOR b) AND 1 \<noteq> 0 \<longleftrightarrow> (a AND 1 \<noteq> 0) \<noteq> (b AND 1 \<noteq> (0 :: u32))"
  by (simp add: and_one_eq mod2_eq_if even_xor_iff)

lemma xor_left_cancel_u32: "s XOR a = s XOR b \<longleftrightarrow> a = (b :: u32)"
  by (metis xor.assoc xor.left_neutral xor_self_eq)

lemma crc_bit_xor: "crc_bit (a XOR b) = crc_bit a XOR crc_bit b"
  unfolding crc_bit_def and_one_xor
  by (auto simp: drop_bit_xor ac_simps)

lemma crc_bits_xor: "crc_bits n (a XOR b) = crc_bits n a XOR crc_bits n b"
  by (induction n arbitrary: a b) (simp_all add: crc_bit_xor)

lemma crc_bits_add: "crc_bits (m + n) a = crc_bits n (crc_bits m a)"
  by (induction m arbitrary: a) simp_all

lemma crc_bit_even: "\<not> bit v 0 \<Longrightarrow> crc_bit v = drop_bit 1 v"
  by (simp add: crc_bit_def and_one_eq bit_0 mod2_eq_if)

lemma crc_bits_low_zero:
  "(\<And>i. i < n \<Longrightarrow> \<not> bit v i) \<Longrightarrow> crc_bits n v = drop_bit n v"
proof (induction n arbitrary: v)
  case 0
  then show ?case by simp
next
  case (Suc n)
  have "crc_bit v = drop_bit 1 v" using Suc.prems by (intro crc_bit_even) simp
  moreover have "crc_bits n (drop_bit 1 v) = drop_bit n (drop_bit 1 v)"
    using Suc.prems by (intro Suc.IH) (simp add: bit_drop_bit_eq)
  ultimately show ?case by simp
qed

text \<open>The top bit of the polynomial is set, so a step can be undone from its result.\<close>

definition crc_unbit :: "u32 \<Rightarrow> u32" where
  "crc_unbit r = (if bit r 31 then push_bit 1 (r XOR POLY) OR 1 else push_bit 1 r)"

lemma bit_31_crc_bit: "bit (crc_bit v) 31 \<longleftrightarrow> bit v 0"
proof -
  have "bit POLY 31" by (simp add: POLY_def bit_simps)
  then show ?thesis
    by (auto simp: crc_bit_def bit_simps and_one_eq mod2_eq_if bit_0 dest: bit_imp_le_length)
qed

lemma crc_unbit_crc_bit: "crc_unbit (crc_bit v) = v"
proof (cases "bit v 0")
  case True
  then have "crc_bit v = drop_bit 1 v XOR POLY"
    by (simp add: crc_bit_def and_one_eq mod2_eq_if bit_0)
  moreover have "push_bit 1 (drop_bit 1 v) OR 1 = v"
    using True by (auto intro!: bit_word_eqI simp: bit_simps simp del: push_bit_Suc)
  ultimately show ?thesis
    using True bit_31_crc_bit [of v] by (simp add: crc_unbit_def xor.assoc)
next
  case False
  then have "crc_bit v = drop_bit 1 v"
    by (rule crc_bit_even)
  moreover have "bit (push_bit 1 (drop_bit 1 v)) n \<longleftrightarrow> bit v n" if "n < LENGTH(32)" for n
    using False that by (cases n) (auto simp: bit_simps simp del: push_bit_Suc)
  then have "push_bit 1 (drop_bit 1 v) = v"
    by (rule bit_word_eqI)
  ultimately show ?thesis
    using False bit_31_crc_bit [of v] by (simp add: crc_unbit_def)
qed

lemma crc_bits_inject [simp]: "crc_bits n a = crc_bits n b \<longleftrightarrow> a = b"
proof (induction n arbitrary: a b)
  case (Suc n)
  have "crc_bit a = crc_bit b \<longleftrightarrow> a = b"
    by (metis crc_unbit_crc_bit)
  with Suc.IH show ?case by simp
qed simp

section \<open>Table lookups implement the register\<close>

lemma low_byte_split: "v = (v AND 0xFF) XOR push_bit 8 (drop_bit 8 (v :: u32))"
proof (rule bit_word_eqI)
  fix n
  have "bit (0xFF :: u32) n \<longleftrightarrow> n < 8"
    using bit_mask_iff [where 'a = "32 word", of 8 n] by (auto simp: mask_eq_exp_minus_1)
  then show "bit v n \<longleftrightarrow> bit ((v AND 0xFF) XOR push_bit 8 (drop_bit 8 v)) n" if "n < LENGTH(32)"
    using that by (auto simp: bit_simps)
qed

lemma crc_bits_8: "crc_bits 8 v = TABLE ! unat (v AND 0xFF) XOR drop_bit 8 v"
proof -
  have "v AND 0xFF = take_bit 8 v"
    by (simp add: take_bit_eq_mask mask_eq_exp_minus_1)
  then have lt: "unat (v AND 0xFF) < 256"
    by (simp only: unsigned_take_bit_eq) (simp add: take_bit_eq_mod)
  have "crc_bits 8 v = crc_bits 8 (v AND 0xFF) XOR crc_bits 8 (push_bit 8 (drop_bit 8 v))"
    by (subst low_byte_split) (rule crc_bits_xor)
  also have "crc_bits 8 (push_bit 8 (drop_bit 8 v)) = drop_bit 8 (push_bit 8 (drop_bit 8 v))"
    by (intro crc_bits_low_zero) (simp add: bit_simps)
  also have "drop_bit 8 (push_bit 8 (drop_bit 8 v)) = drop_bit 8 v"
    using bit_imp_le_length [of v] by (fastforce intro!: bit_word_eqI simp: bit_simps)
  finally show ?thesis
    using lt by (simp add: nth_TABLE)
qed

lemma update_byte_shift: "update_byte byte state = shift_byte byte state"
proof -
  have "drop_bit 8 (ucast byte :: u32) = 0"
    using bit_imp_le_length [of byte] by (fastforce intro!: bit_word_eqI simp: bit_simps)
  then show ?thesis
    by (simp add: update_byte_def shift_byte_def crc_bits_8 drop_bit_xor)
qed

lemma shift_byte_inject: "shift_byte byte a = shift_byte byte b \<longleftrightarrow> a = b"
  by (simp add: shift_byte_def xor.commute [of _ "ucast byte"] xor_left_cancel_u32)

lemma fold_shift_inject: "fold shift_byte data a = fold shift_byte data b \<longleftrightarrow> a = b"
  by (induction data arbitrary: a b) (simp_all add: shift_byte_inject)

lemma crc32_fold: "crc32 data = NOT (fold shift_byte data (NOT 0))"
proof -
  have "update_byte = shift_byte" by (intro ext) (rule update_byte_shift)
  then show ?thesis
    by (simp add: crc32_def crc_finish_def crc_update_def crc_new_def)
qed

lemma serial_bit_crc_bit: "serial_bit b s = crc_bit (s XOR of_bool b)"
  by (cases b) (auto simp: serial_bit_def crc_bit_def and_one_eq mod2_eq_if bit_0 even_xor_iff
      drop_bit_xor)

lemma crc_bits_serial:
  "crc_bits n (s XOR take_bit n w) = fold serial_bit (map (bit w) [0..<n]) s"
proof (induction n arbitrary: s w)
  case 0
  then show ?case by simp
next
  case (Suc n)
  have split: "take_bit (Suc n) w = of_bool (bit w 0) XOR push_bit 1 (take_bit n (drop_bit 1 w))"
  proof (rule bit_word_eqI)
    show "bit (take_bit (Suc n) w) i \<longleftrightarrow>
        bit (of_bool (bit w 0) XOR push_bit 1 (take_bit n (drop_bit 1 w))) i"
      if "i < LENGTH(32)" for i
      using that by (cases i) (auto simp: bit_simps simp del: push_bit_Suc)
  qed
  have "crc_bit (push_bit 1 (take_bit n (drop_bit 1 w))) =
      drop_bit 1 (push_bit 1 (take_bit n (drop_bit 1 w)))"
    by (rule crc_bit_even) (simp add: bit_simps del: push_bit_Suc)
  also have "\<dots> = take_bit n (drop_bit 1 w)"
    using bit_imp_le_length [of w]
    by (fastforce intro!: bit_word_eqI simp: bit_simps simp del: push_bit_Suc)
  finally have "crc_bit (s XOR take_bit (Suc n) w) =
      serial_bit (bit w 0) s XOR take_bit n (drop_bit 1 w)"
    by (simp only: split serial_bit_crc_bit crc_bit_xor xor.assoc)
  moreover have "map (bit w) [0..<Suc n] = bit w 0 # map (bit (drop_bit 1 w)) [0..<n]"
    by (simp add: map_upt_Suc bit_drop_bit_eq del: upt_Suc)
  ultimately show ?case
    using Suc.IH [of "serial_bit (bit w 0) s" "drop_bit 1 w"] by (simp only: crc_bits.simps fold_Cons o_apply)
qed

lemma shift_byte_serial: "shift_byte byte s = fold serial_bit (bits_of_byte byte) s"
proof -
  have "take_bit 8 (ucast byte :: u32) = ucast byte"
    using bit_imp_le_length [of byte] by (fastforce intro!: bit_word_eqI simp: bit_simps)
  moreover have "map (bit (ucast byte :: u32)) [0..<8] = bits_of_byte byte"
    by (simp add: bits_of_byte_def bit_simps)
  ultimately show ?thesis
    using crc_bits_serial [of 8 s "ucast byte"] by (simp only: shift_byte_def)
qed

lemma fold_shift_serial:
  "fold shift_byte data s = fold serial_bit (concat (map bits_of_byte data)) s"
  by (induction data arbitrary: s) (simp_all add: shift_byte_serial)

section \<open>A window of up to four bytes reaches the register unchanged\<close>

primrec window :: "bytes \<Rightarrow> u32" where
  "window [] = 0"
| "window (b # w) = ucast b XOR push_bit 8 (window w)"

lemma bit_window_bound: "bit (window w) i \<Longrightarrow> i < 8 * length w"
proof (induction w arbitrary: i)
  case (Cons b w)
  from Cons.prems consider "bit b i" | "8 \<le> i" and "bit (window w) (i - 8)"
    by (auto simp: bit_simps)
  then show ?case
  proof cases
    case 1
    then show ?thesis using bit_imp_le_length [of b i] by simp
  next
    case 2
    then show ?thesis using Cons.IH [of "i - 8"] by simp
  qed
qed simp

lemma drop_push_window: "length w \<le> 3 \<Longrightarrow> drop_bit 8 (push_bit 8 (window w)) = window w"
proof (rule bit_word_eqI)
  fix i
  assume "length w \<le> 3" and "i < LENGTH(32)"
  then show "bit (drop_bit 8 (push_bit 8 (window w))) i \<longleftrightarrow> bit (window w) i"
    using bit_window_bound [of w i] by (auto simp: bit_simps)
qed

lemma crc_bits_push_window: "length w \<le> 3 \<Longrightarrow> crc_bits 8 (push_bit 8 (window w)) = window w"
  using crc_bits_low_zero [of 8 "push_bit 8 (window w)"]
  by (simp add: bit_push_bit_iff drop_push_window)

lemma fold_shift_window:
  "length w \<le> 4 \<Longrightarrow> fold shift_byte w s = crc_bits (8 * length w) (s XOR window w)"
proof (induction w arbitrary: s)
  case (Cons b w)
  then have "fold shift_byte (b # w) s = crc_bits (8 * length w) (shift_byte b s XOR window w)"
    by simp
  also have "shift_byte b s XOR window w = crc_bits 8 (s XOR window (b # w))"
    using Cons.prems crc_bits_push_window [of w]
    by (simp only: shift_byte_def crc_bits_xor xor.assoc window.simps) simp
  finally show ?case
    using crc_bits_add [of 8 "8 * length w" "s XOR window (b # w)"] by (simp only: length_Cons mult_Suc_right)
qed simp

lemma window_inject:
  "length u = length v \<Longrightarrow> length v \<le> 4 \<Longrightarrow> window u = window v \<Longrightarrow> u = v"
proof (induction u v rule: list_induct2)
  case (Cons b u c v)
  have eq: "window (b # u) = window (c # v)" and short: "length u \<le> 3" "length v \<le> 3"
    using Cons.prems Cons.hyps by simp_all
  have "bit b i \<longleftrightarrow> bit c i" if "i < LENGTH(8)" for i
    using arg_cong [OF eq, of "\<lambda>w. bit w i"] that
    by (simp only: window.simps bit_xor_iff bit_push_bit_iff bit_ucast_iff) auto
  then have "b = c" by (rule bit_word_eqI)
  with eq have "push_bit 8 (window u) = push_bit 8 (window v)"
    by (simp only: window.simps xor_left_cancel_u32)
  then have "window u = window v"
    using drop_push_window short by metis
  with \<open>b = c\<close> Cons.IH short show ?case by simp
qed simp

lemma crc32_burst:
  assumes "length u = length v" and "length v \<le> 4" and "u \<noteq> v"
  shows "crc32 (prefix @ u @ suffix) \<noteq> crc32 (prefix @ v @ suffix)"
proof -
  let ?s = "fold shift_byte prefix (NOT 0)"
  have "window u \<noteq> window v" using assms window_inject by blast
  then have "?s XOR window u \<noteq> ?s XOR window v" by (simp add: xor_left_cancel_u32)
  then have "fold shift_byte u ?s \<noteq> fold shift_byte v ?s"
    using assms by (simp add: fold_shift_window)
  then show ?thesis by (simp add: crc32_fold fold_shift_inject)
qed

section \<open>Properties\<close>

text \<open>
  C28: for every byte string, the table-driven checksum equals the bit-serial CRC-32/IEEE shift
  register over the same bytes.
\<close>

theorem crc32_is_bit_serial: "crc32 data = crc32_reference data"
  by (simp add: crc32_fold crc32_reference_def fold_shift_serial)

text \<open>
  Feeding a message in any pieces and finishing gives the checksum of their concatenation.
\<close>

theorem crc32_streaming: "crc_finish (fold crc_update pieces crc_new) = crc32 (concat pieces)"
proof -
  have "fold crc_update pieces c = crc_update (concat pieces) c" for c
    by (induction pieces arbitrary: c) (simp_all add: crc_update_def)
  then show ?thesis by (simp add: crc32_def)
qed

text \<open>
  C29: replacing up to four adjacent bytes of a message by other bytes always changes its
  checksum, whatever surrounds them.
\<close>

theorem crc32_detects_burst:
  assumes "length u = length v" and "length v \<le> 4" and "u \<noteq> v"
  shows "crc32 (prefix @ u @ suffix) \<noteq> crc32 (prefix @ v @ suffix)"
  using assms by (rule crc32_burst)

theorem crc32_detects_burst_witness:
  "crc32 ([1, 2] @ [3, 4, 5] @ [6]) \<noteq> crc32 ([1, 2] @ [3, 4, 7] @ [6])"
  by (rule crc32_detects_burst) simp_all

end
