(* ===== verification/BootState.thy ===== *)
theory BootState
  imports Slime_Prelude
begin

text \<open>
  The two-slot boot record of \<open>boot-contracts/src/bootstate.rs\<close>: its 512-byte slot format,
  the transitions of a pending generation (stage, consume an attempt, promote, roll back) and
  the selection of the live slot.  SHA-256 comes from a third-party crate and is the parameter
  \<open>sha\<close>; only its output length is used.
\<close>

section \<open>Format constants\<close>

definition MAGIC :: bytes where
  "MAGIC = [0x53, 0x4C, 0x49, 0x4D, 0x45, 0x42, 0x53, 0]"

definition FORMAT_VERSION :: u32 where "FORMAT_VERSION = 2"
definition SLOT_BYTES :: nat where "SLOT_BYTES = 512"
definition REQUIRED_FLAGS :: u64 where "REQUIRED_FLAGS = 0"
definition RELEASE_SEQUENCE_OFFSET :: nat where "RELEASE_SEQUENCE_OFFSET = 168"
definition CHECKSUM_OFFSET :: nat where "CHECKSUM_OFFSET = 176"
definition CHECKSUM_END :: nat where "CHECKSUM_END = 208"

lemmas bootstate_layout =
  MAGIC_def FORMAT_VERSION_def SLOT_BYTES_def REQUIRED_FLAGS_def RELEASE_SEQUENCE_OFFSET_def
  CHECKSUM_OFFSET_def CHECKSUM_END_def

section \<open>Data\<close>

record BootState =
  bs_sequence :: u64
  bs_known_good :: bytes
  bs_pending :: "bytes option"
  bs_remaining_attempts :: u32
  bs_generation_root :: bytes
  bs_state_root :: bytes
  bs_accepted_release_sequence :: u64

datatype BootStateError =
    BadMagic | UnsupportedVersion | BadHeaderSize | UnknownRequiredFlags | MaxSequence
  | ZeroKnownGood | ZeroGenerationRoot | BadPendingAttempts | NonZeroReserved | BadChecksum

datatype BootTransitionError =
    NoPending | AttemptsExhausted | WrongRunningGeneration | StaleRelease | SequenceExhausted

datatype Slot = Slot_A | Slot_B

record SelectedBootState =
  sel_slot :: Slot
  sel_state :: BootState

datatype SelectionError = ConflictingSlots | NoValidBootState

section \<open>Encoding\<close>

definition slot_checksum :: "(bytes \<Rightarrow> bytes) \<Rightarrow> bytes \<Rightarrow> bytes" where
  "slot_checksum sha bs =
     sha (slice 0 CHECKSUM_OFFSET bs @ zeros 32 @ slice CHECKSUM_END SLOT_BYTES bs)"

definition validate :: "BootState \<Rightarrow> (BootStateError, unit) res" where
  "validate state =
     (if bs_sequence state = - 1 then Inl MaxSequence
      else if bs_known_good state = zeros 32 then Inl ZeroKnownGood
      else if bs_generation_root state = zeros 32 then Inl ZeroGenerationRoot
      else if bs_pending state = None \<and> bs_remaining_attempts state = 0 \<or> bs_pending state \<noteq> None
        then Inr ()
      else Inl BadPendingAttempts)"

text \<open>The fields up to the checksum, in the order \<open>encode\<close> copies them.\<close>

definition encode_fields :: "BootState \<Rightarrow> bytes" where
  "encode_fields s =
     splices
       ([(0, MAGIC),
         (8, to_le FORMAT_VERSION),
         (12, to_le (of_nat SLOT_BYTES :: u32)),
         (16, to_le REQUIRED_FLAGS),
         (24, to_le (bs_sequence s)),
         (32, bs_known_good s)] @
        (case bs_pending s of Some pending \<Rightarrow> [(64, pending)] | None \<Rightarrow> []) @
        [(96, to_le (bs_remaining_attempts s)),
         (104, bs_generation_root s),
         (136, bs_state_root s),
         (RELEASE_SEQUENCE_OFFSET, to_le (bs_accepted_release_sequence s))])
       (zeros SLOT_BYTES)"

definition encode :: "(bytes \<Rightarrow> bytes) \<Rightarrow> BootState \<Rightarrow> (BootStateError, bytes) res" where
  "encode sha s =
     rbind (validate s) (\<lambda>_.
       let out = encode_fields s
       in Inr (splice CHECKSUM_OFFSET (slot_checksum sha out) out))"

definition decode_fields :: "bytes \<Rightarrow> BootState" where
  "decode_fields bs =
     (let pending_bytes = slice 64 96 bs
      in \<lparr>bs_sequence = read_u64 bs 24,
          bs_known_good = slice 32 64 bs,
          bs_pending = (if pending_bytes \<noteq> zeros 32 then Some pending_bytes else None),
          bs_remaining_attempts = read_u32 bs 96,
          bs_generation_root = slice 104 136 bs,
          bs_state_root = slice 136 168 bs,
          bs_accepted_release_sequence = read_u64 bs RELEASE_SEQUENCE_OFFSET\<rparr>)"

definition decode :: "(bytes \<Rightarrow> bytes) \<Rightarrow> bytes \<Rightarrow> (BootStateError, BootState) res" where
  "decode sha bs =
     (if slice 0 8 bs \<noteq> MAGIC then Inl BadMagic
      else if read_u32 bs 8 \<noteq> FORMAT_VERSION then Inl UnsupportedVersion
      else if unat (read_u32 bs 12) \<noteq> SLOT_BYTES then Inl BadHeaderSize
      else if read_u64 bs 16 \<noteq> REQUIRED_FLAGS then Inl UnknownRequiredFlags
      else if \<not> all_zero (slice 100 104 bs) \<or> \<not> all_zero (slice CHECKSUM_END SLOT_BYTES bs)
        then Inl NonZeroReserved
      else if slot_checksum sha bs \<noteq> slice CHECKSUM_OFFSET CHECKSUM_END bs then Inl BadChecksum
      else let state = decode_fields bs in rbind (validate state) (\<lambda>_. Inr state))"

section \<open>Transitions\<close>

definition next_sequence :: "u64 \<Rightarrow> (BootTransitionError, u64) res" where
  "next_sequence sequence =
     ok_or SequenceExhausted
       (case checked_add sequence 1 of
          None \<Rightarrow> None
        | Some sequence \<Rightarrow> if sequence \<noteq> - 1 then Some sequence else None)"

definition stage_pending ::
  "bytes \<Rightarrow> u32 \<Rightarrow> bytes \<Rightarrow> bytes \<Rightarrow> BootState \<Rightarrow> (BootTransitionError, BootState) res" where
  "stage_pending pending attempts generation_root state_root s =
     (if attempts = 0 then Inl AttemptsExhausted
      else rbind (next_sequence (bs_sequence s)) (\<lambda>sequence.
        Inr \<lparr>bs_sequence = sequence,
             bs_known_good = bs_known_good s,
             bs_pending = Some pending,
             bs_remaining_attempts = attempts,
             bs_generation_root = generation_root,
             bs_state_root = state_root,
             bs_accepted_release_sequence = bs_accepted_release_sequence s\<rparr>))"

definition consume_pending_attempt :: "BootState \<Rightarrow> (BootTransitionError, BootState) res" where
  "consume_pending_attempt s =
     (if bs_pending s = None then Inl NoPending
      else if bs_remaining_attempts s = 0 then Inl AttemptsExhausted
      else rbind (next_sequence (bs_sequence s)) (\<lambda>sequence.
        Inr (s\<lparr>bs_sequence := sequence,
               bs_remaining_attempts := bs_remaining_attempts s - 1\<rparr>)))"

definition promote_pending :: "bytes \<Rightarrow> u64 \<Rightarrow> BootState \<Rightarrow> (BootTransitionError, BootState) res" where
  "promote_pending running release_sequence s =
     (if bs_pending s \<noteq> Some running then Inl WrongRunningGeneration
      else if release_sequence \<le> bs_accepted_release_sequence s then Inl StaleRelease
      else rbind (next_sequence (bs_sequence s)) (\<lambda>sequence.
        Inr (s\<lparr>bs_sequence := sequence,
               bs_known_good := running,
               bs_pending := None,
               bs_remaining_attempts := 0,
               bs_accepted_release_sequence := release_sequence\<rparr>)))"

definition rollback_pending :: "BootState \<Rightarrow> (BootTransitionError, BootState) res" where
  "rollback_pending s =
     (if bs_pending s = None then Inr s
      else rbind (next_sequence (bs_sequence s)) (\<lambda>sequence.
        Inr (s\<lparr>bs_sequence := sequence, bs_pending := None, bs_remaining_attempts := 0\<rparr>)))"

section \<open>Slot selection\<close>

fun other :: "Slot \<Rightarrow> Slot" where
  "other Slot_A = Slot_B"
| "other Slot_B = Slot_A"

definition select_bootstate ::
  "(bytes \<Rightarrow> bytes) \<Rightarrow> bytes \<Rightarrow> bytes \<Rightarrow> (SelectionError, SelectedBootState) res" where
  "select_bootstate sha a b =
     (case (decode sha a, decode sha b) of
        (Inr a, Inr b) \<Rightarrow>
          if bs_sequence a > bs_sequence b then Inr \<lparr>sel_slot = Slot_A, sel_state = a\<rparr>
          else if bs_sequence b > bs_sequence a then Inr \<lparr>sel_slot = Slot_B, sel_state = b\<rparr>
          else if a = b then Inr \<lparr>sel_slot = Slot_A, sel_state = a\<rparr>
          else Inl ConflictingSlots
      | (Inr a, Inl _) \<Rightarrow> Inr \<lparr>sel_slot = Slot_A, sel_state = a\<rparr>
      | (Inl _, Inr b) \<Rightarrow> Inr \<lparr>sel_slot = Slot_B, sel_state = b\<rparr>
      | (Inl _, Inl _) \<Rightarrow> Inl NoValidBootState)"

section \<open>Well-formed records\<close>

text \<open>
  The Rust type fixes the width of the four digests; \<open>storable\<close> adds that \<open>validate\<close>
  accepts the record and that a pending generation is not the all-zero identity, which the slot
  format uses for absence.
\<close>

definition bs_widths :: "BootState \<Rightarrow> bool" where
  "bs_widths s \<longleftrightarrow>
     length (bs_known_good s) = 32 \<and> length (bs_generation_root s) = 32 \<and>
     length (bs_state_root s) = 32 \<and> (\<forall>p. bs_pending s = Some p \<longrightarrow> length p = 32)"

definition storable :: "BootState \<Rightarrow> bool" where
  "storable s \<longleftrightarrow> bs_widths s \<and> validate s = Inr () \<and> bs_pending s \<noteq> Some (zeros 32)"

lemma validate_Inr_iff:
  "validate s = Inr u \<longleftrightarrow>
     bs_sequence s \<noteq> - 1 \<and> bs_known_good s \<noteq> zeros 32 \<and> bs_generation_root s \<noteq> zeros 32 \<and>
     (bs_pending s = None \<longrightarrow> bs_remaining_attempts s = 0)"
  by (auto simp: validate_def)

lemma other_involution [simp]: "other (other slot) = slot"
  by (cases slot) simp_all

lemma other_neq [simp]: "other slot \<noteq> slot"
  by (cases slot) simp_all

section \<open>The slot layout\<close>

lemma unat_slot_bytes: "unat (of_nat SLOT_BYTES :: u32) = SLOT_BYTES"
  by (simp add: SLOT_BYTES_def)

lemma length_encode_fields: "bs_widths s \<Longrightarrow> length (encode_fields s) = SLOT_BYTES"
  by (cases "bs_pending s")
    (simp_all add: encode_fields_def bs_widths_def bootstate_layout length_splices del: splices.simps)

lemma encode_fields_slices:
  assumes "bs_widths s"
  shows "slice 0 8 (encode_fields s) = MAGIC"
    and "slice 8 12 (encode_fields s) = to_le FORMAT_VERSION"
    and "slice 12 16 (encode_fields s) = to_le (of_nat SLOT_BYTES :: u32)"
    and "slice 16 24 (encode_fields s) = to_le REQUIRED_FLAGS"
    and "slice 24 32 (encode_fields s) = to_le (bs_sequence s)"
    and "slice 32 64 (encode_fields s) = bs_known_good s"
    and "slice 64 96 (encode_fields s) = (case bs_pending s of Some p \<Rightarrow> p | None \<Rightarrow> zeros 32)"
    and "slice 96 100 (encode_fields s) = to_le (bs_remaining_attempts s)"
    and "slice 100 104 (encode_fields s) = zeros 4"
    and "slice 104 136 (encode_fields s) = bs_generation_root s"
    and "slice 136 168 (encode_fields s) = bs_state_root s"
    and "slice 168 176 (encode_fields s) = to_le (bs_accepted_release_sequence s)"
    and "slice 176 208 (encode_fields s) = zeros 32"
    and "slice 208 512 (encode_fields s) = zeros 304"
  using assms
  by (cases "bs_pending s";
      simp add: encode_fields_def bs_widths_def bootstate_layout slice_zeros slice_splices
        del: splices.simps)+

text \<open>The checksum is computed with its own field blanked, so writing it does not change it.\<close>

lemma slot_checksum_splice:
  "length out = SLOT_BYTES \<Longrightarrow> length c = 32 \<Longrightarrow>
   slot_checksum sha (splice CHECKSUM_OFFSET c out) = slot_checksum sha out"
  by (simp add: slot_checksum_def bootstate_layout slice_simps)

lemma encode_Inr:
  assumes "encode sha s = Inr bs"
  shows "validate s = Inr ()"
    and "bs = splice CHECKSUM_OFFSET (slot_checksum sha (encode_fields s)) (encode_fields s)"
  using assms by (auto simp: encode_def result_simps Let_def)

lemma length_encode:
  assumes "\<And>m. length (sha m) = 32" and "bs_widths s" and "encode sha s = Inr bs"
  shows "length bs = SLOT_BYTES"
  using encode_Inr(2) [OF assms(3)] length_encode_fields [OF assms(2)]
  by (simp add: slot_checksum_def assms(1) bootstate_layout)

text \<open>What a reader makes of a record: all-zero bytes mean no pending generation.\<close>

definition as_stored :: "BootState \<Rightarrow> BootState" where
  "as_stored s = (if bs_pending s = Some (zeros 32) then s\<lparr>bs_pending := None\<rparr> else s)"

lemma decode_stored:
  assumes sha: "\<And>m. length (sha m) = 32" and w: "bs_widths s"
  shows "decode sha (splice CHECKSUM_OFFSET (slot_checksum sha (encode_fields s)) (encode_fields s)) =
    rbind (validate (as_stored s)) (\<lambda>_. Inr (as_stored s))"
proof -
  let ?f = "encode_fields s"
  let ?c = "slot_checksum sha ?f"
  let ?out = "splice CHECKSUM_OFFSET ?c ?f"
  have c: "length ?c = 32" by (simp add: slot_checksum_def sha)
  have f: "length ?f = 512" using length_encode_fields [OF w] by (simp add: SLOT_BYTES_def)
  have sum: "slot_checksum sha ?out = ?c"
    using c f by (intro slot_checksum_splice) (simp_all add: SLOT_BYTES_def)
  note lay = CHECKSUM_OFFSET_def CHECKSUM_END_def SLOT_BYTES_def RELEASE_SEQUENCE_OFFSET_def
  have "decode_fields ?out = as_stored s"
    by (cases "bs_pending s")
      (auto simp: decode_fields_def read_u32_def read_u64_def lay slice_simps c f
        encode_fields_slices [OF w] Let_def as_stored_def)
  moreover have "decode sha ?out = rbind (validate (decode_fields ?out)) (\<lambda>_. Inr (decode_fields ?out))"
    using sum unat_slot_bytes
    by (simp add: decode_def read_u32_def read_u64_def lay slice_simps c f
        encode_fields_slices [OF w] Let_def)
  ultimately show ?thesis by simp
qed

lemma decode_encode:
  assumes sha: "\<And>m. length (sha m) = 32" and s: "storable s"
  shows "\<exists>bs. encode sha s = Inr bs \<and> length bs = SLOT_BYTES \<and> decode sha bs = Inr s"
proof -
  have "bs_widths s" and v: "validate s = Inr ()" and "as_stored s = s"
    using s by (simp_all add: storable_def as_stored_def)
  moreover obtain bs where "encode sha s = Inr bs"
    using v by (simp add: encode_def Let_def)
  ultimately show ?thesis
    using decode_stored [OF sha, of s] length_encode [OF sha, of s] encode_Inr(2) [of sha s] by auto
qed

text \<open>Whatever decodes is exactly the encoding of what it decodes to.\<close>

lemma decode_Inr:
  assumes "decode sha bs = Inr s"
  shows "s = decode_fields bs" and "validate s = Inr ()"
    and "slice 0 8 bs = MAGIC" and "read_u32 bs 8 = FORMAT_VERSION"
    and "unat (read_u32 bs 12) = SLOT_BYTES" and "read_u64 bs 16 = REQUIRED_FLAGS"
    and "all_zero (slice 100 104 bs)" and "all_zero (slice CHECKSUM_END SLOT_BYTES bs)"
    and "slot_checksum sha bs = slice CHECKSUM_OFFSET CHECKSUM_END bs"
  using assms by (auto simp: decode_def Let_def result_simps split: if_splits)

lemma decode_storable:
  assumes "length bs = SLOT_BYTES" and "decode sha bs = Inr s"
  shows "storable s"
  using decode_Inr(1,2) [OF assms(2)] assms(1)
  by (auto simp: storable_def bs_widths_def decode_fields_def Let_def SLOT_BYTES_def)

lemma decode_canonical:
  assumes sha: "\<And>m. length (sha m) = 32" and len: "length bs = SLOT_BYTES"
    and dec: "decode sha bs = Inr s"
  shows "encode sha s = Inr bs"
proof -
  let ?f = "encode_fields s"
  have w: "bs_widths s" using decode_storable [OF len dec] by (simp add: storable_def)
  have f: "length ?f = 512" using length_encode_fields [OF w] by (simp add: SLOT_BYTES_def)
  have n: "length bs = 512" using len by (simp add: SLOT_BYTES_def)
  note dec' = decode_Inr [OF dec]
  have u12: "slice 12 16 bs = to_le (of_nat SLOT_BYTES :: u32)"
    using dec'(5) to_le_from_le_u32 [of "slice 12 16 bs"] n unat_slot_bytes
    by (simp add: read_u32_def) (metis word_unat_eq_iff)
  have u8: "slice 8 12 bs = to_le FORMAT_VERSION" and u16: "slice 16 24 bs = to_le REQUIRED_FLAGS"
    using dec'(4,6) to_le_from_le_u32 [of "slice 8 12 bs"] to_le_from_le_u64 [of "slice 16 24 bs"] n
    by (simp_all add: read_u32_def read_u64_def)
  have z: "slice 100 104 bs = zeros 4" "slice 208 512 bs = zeros 304"
    using dec'(7,8) n by (simp_all add: all_zero_iff CHECKSUM_END_def SLOT_BYTES_def)
  have fields: "to_le (bs_sequence s) = slice 24 32 bs" "bs_known_good s = slice 32 64 bs"
    "(case bs_pending s of Some p \<Rightarrow> p | None \<Rightarrow> zeros 32) = slice 64 96 bs"
    "to_le (bs_remaining_attempts s) = slice 96 100 bs" "bs_generation_root s = slice 104 136 bs"
    "bs_state_root s = slice 136 168 bs" "to_le (bs_accepted_release_sequence s) = slice 168 176 bs"
    using dec'(1) n
    by (simp_all add: decode_fields_def Let_def read_u32_def read_u64_def to_le_from_le_u32
        to_le_from_le_u64 RELEASE_SEQUENCE_OFFSET_def)
  have pieces: "slices [0, 8, 12, 16, 24, 32, 64, 96, 100, 104, 136, 168, 176] ?f =
      slices [0, 8, 12, 16, 24, 32, 64, 96, 100, 104, 136, 168, 176] bs"
    by (simp only: slices.simps encode_fields_slices [OF w] u8 u12 u16 z fields dec'(3))
  then have low: "slice 0 176 ?f = slice 0 176 bs"
    by (simp add: slices_eq)
  have high: "slice 208 512 ?f = slice 208 512 bs"
    by (simp only: encode_fields_slices [OF w] z)
  have sum: "slot_checksum sha ?f = slice 176 208 bs"
    using dec'(9) low high
    by (simp add: slot_checksum_def CHECKSUM_OFFSET_def CHECKSUM_END_def SLOT_BYTES_def)
  let ?out = "splice 176 (slice 176 208 bs) ?f"
  have "slices [0, 176, 208, 512] ?out = slices [0, 176, 208, 512] bs"
    using n f low high by (simp add: slice_simps slices.simps)
  then have "?out = bs"
    using slices_whole [of "[176, 208, 512]" ?out] slices_whole [of "[176, 208, 512]" bs] n f
    by simp
  then show ?thesis
    using dec'(2) sum by (simp add: encode_def Let_def CHECKSUM_OFFSET_def)
qed

section \<open>Transitions as a step relation\<close>

lemma next_sequence_Inr_iff [result_simps]:
  "next_sequence n = Inr m \<longleftrightarrow> unat m = unat n + 1 \<and> m \<noteq> - 1"
proof
  assume "next_sequence n = Inr m"
  then show "unat m = unat n + 1 \<and> m \<noteq> - 1"
    by (auto simp: next_sequence_def result_simps checked_simps split: option.splits if_splits)
next
  assume m: "unat m = unat n + 1 \<and> m \<noteq> - 1"
  then have "checked_add n 1 = Some m" by (simp add: checked_add_iff)
  with m show "next_sequence n = Inr m" by (simp add: next_sequence_def)
qed

inductive boot_step :: "BootState \<Rightarrow> BootState \<Rightarrow> bool" where
  stage: "stage_pending pending attempts generation_root state_root s = Inr t \<Longrightarrow> boot_step s t"
| consume: "consume_pending_attempt s = Inr t \<Longrightarrow> boot_step s t"
| promote: "promote_pending running release_sequence s = Inr t \<Longrightarrow> boot_step s t"
| rollback: "rollback_pending s = Inr t \<Longrightarrow> boot_step s t"

inductive_cases boot_stepE: "boot_step s t"

text \<open>A committed transition takes the next sequence number; \<open>follows\<close> names that number.\<close>

definition follows :: "u64 \<Rightarrow> u64 \<Rightarrow> bool" where
  "follows m n \<longleftrightarrow> unat n = unat m + 1 \<and> n \<noteq> - 1"

lemma stage_pending_Inr_iff [result_simps]:
  "stage_pending p k g r s = Inr t \<longleftrightarrow> k \<noteq> 0 \<and> (\<exists>n. follows (bs_sequence s) n \<and>
     t = s\<lparr>bs_sequence := n, bs_pending := Some p, bs_remaining_attempts := k,
           bs_generation_root := g, bs_state_root := r\<rparr>)"
  by (cases s) (auto simp: stage_pending_def result_simps follows_def)

lemma consume_pending_attempt_Inr_iff [result_simps]:
  "consume_pending_attempt s = Inr t \<longleftrightarrow> bs_pending s \<noteq> None \<and> bs_remaining_attempts s \<noteq> 0 \<and>
     (\<exists>n. follows (bs_sequence s) n \<and>
        t = s\<lparr>bs_sequence := n, bs_remaining_attempts := bs_remaining_attempts s - 1\<rparr>)"
  by (auto simp: consume_pending_attempt_def result_simps follows_def)

lemma promote_pending_Inr_iff [result_simps]:
  "promote_pending p k s = Inr t \<longleftrightarrow> bs_pending s = Some p \<and> bs_accepted_release_sequence s < k \<and>
     (\<exists>n. follows (bs_sequence s) n \<and>
        t = s\<lparr>bs_sequence := n, bs_known_good := p, bs_pending := None,
              bs_remaining_attempts := 0, bs_accepted_release_sequence := k\<rparr>)"
  by (auto simp: promote_pending_def result_simps follows_def not_le)

lemma rollback_pending_Inr_iff [result_simps]:
  "rollback_pending s = Inr t \<longleftrightarrow>
     (if bs_pending s = None then t = s
      else \<exists>n. follows (bs_sequence s) n \<and>
        t = s\<lparr>bs_sequence := n, bs_pending := None, bs_remaining_attempts := 0\<rparr>)"
  by (auto simp: rollback_pending_def result_simps follows_def)

lemma boot_step_progress:
  assumes "boot_step s t"
  shows "t = s \<or> unat (bs_sequence t) = unat (bs_sequence s) + 1"
    and "bs_accepted_release_sequence s \<le> bs_accepted_release_sequence t"
    and "bs_known_good t \<noteq> bs_known_good s \<Longrightarrow>
         bs_pending s = Some (bs_known_good t) \<and>
         bs_accepted_release_sequence s < bs_accepted_release_sequence t"
  using assms
  by (cases; auto simp: result_simps follows_def split: if_splits)+

lemma boot_step_storable:
  assumes "boot_step s t" and "storable s"
    and "bs_widths t" and "bs_generation_root t \<noteq> zeros 32" and "bs_pending t \<noteq> Some (zeros 32)"
  shows "storable t"
  using assms
  by cases (auto simp: result_simps follows_def storable_def validate_Inr_iff split: if_splits)

lemma boot_steps_progress:
  assumes "boot_step\<^sup>*\<^sup>* s t"
  shows "(t = s \<or> unat (bs_sequence s) < unat (bs_sequence t)) \<and>
    bs_accepted_release_sequence s \<le> bs_accepted_release_sequence t \<and>
    (bs_known_good t \<noteq> bs_known_good s \<longrightarrow>
      bs_accepted_release_sequence s < bs_accepted_release_sequence t)"
  using assms
proof (induction rule: rtranclp_induct)
  case base
  then show ?case by simp
next
  case (step t u)
  from boot_step_progress [OF step.hyps(2)] step.IH show ?case
    by (cases "bs_known_good u = bs_known_good t") auto
qed

text \<open>Booting a pending generation again and again: one consumed attempt per boot.\<close>

primrec consume_times :: "nat \<Rightarrow> BootState \<Rightarrow> (BootTransitionError, BootState) res" where
  "consume_times 0 s = Inr s"
| "consume_times (Suc n) s = rbind (consume_pending_attempt s) (consume_times n)"

lemma consume_times_Inr:
  "consume_times n s = Inr t \<Longrightarrow>
   unat (bs_remaining_attempts s) = unat (bs_remaining_attempts t) + n \<and>
   unat (bs_sequence t) = unat (bs_sequence s) + n \<and>
   bs_pending t = bs_pending s \<and> bs_known_good t = bs_known_good s"
proof (induction n arbitrary: s)
  case (Suc n)
  then obtain u where u: "consume_pending_attempt s = Inr u" and n: "consume_times n u = Inr t"
    by (auto simp: rbind_Inr_iff)
  have "unat (bs_remaining_attempts s) = unat (bs_remaining_attempts u) + 1 \<and>
      unat (bs_sequence u) = unat (bs_sequence s) + 1 \<and> bs_pending u = bs_pending s \<and>
      bs_known_good u = bs_known_good s"
    using u unat_minus_one [of "bs_remaining_attempts s"]
    by (auto simp: result_simps follows_def unat_gt_0)
  with Suc.IH [OF n] show ?case by simp
qed simp

section \<open>Selection\<close>

definition slot_bytes_of :: "Slot \<Rightarrow> bytes \<Rightarrow> bytes \<Rightarrow> bytes" where
  "slot_bytes_of slot a b = (case slot of Slot_A \<Rightarrow> a | Slot_B \<Rightarrow> b)"

lemma slot_bytes_of_simps [simp]:
  "slot_bytes_of Slot_A a b = a"
  "slot_bytes_of Slot_B a b = b"
  by (simp_all add: slot_bytes_of_def)

lemma select_Inr:
  assumes "select_bootstate sha a b = Inr r"
  shows "decode sha (slot_bytes_of (sel_slot r) a b) = Inr (sel_state r)"
    and "decode sha (slot_bytes_of (other (sel_slot r)) a b) = Inr t \<Longrightarrow>
         t = sel_state r \<or> bs_sequence t < bs_sequence (sel_state r)"
  using assms
  by (auto simp: select_bootstate_def split: sum.splits if_splits)

lemma select_wins:
  assumes "decode sha (slot_bytes_of slot a b) = Inr s"
    and "\<And>t. decode sha (slot_bytes_of (other slot) a b) = Inr t \<Longrightarrow> bs_sequence t < bs_sequence s"
  shows "select_bootstate sha a b = Inr \<lparr>sel_slot = slot, sel_state = s\<rparr>"
  using assms
  by (cases slot) (auto simp: select_bootstate_def split: sum.splits dest: less_not_sym)

section \<open>Properties\<close>

text \<open>
  C25: every storable record encodes to one 512-byte slot, and decoding that slot gives the record
  back.
\<close>

theorem bootstate_roundtrip:
  assumes "\<And>m. length (sha m) = 32" and "storable s"
  shows "\<exists>bs. encode sha s = Inr bs \<and> length bs = SLOT_BYTES \<and> decode sha bs = Inr s"
  using assms by (rule decode_encode)

definition sample_sha :: "bytes \<Rightarrow> bytes" where
  "sample_sha m = replicate 32 (fold (\<lambda>b acc. 31 * acc + b) m 7)"

definition sample_state :: BootState where
  "sample_state =
     \<lparr>bs_sequence = 7, bs_known_good = replicate 32 1, bs_pending = Some (replicate 32 2),
      bs_remaining_attempts = 3, bs_generation_root = replicate 32 4,
      bs_state_root = zeros 32, bs_accepted_release_sequence = 5\<rparr>"

lemma sample_storable: "storable sample_state"
  by (simp add: storable_def bs_widths_def validate_def sample_state_def zeros_def)

lemma length_sample_sha: "length (sample_sha m) = 32"
  by (simp add: sample_sha_def)

theorem bootstate_roundtrip_witness:
  "\<exists>bs. encode sample_sha sample_state = Inr bs \<and> length bs = SLOT_BYTES \<and>
        decode sample_sha bs = Inr sample_state"
  by (rule bootstate_roundtrip [OF length_sample_sha sample_storable])

text \<open>
  C26: decoding is canonical.  A 512-byte slot that decodes is byte for byte the encoding of the
  record it decodes to, so no two different slots carry the same record.
\<close>

theorem bootstate_decode_canonical:
  assumes "\<And>m. length (sha m) = 32" and "length bs = SLOT_BYTES" and "decode sha bs = Inr s"
  shows "storable s \<and> encode sha s = Inr bs"
  using decode_storable [OF assms(2,3)] decode_canonical [OF assms] by blast

theorem bootstate_decode_canonical_witness:
  "\<exists>bs. length bs = SLOT_BYTES \<and> decode sample_sha bs = Inr sample_state \<and>
        storable sample_state \<and> encode sample_sha sample_state = Inr bs"
  using decode_encode [of sample_sha, OF length_sample_sha sample_storable]
    bootstate_decode_canonical [of sample_sha, OF length_sample_sha]
  by blast

text \<open>
  C23: along every history of transitions the sequence number never repeats for a changed record,
  the accepted release sequence never decreases, and the known-good generation changes only
  together with a strictly newer accepted release.
\<close>

theorem boot_history_monotone:
  assumes "boot_step\<^sup>*\<^sup>* s t"
  shows "(t = s \<or> bs_sequence s < bs_sequence t) \<and>
    bs_accepted_release_sequence s \<le> bs_accepted_release_sequence t \<and>
    (bs_known_good t \<noteq> bs_known_good s \<longrightarrow>
      bs_accepted_release_sequence s < bs_accepted_release_sequence t)"
  using boot_steps_progress [OF assms] by (simp add: word_less_nat_alt)

definition promoted_state :: BootState where
  "promoted_state =
     \<lparr>bs_sequence = 8, bs_known_good = replicate 32 2, bs_pending = None,
      bs_remaining_attempts = 0, bs_generation_root = replicate 32 4,
      bs_state_root = zeros 32, bs_accepted_release_sequence = 6\<rparr>"

lemma sample_promotes: "promote_pending (replicate 32 2) 6 sample_state = Inr promoted_state"
  by (simp add: promote_pending_def next_sequence_def checked_add_def sample_state_def
      promoted_state_def)

theorem boot_history_monotone_witness:
  "boot_step\<^sup>*\<^sup>* sample_state promoted_state \<and>
   (promoted_state = sample_state \<or> bs_sequence sample_state < bs_sequence promoted_state) \<and>
   bs_accepted_release_sequence sample_state < bs_accepted_release_sequence promoted_state"
proof -
  have step: "boot_step\<^sup>*\<^sup>* sample_state promoted_state"
    using boot_step.promote [OF sample_promotes] by blast
  have "bs_known_good promoted_state \<noteq> bs_known_good sample_state"
    by (simp add: promoted_state_def sample_state_def)
  with step boot_history_monotone [OF step] show ?thesis by blast
qed

text \<open>
  C27: a pending generation is booted at most as often as it has attempts, each boot takes the
  next sequence number, and the known-good generation stays what it was.
\<close>

theorem trial_boots_bounded:
  assumes "consume_times n s = Inr t"
  shows "n \<le> unat (bs_remaining_attempts s) \<and>
    unat (bs_remaining_attempts t) = unat (bs_remaining_attempts s) - n \<and>
    unat (bs_sequence t) = unat (bs_sequence s) + n \<and>
    bs_pending t = bs_pending s \<and> bs_known_good t = bs_known_good s"
  using consume_times_Inr [OF assms] by simp

theorem trial_boots_bounded_witness:
  "\<exists>t. consume_times 2 sample_state = Inr t \<and> unat (bs_remaining_attempts t) = 1 \<and>
       bs_known_good t = replicate 32 1"
proof -
  have "isl (consume_times (Suc (Suc 0)) sample_state) = False"
    by (simp add: consume_pending_attempt_def next_sequence_def checked_add_def
        sample_state_def)
  then obtain t where t: "consume_times 2 sample_state = Inr t"
    by (cases "consume_times (Suc (Suc 0)) sample_state") (auto simp: numeral_2_eq_2 simp del: consume_times.simps)
  then show ?thesis
    using trial_boots_bounded [OF t] by (auto simp: sample_state_def)
qed

text \<open>
  The selected slot decodes to the selected record, the other slot is damaged, older or
  identical, and selection fails exactly when no slot decodes or two different records carry the
  same sequence number.
\<close>

theorem select_bootstate_spec:
  "case select_bootstate sha a b of
     Inr r \<Rightarrow> decode sha (slot_bytes_of (sel_slot r) a b) = Inr (sel_state r) \<and>
       (case decode sha (slot_bytes_of (other (sel_slot r)) a b) of
          Inr t \<Rightarrow> t = sel_state r \<or> bs_sequence t < bs_sequence (sel_state r)
        | Inl _ \<Rightarrow> True)
   | Inl NoValidBootState \<Rightarrow> (\<exists>e f. decode sha a = Inl e \<and> decode sha b = Inl f)
   | Inl ConflictingSlots \<Rightarrow>
       (\<exists>s t. decode sha a = Inr s \<and> decode sha b = Inr t \<and> s \<noteq> t \<and> bs_sequence s = bs_sequence t)"
  by (auto simp: select_bootstate_def split: sum.splits if_splits)

text \<open>
  C30: staging the all-zero generation is accepted and encodes, but the slot it produces is
  rejected by \<open>decode\<close>: the format reads all-zero bytes as no pending generation.
\<close>

theorem zero_pending_unreadable:
  assumes "\<And>m. length (sha m) = 32" and "storable s" and "length g = 32" and "g \<noteq> zeros 32"
    and "length r = 32" and "stage_pending (zeros 32) n g r s = Inr t"
  shows "\<exists>bs. encode sha t = Inr bs \<and> decode sha bs = Inl BadPendingAttempts"
proof -
  from assms(6) obtain q where "n \<noteq> 0" and q: "follows (bs_sequence s) q"
    and t: "t = s\<lparr>bs_sequence := q, bs_pending := Some (zeros 32), bs_remaining_attempts := n,
                  bs_generation_root := g, bs_state_root := r\<rparr>"
    by (auto simp: result_simps)
  have "bs_widths t" and "validate t = Inr ()"
    using assms(2-5) q by (auto simp: t storable_def bs_widths_def validate_Inr_iff follows_def)
  moreover have "validate (as_stored t) = Inl BadPendingAttempts"
    using assms(2,4) q \<open>n \<noteq> 0\<close>
    by (auto simp: t as_stored_def storable_def validate_def follows_def split: if_splits)
  ultimately show ?thesis
    using decode_stored [OF assms(1), of t] by (simp add: encode_def Let_def)
qed


theorem zero_pending_unreadable_witness:
  "\<exists>t. stage_pending (zeros 32) 3 (replicate 32 4) (zeros 32) sample_state = Inr t \<and>
       (\<exists>bs. encode sample_sha t = Inr bs \<and> decode sample_sha bs = Inl BadPendingAttempts)"
proof -
  have "isl (stage_pending (zeros 32) 3 (replicate 32 4) (zeros 32) sample_state) = False"
    by (simp add: stage_pending_def next_sequence_def checked_add_def sample_state_def)
  then obtain t where t: "stage_pending (zeros 32) 3 (replicate 32 4) (zeros 32) sample_state = Inr t"
    by (cases "stage_pending (zeros 32) 3 (replicate 32 4) (zeros 32) sample_state") auto
  then show ?thesis
    using zero_pending_unreadable [of sample_sha, OF length_sample_sha sample_storable _ _ _ t]
    by (auto simp: zeros_def)
qed
end
