(* ===== verification/BlockDevice.thy ===== *)
theory BlockDevice
  imports Slime_Prelude
begin

text \<open>
  The polled virtio block driver of \<open>slime-root/src/boot_selector_block.rs\<close> at the level of
  requests, and the interface its clients rely on.

  The device is outside the code.  It appears as a schedule of completions, one per doorbell: the
  status byte it writes, or that it writes none before the poll bound, and, for a request it does
  not acknowledge, what became of the sector.  Writes are volatile until a flush is acknowledged;
  \<open>survivors\<close> lists what a sector may hold after a power loss.
\<close>

section \<open>The driver\<close>

definition SECTOR_BYTES :: nat where "SECTOR_BYTES = 512"

definition REQ_IN :: u32 where "REQ_IN = 0"
definition REQ_OUT :: u32 where "REQ_OUT = 1"
definition REQ_FLUSH :: u32 where "REQ_FLUSH = 4"
definition STATUS_OK :: u8 where "STATUS_OK = 0"
definition STATUS_PENDING :: u8 where "STATUS_PENDING = 0xff"

datatype BlockError =
    Timeout | Poisoned | Device u8 | OutOfBounds u64 u64

text \<open>What the device did to the sector of a write it did not acknowledge.\<close>

datatype WriteEffect = Applied | Dropped | Torn bytes

datatype Completion =
    Completed u8 WriteEffect
  | NoUsedEntry WriteEffect

record VirtioBlock =
  vb_capacity :: u64
  vb_avail_index :: u16
  vb_used_index :: u16
  vb_poisoned :: bool
  vb_buffer :: bytes
  vb_media :: "u64 \<Rightarrow> bytes"
  vb_unflushed :: "(u64 \<times> bytes) list"
  vb_schedule :: "Completion list"

definition contents :: "VirtioBlock \<Rightarrow> u64 \<Rightarrow> bytes" where
  "contents d lba = (case map_of (vb_unflushed d) lba of Some bs \<Rightarrow> bs | None \<Rightarrow> vb_media d lba)"

definition survivors :: "VirtioBlock \<Rightarrow> u64 \<Rightarrow> bytes list" where
  "survivors d lba = vb_media d lba # map snd (filter (\<lambda>w. fst w = lba) (vb_unflushed d))"

text \<open>The device side of one doorbell.\<close>

definition store_sector :: "u64 \<Rightarrow> bytes \<Rightarrow> VirtioBlock \<Rightarrow> VirtioBlock" where
  "store_sector lba bs d = d\<lparr>vb_unflushed := (lba, bs) # vb_unflushed d\<rparr>"

definition apply_effect :: "WriteEffect \<Rightarrow> u64 \<Rightarrow> VirtioBlock \<Rightarrow> VirtioBlock" where
  "apply_effect e lba d =
     (case e of
        Applied \<Rightarrow> store_sector lba (vb_buffer d) d
      | Dropped \<Rightarrow> d
      | Torn bs \<Rightarrow> store_sector lba (take SECTOR_BYTES (bs @ zeros SECTOR_BYTES)) d)"

definition device_execute :: "u32 \<Rightarrow> u64 \<Rightarrow> Completion \<Rightarrow> VirtioBlock \<Rightarrow> VirtioBlock" where
  "device_execute kind lba c d =
     (case c of
        Completed status e \<Rightarrow>
          if status = STATUS_OK then
            if kind = REQ_IN then d\<lparr>vb_buffer := contents d lba\<rparr>
            else if kind = REQ_OUT then store_sector lba (vb_buffer d) d
            else d\<lparr>vb_media := contents d, vb_unflushed := []\<rparr>
          else if kind = REQ_OUT then apply_effect e lba d
          else d
      | NoUsedEntry e \<Rightarrow> if kind = REQ_OUT then apply_effect e lba d else d)"

definition ring :: "u32 \<Rightarrow> u64 \<Rightarrow> VirtioBlock \<Rightarrow> Completion \<times> VirtioBlock" where
  "ring kind lba d =
     (case vb_schedule d of
        [] \<Rightarrow> (NoUsedEntry Dropped, d)
      | c # cs \<Rightarrow> (c, device_execute kind lba c (d\<lparr>vb_schedule := cs\<rparr>)))"

text \<open>
  \<open>submit\<close>: refuse on a poisoned transport, publish the chain, wait for the used ring and then
  for the status byte to be replaced; either wait running out poisons the transport.
\<close>

definition submit :: "u32 \<Rightarrow> u64 \<Rightarrow> (VirtioBlock, BlockError, unit) sres" where
  "submit kind lba d =
     (if vb_poisoned d then (Inl Poisoned, d)
      else case ring kind lba (d\<lparr>vb_avail_index := vb_avail_index d + 1\<rparr>) of
             (NoUsedEntry _, d) \<Rightarrow> (Inl Timeout, d\<lparr>vb_poisoned := True\<rparr>)
           | (Completed status _, d) \<Rightarrow>
               let d = d\<lparr>vb_used_index := vb_used_index d + 1\<rparr>
               in if status = STATUS_PENDING then (Inl Timeout, d\<lparr>vb_poisoned := True\<rparr>)
                  else if status = STATUS_OK then (Inr (), d)
                  else (Inl (Device status), d))"

definition bounds :: "u64 \<Rightarrow> (VirtioBlock, BlockError, unit) sres" where
  "bounds lba d =
     (if lba < vb_capacity d then (Inr (), d) else (Inl (OutOfBounds lba (vb_capacity d)), d))"

definition read_sector :: "u64 \<Rightarrow> (VirtioBlock, BlockError, bytes) sres" where
  "read_sector lba =
     sbind (bounds lba) (\<lambda>_. sbind (submit REQ_IN lba) (\<lambda>_. \<lambda>d. (Inr (vb_buffer d), d)))"

definition write_sector :: "u64 \<Rightarrow> bytes \<Rightarrow> (VirtioBlock, BlockError, unit) sres" where
  "write_sector lba bs =
     sbind (bounds lba) (\<lambda>_. \<lambda>d. submit REQ_OUT lba (d\<lparr>vb_buffer := bs\<rparr>))"

definition flush :: "(VirtioBlock, BlockError, unit) sres" where
  "flush = submit REQ_FLUSH 0"

section \<open>The interface clients rely on\<close>

text \<open>
  What a run of requests may do to the sectors: \<open>new x\<close> are the bytes it writes to sector \<open>x\<close>.
  Sectors it does not write keep their contents and gain no survivor; a written sector's
  survivors are old ones, new ones, or images the device tears.
\<close>

definition confined ::
  "('d \<Rightarrow> u64 \<Rightarrow> bytes) \<Rightarrow> ('d \<Rightarrow> u64 \<Rightarrow> bytes set) \<Rightarrow> ('d \<Rightarrow> bytes set) \<Rightarrow> (u64 \<Rightarrow> bytes set) \<Rightarrow>
   'd \<Rightarrow> 'd \<Rightarrow> bool" where
  "confined view surv torn new d d' \<longleftrightarrow>
     torn d' \<subseteq> torn d \<and>
     (\<forall>x. new x = {} \<longrightarrow> view d' x = view d x \<and> surv d' x \<subseteq> surv d x) \<and>
     (\<forall>x. surv d' x \<subseteq> surv d x \<union> new x \<union> torn d)"

lemma confined_same: "confined view surv torn new d d"
  by (auto simp: confined_def)

lemma confined_outside:
  assumes "confined view surv torn new d d'" and "new x = {}"
  shows "view d' x = view d x" and "surv d' x \<subseteq> surv d x"
  using assms by (auto simp: confined_def)

lemma confined_inside:
  "confined view surv torn new d d' \<Longrightarrow> y \<in> surv d' x \<Longrightarrow> y \<in> surv d x \<union> new x \<union> torn d"
  unfolding confined_def by blast

lemma confined_torn: "confined view surv torn new d d' \<Longrightarrow> torn d' \<subseteq> torn d"
  by (simp add: confined_def)

lemma confined_refl [intro]: "reflp (confined view surv torn new)"
  by (simp add: reflp_def confined_same)

lemma confined_trans [intro]: "transp (confined view surv torn new)"
proof (rule transpI)
  fix d e f
  assume de: "confined view surv torn new d e" and ef: "confined view surv torn new e f"
  then have "surv f x \<subseteq> surv d x \<union> new x \<union> torn d" for x
    unfolding confined_def by blast
  with de ef show "confined view surv torn new d f"
    unfolding confined_def by (metis subset_trans)
qed

text \<open>
  The surface of a block device: reading, writing and flushing sectors, the sector contents a
  read returns, what a sector may hold after a power loss, and the images a failing write may
  leave.  Reads report the contents and change nothing; a write changes at most its own sector;
  an acknowledged flush makes the contents the only survivor.
\<close>

locale block_device =
  fixes rd :: "u64 \<Rightarrow> ('d, 'e, bytes) sres"
    and wr :: "u64 \<Rightarrow> bytes \<Rightarrow> ('d, 'e, unit) sres"
    and fl :: "('d, 'e, unit) sres"
    and view :: "'d \<Rightarrow> u64 \<Rightarrow> bytes"
    and surv :: "'d \<Rightarrow> u64 \<Rightarrow> bytes set"
    and torn :: "'d \<Rightarrow> bytes set"
  assumes rd_view: "rd lba d = (r, d') \<Longrightarrow> view d' = view d \<and> surv d' = surv d \<and> torn d' \<subseteq> torn d"
    and rd_ok: "rd lba d = (Inr bs, d') \<Longrightarrow> bs = view d lba"
    and wr_frame: "wr lba bs d = (q, d') \<Longrightarrow> x \<noteq> lba \<Longrightarrow> view d' x = view d x \<and> surv d' x = surv d x"
    and wr_ok: "wr lba bs d = (Inr u, d') \<Longrightarrow> view d' lba = bs \<and> surv d' lba = insert bs (surv d lba)"
    and wr_surv: "wr lba bs d = (q, d') \<Longrightarrow> surv d' lba \<subseteq> insert bs (surv d lba) \<union> torn d"
    and wr_torn: "wr lba bs d = (q, d') \<Longrightarrow> torn d' \<subseteq> torn d"
    and fl_view: "fl d = (q, d') \<Longrightarrow> view d' = view d \<and> torn d' \<subseteq> torn d \<and> surv d' x \<subseteq> surv d x"
    and fl_ok: "fl d = (Inr u, d') \<Longrightarrow> surv d' x = {view d x}"
begin

text \<open>Write, then flush, both acknowledged: the sector holds exactly the new bytes.\<close>

lemma write_flush_durable:
  assumes "wr lba bs d = (Inr u, d1)" and "fl d1 = (Inr v, d2)"
  shows "view d2 = (view d)(lba := bs)" and "surv d2 lba = {bs}"
    and "x \<noteq> lba \<Longrightarrow> surv d2 x = {view d x}"
  using wr_ok [OF assms(1)] wr_frame [OF assms(1)] fl_view [OF assms(2)] fl_ok [OF assms(2)]
  by (auto simp: fun_eq_iff)

lemma rd_confined: "keeps (confined view surv torn new) (rd lba)"
  unfolding keeps_def
proof
  fix d
  obtain r d' where r: "rd lba d = (r, d')" by fastforce
  show "confined view surv torn new d (snd (rd lba d))"
    using rd_view [OF r] by (auto simp: r confined_def)
qed

lemma fl_confined: "keeps (confined view surv torn new) fl"
  unfolding keeps_def
proof
  fix d
  obtain r d' where r: "fl d = (r, d')" by fastforce
  show "confined view surv torn new d (snd (fl d))"
    using fl_view [OF r] by (auto simp: r confined_def)
qed

lemma wr_confined:
  assumes "bs \<in> new lba"
  shows "keeps (confined view surv torn new) (wr lba bs)"
  unfolding keeps_def
proof
  fix d
  obtain r d' where r: "wr lba bs d = (r, d')" by fastforce
  have "surv d' x \<subseteq> surv d x \<union> new x \<union> torn d" for x
    using wr_surv [OF r] wr_frame [OF r, of x] assms by (cases "x = lba") auto
  moreover have "view d' x = view d x \<and> surv d' x \<subseteq> surv d x" if "new x = {}" for x
    using wr_frame [OF r, of x] that assms by (cases "x = lba") auto
  ultimately show "confined view surv torn new d (snd (wr lba bs d))"
    using wr_torn [OF r] by (simp add: r confined_def)
qed

end

section \<open>The driver implements the interface\<close>

lemma contents_store_sector: "contents (store_sector lba bs d) = (contents d)(lba := bs)"
  by (auto simp: contents_def store_sector_def fun_eq_iff split: option.split)

lemma set_survivors_store_sector:
  "set (survivors (store_sector lba bs d) x) =
     (if x = lba then insert bs (set (survivors d x)) else set (survivors d x))"
  by (auto simp: survivors_def store_sector_def)

text \<open>Everything but the sectors is invisible to \<open>contents\<close> and \<open>survivors\<close>.\<close>

lemma contents_survivors_cong [simp]:
  "contents (d\<lparr>vb_avail_index := i\<rparr>) = contents d"
  "contents (d\<lparr>vb_used_index := j\<rparr>) = contents d"
  "contents (d\<lparr>vb_poisoned := p\<rparr>) = contents d"
  "contents (d\<lparr>vb_buffer := bs\<rparr>) = contents d"
  "contents (d\<lparr>vb_schedule := cs\<rparr>) = contents d"
  "survivors (d\<lparr>vb_avail_index := i\<rparr>) = survivors d"
  "survivors (d\<lparr>vb_used_index := j\<rparr>) = survivors d"
  "survivors (d\<lparr>vb_poisoned := p\<rparr>) = survivors d"
  "survivors (d\<lparr>vb_buffer := bs\<rparr>) = survivors d"
  "survivors (d\<lparr>vb_schedule := cs\<rparr>) = survivors d"
  by (simp_all add: contents_def survivors_def fun_eq_iff split: option.split)

lemmas request_kinds = REQ_IN_def REQ_OUT_def REQ_FLUSH_def STATUS_OK_def STATUS_PENDING_def

lemmas submit_unfold = submit_def ring_def device_execute_def request_kinds

lemma contents_in_survivors: "contents d x \<in> set (survivors d x)"
proof (cases "map_of (vb_unflushed d) x")
  case None
  then show ?thesis by (simp add: contents_def survivors_def)
next
  case (Some bs)
  then have "(x, bs) \<in> set (vb_unflushed d)" by (rule map_of_SomeD)
  with Some show ?thesis by (force simp: contents_def survivors_def)
qed

lemma submit_IN:
  assumes "submit REQ_IN lba d = (r, d')"
  shows "contents d' = contents d" and "survivors d' = survivors d"
    and "r = Inr u \<Longrightarrow> vb_buffer d' = contents d lba"
  using assms
  by (auto simp: submit_unfold Let_def split: if_splits list.splits Completion.splits)

lemma apply_effect_frame:
  "x \<noteq> lba \<Longrightarrow> contents (apply_effect e lba d) x = contents d x"
  "x \<noteq> lba \<Longrightarrow> set (survivors (apply_effect e lba d) x) = set (survivors d x)"
  "set (survivors d lba) \<subseteq> set (survivors (apply_effect e lba d) lba)"
  by (auto simp: apply_effect_def contents_store_sector set_survivors_store_sector
      split: WriteEffect.splits)

lemma apply_effect_kept:
  "y \<in> set (survivors d lba) \<Longrightarrow> y \<in> set (survivors (apply_effect e lba d) lba)"
  using apply_effect_frame(3) by blast

lemma submit_OUT:
  assumes "submit REQ_OUT lba d = (r, d')"
  shows "x \<noteq> lba \<Longrightarrow> contents d' x = contents d x \<and> set (survivors d' x) = set (survivors d x)"
    and "y \<in> set (survivors d lba) \<Longrightarrow> y \<in> set (survivors d' lba)"
    and "r = Inr u \<Longrightarrow> contents d' lba = vb_buffer d \<and>
         set (survivors d' lba) = insert (vb_buffer d) (set (survivors d lba))"
  using assms
  by (auto simp: submit_unfold Let_def apply_effect_frame(1,2) contents_store_sector
      set_survivors_store_sector
      split: if_splits list.splits Completion.splits intro!: apply_effect_kept)

text \<open>The images a device may leave behind when it tears a sector.\<close>

fun effect_of :: "Completion \<Rightarrow> WriteEffect" where
  "effect_of (Completed _ e) = e"
| "effect_of (NoUsedEntry e) = e"

definition torn_images :: "Completion list \<Rightarrow> bytes set" where
  "torn_images cs = {take SECTOR_BYTES (bs @ zeros SECTOR_BYTES) | bs. Torn bs \<in> effect_of ` set cs}"

lemma survivors_apply_effect:
  "y \<in> set (survivors (apply_effect e lba d) lba) \<Longrightarrow>
   y \<in> set (survivors d lba) \<or> y = vb_buffer d \<or>
   (\<exists>bs. e = Torn bs \<and> y = take SECTOR_BYTES (bs @ zeros SECTOR_BYTES))"
  by (auto simp: apply_effect_def set_survivors_store_sector split: WriteEffect.splits)

lemma survivors_submit_OUT:
  assumes "submit REQ_OUT lba d = (r, d')" and "y \<in> set (survivors d' lba)"
  shows "y \<in> set (survivors d lba) \<or> y = vb_buffer d \<or> y \<in> torn_images (vb_schedule d)"
proof -
  consider "d' = d" | c cs e where "vb_schedule d = c # cs" and "effect_of c = e"
    and "set (survivors d' lba) = insert (vb_buffer d) (set (survivors d lba)) \<or>
         set (survivors d' lba) =
           set (survivors (apply_effect e lba
             (d\<lparr>vb_avail_index := vb_avail_index d + 1, vb_schedule := cs\<rparr>)) lba)"
    | "set (survivors d' lba) = set (survivors d lba)"
    using assms(1)
    by (auto simp: submit_unfold Let_def set_survivors_store_sector
        split: if_splits list.splits Completion.splits)
  then show ?thesis
  proof cases
    case 2
    then show ?thesis
      using assms(2) survivors_apply_effect [of y e lba]
      by (fastforce simp: torn_images_def)
  qed (use assms(2) in auto)
qed

lemma submit_schedule: "submit kind lba d = (r, d') \<Longrightarrow> set (vb_schedule d') \<subseteq> set (vb_schedule d)"
  by (auto simp: submit_unfold Let_def apply_effect_def store_sector_def
      split: if_splits list.splits Completion.splits WriteEffect.splits)

lemma submit_FLUSH:
  assumes "submit REQ_FLUSH lba d = (r, d')"
  shows "contents d' = contents d" and "set (survivors d' x) \<subseteq> set (survivors d x)"
    and "r = Inr u \<Longrightarrow> set (survivors d' x) = {contents d x}"
  using assms contents_in_survivors [of d x]
  by (auto simp: submit_unfold Let_def contents_def [of "_\<lparr>vb_media := _, vb_unflushed := _\<rparr>"]
      survivors_def [of "_\<lparr>vb_media := _, vb_unflushed := _\<rparr>"]
      split: if_splits list.splits Completion.splits)

lemma bounds_state: "bounds lba d = (r, d') \<Longrightarrow> d' = d"
  by (auto simp: bounds_def split: if_splits)

lemma read_sector_cases:
  assumes "read_sector lba d = (r, d')"
  obtains (refused) e where "r = Inl e" and "d' = d"
  | (submitted) q where "submit REQ_IN lba d = (q, d')" and "r = map_sum id (\<lambda>_. vb_buffer d') q"
  using assms
  by (auto simp: read_sector_def sbind_def bounds_def split: if_splits prod.splits sum.splits)

lemma write_sector_cases:
  assumes "write_sector lba bs d = (r, d')"
  obtains (refused) e where "r = Inl e" and "d' = d"
  | (submitted) "submit REQ_OUT lba (d\<lparr>vb_buffer := bs\<rparr>) = (r, d')"
  using assms
  by (auto simp: write_sector_def sbind_def bounds_def split: if_splits)

lemma torn_images_mono: "set cs \<subseteq> set ds \<Longrightarrow> torn_images cs \<subseteq> torn_images ds"
  by (auto simp: torn_images_def)

lemma torn_submit:
  "submit kind lba d = (r, d') \<Longrightarrow> torn_images (vb_schedule d') \<subseteq> torn_images (vb_schedule d)"
  by (intro torn_images_mono submit_schedule)

interpretation virtio: block_device read_sector write_sector flush contents
  "\<lambda>d x. set (survivors d x)" "\<lambda>d. torn_images (vb_schedule d)"
proof
  fix lba d r d'
  assume "read_sector lba d = (r, d')"
  then show "contents d' = contents d \<and> (\<lambda>x. set (survivors d' x)) = (\<lambda>x. set (survivors d x)) \<and>
      torn_images (vb_schedule d') \<subseteq> torn_images (vb_schedule d)"
    by (cases rule: read_sector_cases) (auto dest: submit_IN torn_submit)
next
  fix lba d bs d'
  assume "read_sector lba d = (Inr bs, d')"
  then show "bs = contents d lba"
  proof (cases rule: read_sector_cases)
    case (submitted q)
    then show ?thesis using submit_IN(3) [OF submitted(1)] by (cases q) auto
  qed simp
next
  fix lba bs d q d' x
  assume "write_sector lba bs d = (q, d')" and "x \<noteq> lba"
  then show "contents d' x = contents d x \<and> set (survivors d' x) = set (survivors d x)"
    by (cases rule: write_sector_cases) (auto dest: submit_OUT(1))
next
  fix lba bs d u d'
  assume "write_sector lba bs d = (Inr u, d')"
  then show "contents d' lba = bs \<and> set (survivors d' lba) = insert bs (set (survivors d lba))"
    by (cases rule: write_sector_cases) (auto dest: submit_OUT(3))
next
  fix lba bs d q d'
  assume w: "write_sector lba bs d = (q, d')"
  then show "set (survivors d' lba) \<subseteq> insert bs (set (survivors d lba)) \<union> torn_images (vb_schedule d)"
    by (cases rule: write_sector_cases) (auto dest: survivors_submit_OUT)
  from w show "torn_images (vb_schedule d') \<subseteq> torn_images (vb_schedule d)"
    using torn_submit [of REQ_OUT lba "d\<lparr>vb_buffer := bs\<rparr>" q d']
    by (cases rule: write_sector_cases) auto
next
  fix d q d' x
  assume "flush d = (q, d')"
  then show "contents d' = contents d \<and> torn_images (vb_schedule d') \<subseteq> torn_images (vb_schedule d) \<and>
      set (survivors d' x) \<subseteq> set (survivors d x)"
    using submit_FLUSH(1,2) torn_submit by (auto simp: flush_def)
next
  fix d u d' x
  assume "flush d = (Inr u, d')"
  then show "set (survivors d' x) = {contents d x}"
    using submit_FLUSH(3) by (auto simp: flush_def)
qed

section \<open>A device that acknowledges\<close>

text \<open>The next \<open>k\<close> requests complete with status OK.\<close>

definition healthy :: "nat \<Rightarrow> VirtioBlock \<Rightarrow> bool" where
  "healthy k d \<longleftrightarrow> \<not> vb_poisoned d \<and> k \<le> length (vb_schedule d) \<and>
     list_all (\<lambda>c. case c of Completed status _ \<Rightarrow> status = STATUS_OK | NoUsedEntry _ \<Rightarrow> False)
       (take k (vb_schedule d))"

lemma submit_healthy:
  assumes "healthy (Suc k) d"
  obtains d' where "submit kind lba d = (Inr (), d')" and "healthy k d'"
    and "vb_capacity d' = vb_capacity d"
proof -
  from assms obtain c cs where c: "vb_schedule d = c # cs" by (cases "vb_schedule d") (auto simp: healthy_def)
  with assms obtain e where e: "c = Completed STATUS_OK e" by (cases c) (auto simp: healthy_def)
  have "submit kind lba d = (Inr (), snd (submit kind lba d)) \<and> healthy k (snd (submit kind lba d)) \<and>
      vb_capacity (snd (submit kind lba d)) = vb_capacity d"
    using assms by (auto simp: submit_unfold healthy_def Let_def store_sector_def c e)
  then show thesis using that by blast
qed

lemma healthy_buffer [simp]: "healthy k (d\<lparr>vb_buffer := bs\<rparr>) = healthy k d"
  by (simp add: healthy_def)

lemma read_sector_healthy:
  assumes "healthy (Suc k) d" and "lba < vb_capacity d"
  obtains d' where "read_sector lba d = (Inr (contents d lba), d')" and "healthy k d'"
    and "vb_capacity d' = vb_capacity d"
proof -
  obtain d' where d': "submit REQ_IN lba d = (Inr (), d')" "healthy k d'" "vb_capacity d' = vb_capacity d"
    using assms(1) by (rule submit_healthy)
  have "read_sector lba d = (Inr (contents d lba), d')"
    using assms(2) d'(1) submit_IN(3) [OF d'(1)] by (simp add: read_sector_def sbind_def bounds_def)
  with d' that show thesis by blast
qed

lemma write_sector_healthy:
  assumes "healthy (Suc k) d" and "lba < vb_capacity d"
  obtains d' where "write_sector lba bs d = (Inr (), d')" and "healthy k d'"
    and "vb_capacity d' = vb_capacity d"
proof -
  have "healthy (Suc k) (d\<lparr>vb_buffer := bs\<rparr>)" using assms(1) by simp
  then obtain d' where "submit REQ_OUT lba (d\<lparr>vb_buffer := bs\<rparr>) = (Inr (), d')" "healthy k d'"
    "vb_capacity d' = vb_capacity (d\<lparr>vb_buffer := bs\<rparr>)"
    by (rule submit_healthy)
  with assms(2) that show thesis by (simp add: write_sector_def sbind_def bounds_def)
qed

lemma flush_healthy:
  assumes "healthy (Suc k) d"
  obtains d' where "flush d = (Inr (), d')" and "healthy k d'" and "vb_capacity d' = vb_capacity d"
  using assms unfolding flush_def by (rule submit_healthy)

section \<open>Properties\<close>

text \<open>
  A transport that lost a completion is never used again: once a request has timed out, every
  later read, write or flush within bounds is refused and leaves the device as it was.
\<close>

theorem timeout_poisons:
  assumes "submit kind lba d = (Inl Timeout, d')"
  shows "submit kind' lba' d' = (Inl Poisoned, d')"
  using assms
  by (auto simp: submit_unfold Let_def split: if_splits list.splits Completion.splits)

definition sample_device :: VirtioBlock where
  "sample_device =
     \<lparr>vb_capacity = 100, vb_avail_index = 65535, vb_used_index = 65535, vb_poisoned = False,
      vb_buffer = zeros 512, vb_media = (\<lambda>_. zeros 512), vb_unflushed = [],
      vb_schedule = [Completed 0 Applied, NoUsedEntry Applied, Completed 0 Applied]\<rparr>"

theorem timeout_poisons_witness:
  "\<exists>d'. submit REQ_OUT 7 (snd (submit REQ_IN 7 sample_device)) = (Inl Timeout, d') \<and>
        submit REQ_IN 7 d' = (Inl Poisoned, d')"
proof -
  obtain d' where "submit REQ_OUT 7 (snd (submit REQ_IN 7 sample_device)) = (Inl Timeout, d')"
    by (simp add: submit_unfold sample_device_def apply_effect_def Let_def)
  then show ?thesis using timeout_poisons by blast
qed

end
