(* ===== verification/BootSelector.thy ===== *)
theory BootSelector
  imports BootState BlockDevice
begin

text \<open>
  The durable half of the disk-backed generation selector, \<open>slime-root/src/boot_selector.rs\<close>:
  reading the two boot-state slots, committing a successor older-slot-first, and the runtime
  that confirms a pending generation.
\<close>

section \<open>Data\<close>

definition STATE_SLOT_A :: u64 where "STATE_SLOT_A = 0"
definition STATE_SLOT_B :: u64 where "STATE_SLOT_B = 1"

datatype SelectorError =
    NoBootDevice | Sel_Device | Sel_Gpt | Sel_Directory | Sel_BootState | MissingGeneration
  | Sel_Generation | Sel_Release | WrongBootBundle | Sel_Commit

record BootRuntime =
  rt_partition_first_lba :: u64
  rt_selected :: SelectedBootState
  rt_running_identity :: bytes
  rt_release_sequence :: u64
  rt_running_pending :: bool

section \<open>Reading and committing\<close>

definition slot_lba :: "u64 \<Rightarrow> Slot \<Rightarrow> u64" where
  "slot_lba first_lba slot =
     first_lba + (case slot of Slot_A \<Rightarrow> STATE_SLOT_A | Slot_B \<Rightarrow> STATE_SLOT_B)"

definition read_bootstate ::
  "(bytes \<Rightarrow> bytes) \<Rightarrow> u64 \<Rightarrow> (VirtioBlock, SelectorError, SelectedBootState) sres" where
  "read_bootstate sha first_lba =
     sbind (smap_err (\<lambda>_. Sel_Device) (read_sector (first_lba + STATE_SLOT_A))) (\<lambda>a.
     sbind (smap_err (\<lambda>_. Sel_Device) (read_sector (first_lba + STATE_SLOT_B))) (\<lambda>b.
     slift (map_err (\<lambda>_. Sel_BootState) (select_bootstate sha a b))))"

definition commit_state ::
  "(bytes \<Rightarrow> bytes) \<Rightarrow> u64 \<Rightarrow> Slot \<Rightarrow> BootState \<Rightarrow>
   (VirtioBlock, SelectorError, SelectedBootState) sres" where
  "commit_state sha first_lba selected state =
     (let target = other selected; lba = slot_lba first_lba target in
      sbind (slift (map_err (\<lambda>_. Sel_Commit) (encode sha state))) (\<lambda>bs.
      sbind (smap_err (\<lambda>_. Sel_Commit) (write_sector lba bs)) (\<lambda>_.
      sbind (smap_err (\<lambda>_. Sel_Commit) flush) (\<lambda>_.
      sbind (read_bootstate sha first_lba) (\<lambda>live.
      if sel_slot live \<noteq> target \<or> sel_state live \<noteq> state then sfail Sel_Commit
      else sreturn live)))))"

text \<open>
  Health confirmation and the unhealthy report.  \<open>confirm\<close> updates the runtime only after the
  commit has succeeded.
\<close>

definition confirm ::
  "(bytes \<Rightarrow> bytes) \<Rightarrow> BootRuntime \<times> VirtioBlock \<Rightarrow>
   (SelectorError, unit) res \<times> BootRuntime \<times> VirtioBlock" where
  "confirm sha = (\<lambda>(rt, device).
     if \<not> rt_running_pending rt then (Inl Sel_BootState, rt, device)
     else case promote_pending (rt_running_identity rt) (rt_release_sequence rt)
                 (sel_state (rt_selected rt)) of
            Inl _ \<Rightarrow> (Inl Sel_BootState, rt, device)
          | Inr promoted \<Rightarrow>
              (case commit_state sha (rt_partition_first_lba rt) (sel_slot (rt_selected rt))
                      promoted device of
                 (Inl e, device) \<Rightarrow> (Inl e, rt, device)
               | (Inr live, device) \<Rightarrow>
                   (Inr (), rt\<lparr>rt_selected := live, rt_running_pending := False\<rparr>, device)))"

definition mark_unhealthy :: "BootRuntime \<Rightarrow> (SelectorError, unit) res" where
  "mark_unhealthy rt = (if rt_running_pending rt then Inr () else Inl Sel_BootState)"

section \<open>A commit touches one sector\<close>

abbreviation device_confined :: "(u64 \<Rightarrow> bytes set) \<Rightarrow> VirtioBlock \<Rightarrow> VirtioBlock \<Rightarrow> bool" where
  "device_confined \<equiv>
     confined contents (\<lambda>d x. set (survivors d x)) (\<lambda>d. torn_images (vb_schedule d))"

lemma read_bootstate_confined: "keeps (device_confined new) (read_bootstate sha first_lba)"
  unfolding read_bootstate_def
  by (intro keeps_bind keeps_map_err keeps_lift virtio.rd_confined confined_trans confined_refl)

lemma commit_state_confined:
  "keeps (device_confined ((\<lambda>_. {})(slot_lba first_lba (other selected) := {bs. encode sha state = Inr bs})))
     (commit_state sha first_lba selected state)"
proof (cases "encode sha state")
  case (Inl e)
  then show ?thesis
    unfolding commit_state_def Let_def by (simp only: map_err_simps sbind_slift keeps_fail confined_refl)
next
  case (Inr bs)
  show ?thesis
    unfolding commit_state_def Let_def Inr map_err_simps sbind_slift
    by (intro keeps_bind keeps_map_err virtio.wr_confined virtio.fl_confined read_bootstate_confined
        confined_trans) (simp_all only: fun_upd_same mem_Collect_eq keeps_fail keeps_return confined_refl
        split: if_split, simp_all)
qed

lemma slot_lba_neq: "slot_lba first_lba (other slot) \<noteq> slot_lba first_lba slot"
  by (cases slot) (simp_all add: slot_lba_def STATE_SLOT_A_def STATE_SLOT_B_def)

text \<open>The two slot sectors of a sector image, and what selection sees in them.\<close>

definition select_image ::
  "(bytes \<Rightarrow> bytes) \<Rightarrow> u64 \<Rightarrow> (u64 \<Rightarrow> bytes) \<Rightarrow> (SelectionError, SelectedBootState) res" where
  "select_image sha first_lba m =
     select_bootstate sha (m (slot_lba first_lba Slot_A)) (m (slot_lba first_lba Slot_B))"

lemma slot_bytes_image:
  "slot_bytes_of slot (m (slot_lba first_lba Slot_A)) (m (slot_lba first_lba Slot_B)) =
   m (slot_lba first_lba slot)"
  by (cases slot) simp_all

lemma select_image_Inr:
  assumes "select_image sha first_lba m = Inr sel"
  shows "decode sha (m (slot_lba first_lba (sel_slot sel))) = Inr (sel_state sel)"
  using select_Inr(1) [OF assms [unfolded select_image_def]] by (simp only: slot_bytes_image)

lemma select_image_wins:
  assumes "decode sha (m (slot_lba first_lba slot)) = Inr s"
    and "\<And>t. decode sha (m (slot_lba first_lba (other slot))) = Inr t \<Longrightarrow> bs_sequence t < bs_sequence s"
  shows "select_image sha first_lba m = Inr \<lparr>sel_slot = slot, sel_state = s\<rparr>"
  unfolding select_image_def using assms by (intro select_wins) (simp_all add: slot_bytes_image)

lemma select_image_cong:
  assumes "m (slot_lba first_lba slot) = m' (slot_lba first_lba slot)"
    and "m (slot_lba first_lba (other slot)) = m' (slot_lba first_lba (other slot))"
  shows "select_image sha first_lba m = select_image sha first_lba m'"
  using assms by (cases slot) (simp_all add: select_image_def)

lemma read_bootstate_ok:
  assumes "read_bootstate sha first_lba d = (Inr live, d')"
  shows "select_image sha first_lba (contents d) = Inr live"
    and "contents d' = contents d" and "set (survivors d' x) = set (survivors d x)"
proof -
  from assms obtain a b d1 where a: "read_sector (first_lba + STATE_SLOT_A) d = (Inr a, d1)"
    and b: "read_sector (first_lba + STATE_SLOT_B) d1 = (Inr b, d')"
    and sel: "select_bootstate sha a b = Inr live"
    by (auto simp: read_bootstate_def result_simps)
  show "select_image sha first_lba (contents d) = Inr live"
    using sel virtio.rd_ok [OF a] virtio.rd_ok [OF b] virtio.rd_view [OF a]
    by (simp add: select_image_def slot_lba_def)
  show "contents d' = contents d" and "set (survivors d' x) = set (survivors d x)"
    using virtio.rd_view [OF a] virtio.rd_view [OF b] by (auto dest: fun_cong)
qed

lemma commit_state_ok:
  assumes "commit_state sha first_lba slot state d = (Inr live, d')"
  obtains bs where "encode sha state = Inr bs" and "live = \<lparr>sel_slot = other slot, sel_state = state\<rparr>"
    and "contents d' = (contents d)(slot_lba first_lba (other slot) := bs)"
    and "set (survivors d' (slot_lba first_lba (other slot))) = {bs}"
    and "select_image sha first_lba (contents d') = Inr live"
proof -
  let ?lba = "slot_lba first_lba (other slot)"
  from assms obtain bs d1 d2 where enc: "encode sha state = Inr bs"
    and w: "write_sector ?lba bs d = (Inr (), d1)" and f: "flush d1 = (Inr (), d2)"
    and rd: "read_bootstate sha first_lba d2 = (Inr live, d')"
    and live: "sel_slot live = other slot" "sel_state live = state"
    by (auto simp: commit_state_def Let_def result_simps slift_def map_err_Inr_iff split: if_splits)
  show thesis
  proof (rule that [OF enc])
    show "live = \<lparr>sel_slot = other slot, sel_state = state\<rparr>"
      using live by (cases live) simp
    show "contents d' = (contents d)(?lba := bs)" and "set (survivors d' ?lba) = {bs}"
      using virtio.write_flush_durable [OF w f] read_bootstate_ok(2,3) [OF rd] by simp_all
    show "select_image sha first_lba (contents d') = Inr live"
      using read_bootstate_ok [OF rd] by simp
  qed
qed

text \<open>
  After a commit, whatever it returned, the live slot's sector is untouched and the target
  sector holds its old bytes, the new record, or a torn image.
\<close>

lemma commit_state_survivors:
  assumes "commit_state sha first_lba slot state d = (r, d')"
    and "set (survivors d (slot_lba first_lba slot)) = {live_bytes}"
    and "set (survivors d (slot_lba first_lba (other slot))) = {old_bytes}"
    and "\<forall>x. m x \<in> set (survivors d' x)"
  shows "m (slot_lba first_lba slot) = live_bytes"
    and "m (slot_lba first_lba (other slot)) = old_bytes \<or>
         encode sha state = Inr (m (slot_lba first_lba (other slot))) \<or>
         m (slot_lba first_lba (other slot)) \<in> torn_images (vb_schedule d)"
proof -
  let ?T = "slot_lba first_lba (other slot)" and ?L = "slot_lba first_lba slot"
  have conf: "device_confined ((\<lambda>_. {})(?T := {bs. encode sha state = Inr bs})) d d'"
    using commit_state_confined assms(1) by (rule keepsD)
  have "m ?L \<in> set (survivors d ?L)"
    using confined_outside(2) [OF conf, of ?L] assms(4) slot_lba_neq [of first_lba slot] by auto
  then show "m ?L = live_bytes" using assms(2) by simp
  show "m ?T = old_bytes \<or> encode sha state = Inr (m ?T) \<or> m ?T \<in> torn_images (vb_schedule d)"
    using confined_inside [OF conf assms(4) [THEN spec, of ?T]] assms(3) by auto
qed

lemma commit_state_image:
  assumes sha: "\<And>m. length (sha m) = 32" and st: "storable state"
    and sel: "select_image sha first_lba (contents d) = Inr \<lparr>sel_slot = slot, sel_state = s\<rparr>"
    and newer: "bs_sequence s < bs_sequence state"
    and torn: "\<And>t. t \<in> torn_images (vb_schedule d) \<Longrightarrow> \<exists>e. decode sha t = Inl e"
    and durable: "\<And>x. set (survivors d x) = {contents d x}"
    and run: "commit_state sha first_lba slot state d = (r, d')"
    and image: "\<forall>x. m x \<in> set (survivors d' x)"
  shows "select_image sha first_lba m = Inr \<lparr>sel_slot = slot, sel_state = s\<rparr> \<or>
         select_image sha first_lba m = Inr \<lparr>sel_slot = other slot, sel_state = state\<rparr>"
proof -
  let ?T = "slot_lba first_lba (other slot)" and ?L = "slot_lba first_lba slot"
  have live: "m ?L = contents d ?L"
    by (rule commit_state_survivors(1) [OF run durable durable image])
  have dec: "decode sha (m ?L) = Inr s"
    using select_image_Inr [OF sel] live by simp
  from commit_state_survivors(2) [OF run durable durable image]
  consider "m ?T = contents d ?T" | "encode sha state = Inr (m ?T)"
    | "m ?T \<in> torn_images (vb_schedule d)"
    by blast
  then show ?thesis
  proof cases
    case 1
    then show ?thesis using select_image_cong [of m first_lba slot "contents d" sha] live sel by simp
  next
    case 2
    then have "decode sha (m ?T) = Inr state"
      using decode_encode [of sha, OF sha st] by auto
    then show ?thesis
      using select_image_wins [of sha m first_lba "other slot" state] dec newer by simp
  next
    case 3
    then show ?thesis
      using select_image_wins [of sha m first_lba slot s] dec torn by fastforce
  qed
qed

text \<open>On a device that acknowledges the next four requests the commit goes through.\<close>

lemma read_bootstate_healthy:
  assumes "healthy (Suc (Suc k)) d" and "first_lba < vb_capacity d" and "first_lba + 1 < vb_capacity d"
    and "select_image sha first_lba (contents d) = Inr live"
  shows "\<exists>d'. read_bootstate sha first_lba d = (Inr live, d')"
proof -
  obtain d1 where a: "read_sector first_lba d = (Inr (contents d first_lba), d1)"
    and d1: "healthy (Suc k) d1" "vb_capacity d1 = vb_capacity d"
    using assms(1,2) by (rule read_sector_healthy)
  have "first_lba + 1 < vb_capacity d1" using assms(3) d1(2) by simp
  with d1(1) obtain d2 where b: "read_sector (first_lba + 1) d1 = (Inr (contents d1 (first_lba + 1)), d2)"
    by (rule read_sector_healthy)
  have "contents d1 = contents d" using virtio.rd_view [OF a] by simp
  then have "read_bootstate sha first_lba d = (Inr live, d2)"
    using a b assms(4)
    by (simp add: read_bootstate_def result_simps select_image_def slot_lba_def STATE_SLOT_A_def
        STATE_SLOT_B_def)
  then show ?thesis by blast
qed

lemma commit_state_goes_through:
  assumes sha: "\<And>m. length (sha m) = 32" and st: "storable state"
    and sel: "select_image sha first_lba (contents d) = Inr \<lparr>sel_slot = slot, sel_state = s\<rparr>"
    and newer: "bs_sequence s < bs_sequence state"
    and ok: "healthy 4 d" and cap: "first_lba < vb_capacity d" "first_lba + 1 < vb_capacity d"
  shows "\<exists>d'. commit_state sha first_lba slot state d =
               (Inr \<lparr>sel_slot = other slot, sel_state = state\<rparr>, d')"
proof -
  let ?T = "slot_lba first_lba (other slot)" and ?L = "slot_lba first_lba slot"
  obtain bs where enc: "encode sha state = Inr bs" and dec: "decode sha bs = Inr state"
    using decode_encode [of sha, OF sha st] by blast
  have "?T < vb_capacity d"
    using cap by (cases slot) (simp_all add: slot_lba_def STATE_SLOT_A_def STATE_SLOT_B_def)
  moreover have "healthy (Suc 3) d" using ok by simp
  ultimately obtain d1 where w: "write_sector ?T bs d = (Inr (), d1)"
    and d1: "healthy 3 d1" "vb_capacity d1 = vb_capacity d"
    using write_sector_healthy by metis
  have "healthy (Suc 2) d1" using d1(1) by simp
  then obtain d2 where f: "flush d1 = (Inr (), d2)" and d2: "healthy 2 d2" "vb_capacity d2 = vb_capacity d1"
    by (rule flush_healthy)
  have view: "contents d2 = (contents d)(?T := bs)"
    by (rule virtio.write_flush_durable(1) [OF w f])
  have "select_image sha first_lba (contents d2) = Inr \<lparr>sel_slot = other slot, sel_state = state\<rparr>"
    using select_image_wins [of sha "contents d2" first_lba "other slot" state] dec newer
      select_image_Inr [OF sel] slot_lba_neq [of first_lba slot]
    by (simp add: view)
  then obtain d3 where "read_bootstate sha first_lba d2 = (Inr \<lparr>sel_slot = other slot, sel_state = state\<rparr>, d3)"
    using read_bootstate_healthy [of 0 d2 first_lba sha] d1 d2 cap by (auto simp: numeral_2_eq_2)
  with enc w f show ?thesis
    by (auto simp: commit_state_def Let_def result_simps)
qed

section \<open>A sample boot disk\<close>

definition encoded :: "BootState \<Rightarrow> bytes" where
  "encoded s = (case encode sample_sha s of Inr bs \<Rightarrow> bs | Inl _ \<Rightarrow> [])"

definition boot_disk :: "Completion list \<Rightarrow> VirtioBlock" where
  "boot_disk schedule =
     \<lparr>vb_capacity = 100, vb_avail_index = 0, vb_used_index = 0, vb_poisoned = False,
      vb_buffer = zeros 512,
      vb_media = (\<lambda>lba. if lba = 10 then encoded sample_state else zeros 512),
      vb_unflushed = [], vb_schedule = schedule\<rparr>"

lemma decode_encoded: "decode sample_sha (encoded sample_state) = Inr sample_state"
  using decode_encode [of sample_sha, OF length_sample_sha sample_storable] by (auto simp: encoded_def)

lemma decode_zeros: "decode sha (zeros 512) = Inl BadMagic"
proof -
  have "hd (zeros 8) \<noteq> hd MAGIC" by (simp add: zeros_def MAGIC_def)
  then show ?thesis by (auto simp: decode_def slice_zeros)
qed

lemma boot_disk_contents [simp]:
  "contents (boot_disk schedule) lba = (if lba = 10 then encoded sample_state else zeros 512)"
  by (simp add: contents_def boot_disk_def)

lemma boot_disk_durable: "set (survivors (boot_disk schedule) x) = {contents (boot_disk schedule) x}"
  by (simp add: survivors_def contents_def boot_disk_def)

lemma boot_disk_selects:
  "select_image sample_sha 10 (contents (boot_disk schedule)) =
     Inr \<lparr>sel_slot = Slot_A, sel_state = sample_state\<rparr>"
  by (rule select_image_wins)
    (simp_all add: slot_lba_def STATE_SLOT_A_def STATE_SLOT_B_def decode_encoded decode_zeros)

lemma promoted_storable: "storable promoted_state"
  by (simp add: storable_def bs_widths_def validate_def promoted_state_def zeros_def)

lemma sample_newer: "bs_sequence sample_state < bs_sequence promoted_state"
  by (simp add: sample_state_def promoted_state_def)

lemma boot_disk_healthy: "healthy 4 (boot_disk (replicate 4 (Completed STATUS_OK Applied)))"
  by (simp add: healthy_def boot_disk_def list_all_iff)

lemma boot_disk_capacity: "10 < vb_capacity (boot_disk cs)" "10 + 1 < vb_capacity (boot_disk cs)"
  by (simp_all add: boot_disk_def)

section \<open>Properties\<close>

text \<open>
  C1: an interrupted commit is atomic.  Start from a durable device whose live record is \<open>s\<close>,
  run \<open>commit_state\<close> with any schedule of completions, failures and torn writes, and cut the
  power: selection on whatever survived returns either the old live record or the new one.  It
  relies on torn sectors not carrying a valid SHA-256 checksum.
\<close>

theorem commit_state_crash_atomic:
  assumes "\<And>m. length (sha m) = 32" and "storable state"
    and "select_image sha first_lba (contents d) = Inr \<lparr>sel_slot = slot, sel_state = s\<rparr>"
    and "bs_sequence s < bs_sequence state"
    and "\<And>t. t \<in> torn_images (vb_schedule d) \<Longrightarrow> \<exists>e. decode sha t = Inl e"
    and "\<And>x. set (survivors d x) = {contents d x}"
    and "commit_state sha first_lba slot state d = (r, d')"
    and "\<forall>x. m x \<in> set (survivors d' x)"
  shows "select_image sha first_lba m = Inr \<lparr>sel_slot = slot, sel_state = s\<rparr> \<or>
         select_image sha first_lba m = Inr \<lparr>sel_slot = other slot, sel_state = state\<rparr>"
  using assms by (rule commit_state_image)

theorem commit_state_crash_atomic_witness:
  "let d' = snd (commit_state sample_sha 10 Slot_A promoted_state
                   (boot_disk [Completed 1 (Torn [1, 2, 3])]))
   in select_image sample_sha 10 (contents d') = Inr \<lparr>sel_slot = Slot_A, sel_state = sample_state\<rparr> \<or>
      select_image sample_sha 10 (contents d') = Inr \<lparr>sel_slot = other Slot_A, sel_state = promoted_state\<rparr>"
proof -
  let ?d = "boot_disk [Completed 1 (Torn [1, 2, 3])]"
  have "\<exists>e. decode sample_sha t = Inl e" if "t \<in> torn_images (vb_schedule ?d)" for t
    using that
    by (simp add: torn_images_def boot_disk_def decode_def slice_def SECTOR_BYTES_def MAGIC_def)
  then show ?thesis
    unfolding Let_def
    by (intro commit_state_crash_atomic [of sample_sha promoted_state 10 ?d Slot_A sample_state])
      (auto simp: length_sample_sha promoted_storable boot_disk_selects sample_newer boot_disk_durable
        contents_in_survivors intro: prod.collapse [symmetric])
qed

text \<open>
  C7: a commit that reports success is durable: it returns the new record in the older slot, and
  selection on every image a power loss may leave afterwards returns exactly that.
\<close>

theorem commit_state_success_durable:
  assumes "\<And>m. length (sha m) = 32" and "storable state"
    and "select_image sha first_lba (contents d) = Inr \<lparr>sel_slot = slot, sel_state = s\<rparr>"
    and "bs_sequence s < bs_sequence state"
    and "\<And>x. set (survivors d x) = {contents d x}"
    and "commit_state sha first_lba slot state d = (Inr live, d')"
    and "\<forall>x. m x \<in> set (survivors d' x)"
  shows "live = \<lparr>sel_slot = other slot, sel_state = state\<rparr> \<and> select_image sha first_lba m = Inr live"
proof -
  let ?T = "slot_lba first_lba (other slot)" and ?L = "slot_lba first_lba slot"
  from commit_state_ok [OF assms(6)] obtain bs where enc: "encode sha state = Inr bs"
    and live: "live = \<lparr>sel_slot = other slot, sel_state = state\<rparr>"
    and T: "set (survivors d' ?T) = {bs}" by metis
  have "m ?T = bs" using assms(7) T by blast
  then have "decode sha (m ?T) = Inr state"
    using decode_encode [of sha, OF assms(1,2)] enc by auto
  moreover have "decode sha (m ?L) = Inr s"
    using select_image_Inr [OF assms(3)]
      commit_state_survivors(1) [OF assms(6) assms(5) assms(5) assms(7)] by simp
  ultimately show ?thesis
    using select_image_wins [of sha m first_lba "other slot" state] assms(4) live by simp
qed

theorem commit_state_success_durable_witness:
  "\<exists>d'. commit_state sample_sha 10 Slot_A promoted_state
          (boot_disk (replicate 4 (Completed STATUS_OK Applied))) =
          (Inr \<lparr>sel_slot = Slot_B, sel_state = promoted_state\<rparr>, d') \<and>
        select_image sample_sha 10 (vb_media d') = Inr \<lparr>sel_slot = Slot_B, sel_state = promoted_state\<rparr>"
proof -
  let ?d = "boot_disk (replicate 4 (Completed STATUS_OK Applied))"
  obtain d' where run: "commit_state sample_sha 10 Slot_A promoted_state ?d =
      (Inr \<lparr>sel_slot = Slot_B, sel_state = promoted_state\<rparr>, d')"
    using commit_state_goes_through [of sample_sha promoted_state 10 ?d Slot_A sample_state,
        OF length_sample_sha promoted_storable boot_disk_selects sample_newer boot_disk_healthy
        boot_disk_capacity]
    by auto
  have "\<forall>x. vb_media d' x \<in> set (survivors d' x)" by (simp add: survivors_def)
  with run commit_state_success_durable [of sample_sha promoted_state 10 ?d Slot_A sample_state,
      OF length_sample_sha promoted_storable boot_disk_selects sample_newer boot_disk_durable run]
  show ?thesis by blast
qed

text \<open>
  C31: confirming health promotes exactly the running pending generation.  On success the live
  record has it as known good with nothing pending, under the next sequence number and a newer
  accepted release; on failure the runtime is unchanged.
\<close>

theorem confirm_promotes:
  "case confirm sha (rt, d) of
     (Inl e, rt', d') \<Rightarrow> rt' = rt
   | (Inr _, rt', d') \<Rightarrow>
       rt_running_pending rt \<and> \<not> rt_running_pending rt' \<and>
       bs_pending (sel_state (rt_selected rt)) = Some (rt_running_identity rt) \<and>
       bs_known_good (sel_state (rt_selected rt')) = rt_running_identity rt \<and>
       bs_pending (sel_state (rt_selected rt')) = None \<and>
       unat (bs_sequence (sel_state (rt_selected rt'))) =
         unat (bs_sequence (sel_state (rt_selected rt))) + 1 \<and>
       bs_accepted_release_sequence (sel_state (rt_selected rt)) < rt_release_sequence rt \<and>
       bs_accepted_release_sequence (sel_state (rt_selected rt')) = rt_release_sequence rt"
proof (cases "confirm sha (rt, d)")
  case (fields r rt' d')
  show ?thesis
  proof (cases r)
    case (Inl e)
    then show ?thesis using fields
      by (auto simp: confirm_def split: if_splits sum.splits prod.splits)
  next
    case (Inr u)
    with fields obtain promoted live where pend: "rt_running_pending rt"
      and pr: "promote_pending (rt_running_identity rt) (rt_release_sequence rt)
                 (sel_state (rt_selected rt)) = Inr promoted"
      and c: "commit_state sha (rt_partition_first_lba rt) (sel_slot (rt_selected rt)) promoted d =
                (Inr live, d')"
      and rt': "rt' = rt\<lparr>rt_selected := live, rt_running_pending := False\<rparr>"
      by (auto simp: confirm_def split: if_splits sum.splits prod.splits)
    have "sel_state live = promoted" using commit_state_ok [OF c] by (metis SelectedBootState.select_convs(2))
    then show ?thesis
      using pr pend by (auto simp: fields Inr rt' result_simps follows_def)
  qed
qed

text \<open>
  C32: on a device that acknowledges the next four requests, committing a newer record succeeds
  and makes it the live record of the older slot.
\<close>

theorem commit_state_succeeds:
  assumes "\<And>m. length (sha m) = 32" and "storable state"
    and "select_image sha first_lba (contents d) = Inr \<lparr>sel_slot = slot, sel_state = s\<rparr>"
    and "bs_sequence s < bs_sequence state"
    and "healthy 4 d" and "first_lba < vb_capacity d" and "first_lba + 1 < vb_capacity d"
  shows "\<exists>d'. commit_state sha first_lba slot state d =
               (Inr \<lparr>sel_slot = other slot, sel_state = state\<rparr>, d')"
  using assms by (rule commit_state_goes_through)

theorem commit_state_succeeds_witness:
  "\<exists>d'. commit_state sample_sha 10 Slot_A promoted_state
          (boot_disk (replicate 4 (Completed STATUS_OK Applied))) =
          (Inr \<lparr>sel_slot = Slot_B, sel_state = promoted_state\<rparr>, d')"
  using commit_state_succeeds [of sample_sha promoted_state 10 _ Slot_A sample_state,
      OF length_sample_sha promoted_storable boot_disk_selects sample_newer boot_disk_healthy
      boot_disk_capacity]
  by simp

end
