(* ===== verification/Gpt.thy ===== *)
theory Gpt
  imports Crc32
begin

text \<open>
  GPT validation and store-partition selection, \<open>boot-contracts/src/gpt.rs\<close>.  The sector reader
  is a closure over mutable state in the source and a state-passing function here; the theory is
  generic in it.  \<open>usize\<close> values that take part in checked arithmetic are 64-bit words.
\<close>

section \<open>Constants and data\<close>

definition SECTOR_SIZE :: nat where "SECTOR_SIZE = 512"

definition SLIME_STORE_TYPE_GUID :: bytes where
  "SLIME_STORE_TYPE_GUID =
     [0x53, 0x4C, 0x49, 0x4D, 0x45, 0x4F, 0x53, 0x53, 0x54, 0x4F, 0x52, 0x45, 0x47, 0x50, 0x54, 0x21]"

definition GPT_MAGIC :: bytes where
  "GPT_MAGIC = [0x45, 0x46, 0x49, 0x20, 0x50, 0x41, 0x52, 0x54]"

definition GPT_VERSION :: u32 where "GPT_VERSION = 0x00010000"
definition MIN_HEADER_SIZE :: u32 where "MIN_HEADER_SIZE = 92"
definition PMBR_TYPE :: u8 where "PMBR_TYPE = 0xEE"
definition PMBR_SIGNATURE :: bytes where "PMBR_SIGNATURE = [0x55, 0xAA]"
definition PMBR_ENTRIES_OFFSET :: nat where "PMBR_ENTRIES_OFFSET = 446"
definition PMBR_ENTRY_SIZE :: nat where "PMBR_ENTRY_SIZE = 16"
definition MAX_PARTITION_ENTRIES :: u32 where "MAX_PARTITION_ENTRIES = 128"
definition MIN_ENTRY_SIZE :: u32 where "MIN_ENTRY_SIZE = 128"
definition MAX_ENTRY_SIZE :: u32 where "MAX_ENTRY_SIZE = 512"

datatype GptError =
    Gpt_Device | ProtectiveMbr | Gpt_BadMagic | Gpt_UnsupportedVersion | Gpt_BadHeaderSize
  | BadHeaderCrc | BadEntriesCrc | Gpt_OutOfBounds | Overflow | Overlap | NoValidCopy
  | ConflictingCopies | NoStorePartition | AmbiguousStorePartition

record Partition =
  part_first_lba :: u64
  part_last_lba :: u64
  part_type_guid :: bytes

datatype Recovery = Recovery_None | BackupDamaged GptError | PrimaryDamaged GptError

record StorePartition =
  sp_partition :: Partition
  sp_recovery :: Recovery

record Header =
  hd_backup_lba :: u64
  hd_first_usable :: u64
  hd_last_usable :: u64
  hd_disk_guid :: bytes
  hd_entries_lba :: u64
  hd_entry_count :: u32
  hd_entry_size :: u32
  hd_entries_crc :: u32

type_synonym 's SectorReader = "u64 \<Rightarrow> ('s, GptError, bytes) sres"

section \<open>Sectors\<close>

definition check_pmbr :: "bytes \<Rightarrow> (GptError, unit) res" where
  "check_pmbr sector =
     (if drop (SECTOR_SIZE - 2) sector \<noteq> PMBR_SIGNATURE then Inl ProtectiveMbr
      else if \<not> list_ex (\<lambda>index. sector ! (PMBR_ENTRIES_OFFSET + index * PMBR_ENTRY_SIZE + 4) = PMBR_TYPE)
                [0..<4] then Inl ProtectiveMbr
      else Inr ())"

definition parse_header :: "bytes \<Rightarrow> u64 \<Rightarrow> (GptError, Header) res" where
  "parse_header sector expected_lba =
     (if slice 0 8 sector \<noteq> GPT_MAGIC then Inl Gpt_BadMagic
      else if read_u32 sector 8 \<noteq> GPT_VERSION then Inl Gpt_UnsupportedVersion
      else let header_size = read_u32 sector 12 in
        if header_size < MIN_HEADER_SIZE \<or> unat header_size > SECTOR_SIZE then Inl Gpt_BadHeaderSize
        else let stored_crc = read_u32 sector 16;
                 covered = splice 16 (zeros 4)
                             (splice 0 (slice 0 (unat header_size) sector) (zeros SECTOR_SIZE)) in
          if crc32 (slice 0 (unat header_size) covered) \<noteq> stored_crc then Inl BadHeaderCrc
          else if read_u64 sector 24 \<noteq> expected_lba then Inl Gpt_OutOfBounds
          else let header =
                 \<lparr>hd_backup_lba = read_u64 sector 32,
                  hd_first_usable = read_u64 sector 40,
                  hd_last_usable = read_u64 sector 48,
                  hd_disk_guid = slice 56 72 sector,
                  hd_entries_lba = read_u64 sector 72,
                  hd_entry_count = read_u32 sector 80,
                  hd_entry_size = read_u32 sector 84,
                  hd_entries_crc = read_u32 sector 88\<rparr> in
            if hd_entry_count header = 0 \<or> hd_entry_count header > MAX_PARTITION_ENTRIES \<or>
               hd_entry_size header < MIN_ENTRY_SIZE \<or> hd_entry_size header > MAX_ENTRY_SIZE \<or>
               \<not> is_multiple_of (hd_entry_size header) 8
            then Inl Gpt_OutOfBounds
            else Inr header)"

text \<open>\<open>div_ceil\<close> on unsigned integers.\<close>

definition div_ceil :: "'a::len word \<Rightarrow> 'a word \<Rightarrow> 'a word" where
  "div_ceil a b = (if a mod b = 0 then a div b else a div b + 1)"

primrec read_array :: "'s SectorReader \<Rightarrow> u64 \<Rightarrow> nat list \<Rightarrow> bytes \<Rightarrow> ('s, GptError, bytes) sres" where
  "read_array reader entries_lba [] acc = sreturn acc"
| "read_array reader entries_lba (index # rest) acc =
     sbind (slift (ok_or Overflow (checked_add entries_lba (of_nat index)))) (\<lambda>lba.
     sbind (reader lba) (\<lambda>sector.
     read_array reader entries_lba rest (acc @ sector)))"

definition read_entries :: "'s SectorReader \<Rightarrow> Header \<Rightarrow> u64 \<Rightarrow> ('s, GptError, bytes) sres" where
  "read_entries reader header capacity =
     sbind (slift (ok_or Overflow
       (checked_mul (ucast (hd_entry_count header) :: u64) (ucast (hd_entry_size header))))) (\<lambda>array_bytes.
     let array_sectors = div_ceil array_bytes (of_nat SECTOR_SIZE) in
     sbind (slift (ok_or Overflow (checked_add (hd_entries_lba header) array_sectors))) (\<lambda>array_end.
     if hd_entries_lba header < 2 \<or> array_end > capacity then sfail Gpt_OutOfBounds
     else sbind (read_array reader (hd_entries_lba header) [0..<unat array_sectors] []) (\<lambda>bs.
       if crc32 (take (unat array_bytes) bs) \<noteq> hd_entries_crc header then sfail BadEntriesCrc
       else sreturn (take (unat array_bytes) bs))))"

section \<open>Partitions\<close>

primrec parse_entry_list ::
  "bytes \<Rightarrow> Header \<Rightarrow> nat list \<Rightarrow> Partition list \<Rightarrow> (GptError, Partition list) res" where
  "parse_entry_list entry_bytes header [] partitions = Inr partitions"
| "parse_entry_list entry_bytes header (index # rest) partitions =
     (let entry = drop (index * unat (hd_entry_size header)) entry_bytes;
          type_guid = slice 0 16 entry in
      if type_guid = zeros 16 then parse_entry_list entry_bytes header rest partitions
      else let first_lba = read_u64 entry 32; last_lba = read_u64 entry 40 in
        if first_lba > last_lba \<or> first_lba < hd_first_usable header \<or> last_lba > hd_last_usable header
        then Inl Gpt_OutOfBounds
        else parse_entry_list entry_bytes header rest
               (partitions @ [\<lparr>part_first_lba = first_lba, part_last_lba = last_lba,
                               part_type_guid = type_guid\<rparr>]))"

fun windows_overlap :: "Partition list \<Rightarrow> bool" where
  "windows_overlap (p # q # rest) =
     (part_first_lba q \<le> part_last_lba p \<or> windows_overlap (q # rest))"
| "windows_overlap _ = False"

definition parse_partitions :: "bytes \<Rightarrow> Header \<Rightarrow> u64 \<Rightarrow> (GptError, Partition list) res" where
  "parse_partitions entry_bytes header capacity =
     rbind (ok_or Overflow (checked_mul (ucast (hd_entry_count header) :: u64)
       (ucast (hd_entry_size header)))) (\<lambda>array_bytes.
     let array_sectors = div_ceil array_bytes (of_nat SECTOR_SIZE) in
     rbind (ok_or Overflow (checked_add 2 array_sectors)) (\<lambda>primary_entries_end.
     rbind (ok_or Gpt_OutOfBounds (checked_sub capacity 1)) (\<lambda>backup_header.
     rbind (ok_or Gpt_OutOfBounds (checked_sub backup_header array_sectors)) (\<lambda>backup_entries_start.
     if hd_first_usable header < primary_entries_end \<or>
        hd_last_usable header < hd_first_usable header \<or>
        hd_last_usable header \<ge> backup_entries_start
     then Inl Gpt_OutOfBounds
     else rbind (parse_entry_list entry_bytes header [0..<unat (hd_entry_count header)] []) (\<lambda>partitions.
       let partitions = sort_key part_first_lba partitions in
       if windows_overlap partitions then Inl Overlap else Inr partitions)))))"

section \<open>Copies and selection\<close>

definition validate_copy :: "'s SectorReader \<Rightarrow> u64 \<Rightarrow> u64 \<Rightarrow> ('s, GptError, Header \<times> bytes) sres" where
  "validate_copy reader capacity header_lba =
     (if header_lba = 0 \<or> header_lba \<ge> capacity then sfail Gpt_OutOfBounds
      else sbind (reader header_lba) (\<lambda>sector.
      sbind (slift (parse_header sector header_lba)) (\<lambda>header.
      let expected_backup = (if header_lba = 1 then capacity - 1 else 1) in
      if hd_backup_lba header \<noteq> expected_backup then sfail Gpt_OutOfBounds
      else sbind (read_entries reader header capacity) (\<lambda>entry_bytes.
        sreturn (header, entry_bytes)))))"

definition select_copy ::
  "(GptError, Header \<times> bytes) res \<Rightarrow> (GptError, Header \<times> bytes) res \<Rightarrow>
   (GptError, Header \<times> bytes \<times> Recovery) res" where
  "select_copy primary backup =
     (case (primary, backup) of
        (Inr (primary_header, primary_entries), Inr (backup_header, backup_entries)) \<Rightarrow>
          if hd_disk_guid primary_header \<noteq> hd_disk_guid backup_header \<or>
             hd_entries_crc primary_header \<noteq> hd_entries_crc backup_header
          then Inl ConflictingCopies
          else Inr (primary_header, primary_entries, Recovery_None)
      | (Inr (primary_header, primary_entries), Inl error) \<Rightarrow>
          Inr (primary_header, primary_entries, BackupDamaged error)
      | (Inl error, Inr (backup_header, backup_entries)) \<Rightarrow>
          Inr (backup_header, backup_entries, PrimaryDamaged error)
      | (Inl _, Inl _) \<Rightarrow> Inl NoValidCopy)"

definition select_store :: "Partition list \<Rightarrow> Recovery \<Rightarrow> (GptError, StorePartition) res" where
  "select_store partitions recovery =
     (case filter (\<lambda>p. part_type_guid p = SLIME_STORE_TYPE_GUID) partitions of
        [] \<Rightarrow> Inl NoStorePartition
      | [p] \<Rightarrow> Inr \<lparr>sp_partition = p, sp_recovery = recovery\<rparr>
      | _ \<Rightarrow> Inl AmbiguousStorePartition)"

definition validate_store_partition :: "'s SectorReader \<Rightarrow> u64 \<Rightarrow> ('s, GptError, StorePartition) sres" where
  "validate_store_partition reader capacity =
     (if capacity < 3 then sfail Gpt_OutOfBounds
      else sbind (reader 0) (\<lambda>pmbr.
      sbind (slift (check_pmbr pmbr)) (\<lambda>_.
      sattempt (validate_copy reader capacity 1) (\<lambda>primary.
      sattempt (validate_copy reader capacity (capacity - 1)) (\<lambda>backup.
      slift (rbind (select_copy primary backup) (\<lambda>(header, entry_bytes, recovery).
             rbind (parse_partitions entry_bytes header capacity) (\<lambda>partitions.
             select_store partitions recovery))))))))"

section \<open>Accepted tables\<close>

lemma nat_div_ceil:
  assumes "0 < m"
  shows "(n + m - 1) div m = (if n mod m = 0 then n div m else n div m + (1 :: nat))"
proof -
  have "n + m - 1 = (n mod m + m - 1) + m * (n div m)"
    using assms mod_mult_div_eq [of n m] by linarith
  then have "(n + m - 1) div m = n div m + (n mod m + m - 1) div m"
    using assms by (metis add.commute div_mult_self2 less_numeral_extra(3))
  moreover have "(n mod m + m - 1) div m = (if n mod m = 0 then 0 else 1)"
  proof (cases "n mod m = 0")
    case True
    then show ?thesis using assms by simp
  next
    case False
    then have "n mod m + m - 1 = (n mod m - 1) + m" by simp
    moreover have "n mod m - 1 < m" using assms mod_less_divisor [of m n] by linarith
    then have "(n mod m - 1) div m = 0" by simp
    ultimately have "(n mod m + m - 1) div m = 1" using assms by (simp only: div_add_self2)
    with False show ?thesis by simp
  qed
  ultimately show ?thesis by simp
qed

lemma unat_div_ceil:
  assumes "b \<noteq> (0 :: 'a::len word)"
  shows "unat (div_ceil a b) = (unat a + unat b - 1) div unat b"
proof -
  have b: "0 < unat b" using assms by (simp add: unat_gt_0)
  have "unat (a div b + 1) = unat a div unat b + 1" if "unat a mod unat b \<noteq> 0"
  proof -
    have "unat b * (unat a div unat b) < unat a"
      using that mod_mult_div_eq [of "unat a" "unat b"] by linarith
    moreover have "unat a div unat b \<le> unat b * (unat a div unat b)" using b by simp
    ultimately have "unat a div unat b + 1 \<le> unat a" by linarith
    then have "unat a div unat b + 1 < 2 ^ LENGTH('a)"
      by (rule le_less_trans) (rule unsigned_less)
    then show ?thesis by (simp add: unat_word_ariths unat_div)
  qed
  then show ?thesis
    using nat_div_ceil [OF b] by (simp add: div_ceil_def word_unat_eq_iff unat_mod unat_div)
qed

definition partition_within :: "Header \<Rightarrow> Partition \<Rightarrow> bool" where
  "partition_within header p \<longleftrightarrow>
     part_first_lba p \<le> part_last_lba p \<and> hd_first_usable header \<le> part_first_lba p \<and>
     part_last_lba p \<le> hd_last_usable header"

lemma parse_entry_list_within:
  "parse_entry_list bs header is ps = Inr qs \<Longrightarrow> list_all (partition_within header) ps \<Longrightarrow>
   list_all (partition_within header) qs"
proof (induction "is" arbitrary: ps)
  case (Cons i "is")
  show ?case
    using Cons.prems Cons.IH
    by (auto simp: Let_def partition_within_def not_less split: if_splits)
qed simp

lemma windows_disjoint:
  "list_all (\<lambda>p. part_first_lba p \<le> part_last_lba p) ps \<Longrightarrow> \<not> windows_overlap ps \<Longrightarrow>
   sorted_wrt (\<lambda>p q. part_last_lba p < part_first_lba q) ps"
proof (induction ps rule: windows_overlap.induct)
  case (1 p q rest)
  then have "sorted_wrt (\<lambda>p q. part_last_lba p < part_first_lba q) (q # rest)" by simp
  moreover have "part_last_lba p < part_first_lba q" "part_first_lba q \<le> part_last_lba q"
    using 1 by (auto simp: not_le)
  ultimately show ?case by (auto dest: less_trans le_less_trans)
qed simp_all

lemma parse_partitions_Inr:
  assumes "parse_partitions bs header capacity = Inr ps"
  defines "sectors \<equiv> (unat (hd_entry_count header) * unat (hd_entry_size header) + 511) div 512"
  shows "2 + sectors \<le> unat (hd_first_usable header)"
    and "hd_first_usable header \<le> hd_last_usable header"
    and "unat (hd_last_usable header) + 1 + sectors < unat capacity"
    and "list_all (partition_within header) ps"
    and "sorted_wrt (\<lambda>p q. part_last_lba p < part_first_lba q) ps"
proof -
  from assms(1) obtain ab pe bh be qs where eqs:
    "checked_mul (ucast (hd_entry_count header) :: u64) (ucast (hd_entry_size header)) = Some ab"
    "checked_add 2 (div_ceil ab (of_nat SECTOR_SIZE)) = Some pe"
    "checked_sub capacity 1 = Some bh"
    "checked_sub bh (div_ceil ab (of_nat SECTOR_SIZE)) = Some be"
    and le: "\<not> hd_first_usable header < pe" "\<not> hd_last_usable header < hd_first_usable header"
      "\<not> hd_last_usable header \<ge> be"
    and qs: "parse_entry_list bs header [0..<unat (hd_entry_count header)] [] = Inr qs"
    and ps: "ps = sort_key part_first_lba qs" "\<not> windows_overlap ps"
    by (auto simp: parse_partitions_def result_simps Let_def split: if_splits)
  note eqs' = eqs [unfolded checked_add_iff checked_sub_iff checked_mul_iff]
  have ab': "unat ab = unat (hd_entry_count header) * unat (hd_entry_size header)"
    using eqs'(1) by simp
  have sec: "unat (div_ceil ab (of_nat SECTOR_SIZE)) = sectors"
    by (simp add: unat_div_ceil SECTOR_SIZE_def ab' sectors_def)
  show "2 + sectors \<le> unat (hd_first_usable header)"
    using le(1) eqs'(2) sec by (simp add: not_less word_le_nat_alt)
  show "hd_first_usable header \<le> hd_last_usable header" using le(2) by simp
  show "unat (hd_last_usable header) + 1 + sectors < unat capacity"
    using le(3) eqs'(3,4) sec by (simp add: not_le word_less_nat_alt)
  have "list_all (partition_within header) qs"
    using parse_entry_list_within [OF qs] by simp
  then show within: "list_all (partition_within header) ps"
    by (simp add: ps(1) list_all_iff)
  then show "sorted_wrt (\<lambda>p q. part_last_lba p < part_first_lba q) ps"
    using ps(2) by (intro windows_disjoint) (auto simp: list_all_iff partition_within_def)
qed

section \<open>Requests stay on the device\<close>

text \<open>A reader that records every LBA it is asked for.\<close>

definition traced :: "'s SectorReader \<Rightarrow> ('s \<times> u64 list) SectorReader" where
  "traced reader lba = (\<lambda>(s, trace). case reader lba s of (r, s') \<Rightarrow> (r, s', lba # trace))"

definition reads_below :: "u64 \<Rightarrow> 's \<times> u64 list \<Rightarrow> 's \<times> u64 list \<Rightarrow> bool" where
  "reads_below capacity = (\<lambda>(s, tr) (s', tr'). set tr' \<subseteq> set tr \<union> {x. x < capacity})"

lemma reads_below_refl [intro]: "reflp (reads_below capacity)"
  by (auto simp: reflp_def reads_below_def)

lemma reads_below_trans [intro]: "transp (reads_below capacity)"
  by (fastforce simp: transp_def reads_below_def)

lemma traced_below: "lba < capacity \<Longrightarrow> keeps (reads_below capacity) (traced reader lba)"
  by (auto simp: keeps_def traced_def reads_below_def split: prod.split)

lemma read_array_below:
  "(\<And>i. i \<in> set is \<Longrightarrow> unat base + i < unat capacity) \<Longrightarrow>
   keeps (reads_below capacity) (read_array (traced reader) base is acc)"
proof (induction "is" arbitrary: acc)
  case Nil
  then show ?case by (simp add: keeps_Pair keeps_fail reads_below_refl)
next
  case (Cons i "is")
  show ?case
  proof (cases "checked_add base (of_nat i)")
    case None
    then show ?thesis by (simp add: keeps_Pair keeps_fail reads_below_refl)
  next
    case (Some lba)
    have "i < 2 ^ 64"
      using Cons.prems [of i] unat_less_u64 [of capacity] by simp
    then have "unat lba = unat base + i"
      using Some by (simp add: checked_add_iff unat_of_nat take_bit_eq_mod)
    then have "lba < capacity" using Cons.prems [of i] by (simp add: word_less_nat_alt)
    then show ?thesis
      using Some Cons by (simp add: keeps_bind reads_below_trans traced_below)
  qed
qed

lemma read_entries_below: "keeps (reads_below capacity) (read_entries (traced reader) header capacity)"
proof (cases "checked_mul (ucast (hd_entry_count header) :: u64) (ucast (hd_entry_size header))")
  case None
  then show ?thesis by (simp add: read_entries_def keeps_Pair keeps_fail reads_below_refl)
next
  case (Some ab)
  let ?n = "div_ceil ab (of_nat SECTOR_SIZE)"
  show ?thesis
  proof (cases "checked_add (hd_entries_lba header) ?n")
    case None
    then show ?thesis using Some by (simp add: read_entries_def Let_def keeps_Pair keeps_fail reads_below_refl)
  next
    case (Some e)
    then have "unat (hd_entries_lba header) + i < unat capacity"
      if "i < unat ?n" and "\<not> e > capacity" for i
      using that by (simp add: checked_add_iff not_less word_le_nat_alt)
    with Some \<open>checked_mul _ _ = Some ab\<close> show ?thesis
      by (auto simp: read_entries_def Let_def
          intro!: keeps_Pair keeps_fail keeps_return keeps_bind read_array_below)
  qed
qed

lemma validate_copy_below: "keeps (reads_below capacity) (validate_copy (traced reader) capacity lba)"
  by (auto simp: validate_copy_def Let_def not_le
      intro!: keeps_Pair keeps_fail keeps_return keeps_bind keeps_lift traced_below read_entries_below)

section \<open>The selected copy\<close>

definition header_ok :: "Header \<Rightarrow> bool" where
  "header_ok header \<longleftrightarrow> 1 \<le> unat (hd_entry_count header) \<and> 128 \<le> unat (hd_entry_size header)"

lemma parse_header_ok: "parse_header sector lba = Inr header \<Longrightarrow> header_ok header"
  by (auto simp: parse_header_def Let_def header_ok_def MIN_ENTRY_SIZE_def not_less word_le_nat_alt
      Suc_le_eq unat_gt_0 split: if_splits)

lemma validate_copy_ok:
  "validate_copy reader capacity lba s = (Inr (header, bs), s') \<Longrightarrow> header_ok header"
  by (auto simp: validate_copy_def Let_def result_simps parse_header_ok split: if_splits)

lemma select_copy_ok:
  assumes "select_copy primary backup = Inr (header, bs, recovery)"
  shows "primary = Inr (header, bs) \<or> backup = Inr (header, bs)"
  using assms by (auto simp: select_copy_def split: sum.splits if_splits)

lemma select_store_Inr:
  assumes "select_store ps recovery = Inr sp"
  shows "filter (\<lambda>p. part_type_guid p = SLIME_STORE_TYPE_GUID) ps = [sp_partition sp]"
    and "sp_recovery sp = recovery"
  using assms by (auto simp: select_store_def split: list.splits)

lemma validate_store_partition_Inr:
  assumes "validate_store_partition reader capacity s = (Inr sp, s')"
  obtains header bs ps where "header_ok header" and "parse_partitions bs header capacity = Inr ps"
    and "select_store ps (sp_recovery sp) = Inr sp"
proof -
  from assms obtain primary backup s1 s2 header bs recovery ps where
    p: "validate_copy reader capacity 1 s1 = (primary, s2)"
    and b: "validate_copy reader capacity (capacity - 1) s2 = (backup, s')"
    and c: "select_copy primary backup = Inr (header, bs, recovery)"
    and ps: "parse_partitions bs header capacity = Inr ps"
    and sel: "select_store ps recovery = Inr sp"
    by (auto simp: validate_store_partition_def result_simps split: if_splits prod.splits)
  have "header_ok header"
    using select_copy_ok [OF c] p b validate_copy_ok by metis
  moreover have "select_store ps (sp_recovery sp) = Inr sp"
    using sel select_store_Inr(2) [OF sel] by simp
  ultimately show thesis using that ps by blast
qed

section \<open>A sample disk\<close>

text \<open>
  Ten sectors: a protective MBR, a primary header with a one-entry table naming sectors 3 to 5 as
  the store, and no backup copy.
\<close>

definition sample_pmbr :: bytes where
  "sample_pmbr = splices [(450, [PMBR_TYPE]), (510, PMBR_SIGNATURE)] (zeros 512)"

definition sample_entries :: bytes where
  "sample_entries =
     splices [(0, SLIME_STORE_TYPE_GUID), (32, to_le (3 :: u64)), (40, to_le (5 :: u64))] (zeros 512)"

definition sample_fields :: "u32 \<Rightarrow> (nat \<times> bytes) list" where
  "sample_fields crc =
     [(0, GPT_MAGIC), (8, to_le GPT_VERSION), (12, to_le MIN_HEADER_SIZE), (16, to_le crc),
      (24, to_le (1 :: u64)), (32, to_le (9 :: u64)), (40, to_le (3 :: u64)), (48, to_le (7 :: u64)),
      (72, to_le (2 :: u64)), (80, to_le (1 :: u32)), (84, to_le (128 :: u32)),
      (88, to_le (crc32 (take 128 sample_entries)))]"

definition sample_header_sector :: bytes where
  "sample_header_sector =
     splices (sample_fields (crc32 (slice 0 92 (splices (sample_fields 0) (zeros 512))))) (zeros 512)"

definition sample_header :: Header where
  "sample_header =
     \<lparr>hd_backup_lba = 9, hd_first_usable = 3, hd_last_usable = 7, hd_disk_guid = zeros 16,
      hd_entries_lba = 2, hd_entry_count = 1, hd_entry_size = 128,
      hd_entries_crc = crc32 (take 128 sample_entries)\<rparr>"

definition sample_reader :: "unit SectorReader" where
  "sample_reader lba =
     sreturn (if lba = 0 then sample_pmbr else if lba = 1 then sample_header_sector
              else if lba = 2 then sample_entries else zeros 512)"

lemma sample_field_sizes [simp]:
  "length GPT_MAGIC = 8" "length PMBR_SIGNATURE = 2" "length SLIME_STORE_TYPE_GUID = 16"
  by (simp_all add: GPT_MAGIC_def PMBR_SIGNATURE_def SLIME_STORE_TYPE_GUID_def)

lemma fits_sample_fields: "fits 512 (sample_fields crc)"
  by (simp add: sample_fields_def)

lemma length_sample_sectors:
  "length (splices (sample_fields crc) (zeros 512)) = 512" "length sample_entries = 512"
  by (simp_all add: length_splices fits_sample_fields sample_entries_def)

lemma sample_field_slices:
  "slice 0 8 (splices (sample_fields crc) (zeros 512)) = GPT_MAGIC"
  "slice 8 12 (splices (sample_fields crc) (zeros 512)) = to_le GPT_VERSION"
  "slice 12 16 (splices (sample_fields crc) (zeros 512)) = to_le MIN_HEADER_SIZE"
  "slice 16 20 (splices (sample_fields crc) (zeros 512)) = to_le crc"
  "slice 20 24 (splices (sample_fields crc) (zeros 512)) = zeros 4"
  "slice 24 32 (splices (sample_fields crc) (zeros 512)) = to_le (1 :: u64)"
  "slice 32 40 (splices (sample_fields crc) (zeros 512)) = to_le (9 :: u64)"
  "slice 40 48 (splices (sample_fields crc) (zeros 512)) = to_le (3 :: u64)"
  "slice 48 56 (splices (sample_fields crc) (zeros 512)) = to_le (7 :: u64)"
  "slice 56 72 (splices (sample_fields crc) (zeros 512)) = zeros 16"
  "slice 72 80 (splices (sample_fields crc) (zeros 512)) = to_le (2 :: u64)"
  "slice 80 84 (splices (sample_fields crc) (zeros 512)) = to_le (1 :: u32)"
  "slice 84 88 (splices (sample_fields crc) (zeros 512)) = to_le (128 :: u32)"
  "slice 88 92 (splices (sample_fields crc) (zeros 512)) = to_le (crc32 (take 128 sample_entries))"
  unfolding sample_fields_def
  by (simp_all add: slice_splices slice_zeros del: splices.simps)

lemma sample_covered:
  "slice 0 92 (splice 16 (zeros 4) (splice 0 (slice 0 92 sample_header_sector) (zeros 512))) =
   slice 0 92 (splices (sample_fields 0) (zeros 512))"
proof -
  let ?c = "splice 16 (zeros 4) (splice 0 (slice 0 92 sample_header_sector) (zeros 512))"
  let ?z = "splices (sample_fields 0) (zeros 512)"
  have len: "length sample_header_sector = 512"
    by (simp add: sample_header_sector_def length_sample_sectors)
  have z0: "slice 16 20 ?z = zeros 4" by (simp add: sample_field_slices(4) to_le_zero)
  have "slices [0, 8, 12, 16] sample_header_sector = slices [0, 8, 12, 16] ?z"
    by (simp only: slices.simps sample_header_sector_def sample_field_slices)
  then have low: "slice 0 16 sample_header_sector = slice 0 16 ?z" by (simp add: slices_eq)
  have "slices [20, 24, 32, 40, 48, 56, 72, 80, 84, 88, 92] sample_header_sector =
      slices [20, 24, 32, 40, 48, 56, 72, 80, 84, 88, 92] ?z"
    by (simp only: slices.simps sample_header_sector_def sample_field_slices)
  then have high: "slice 20 92 sample_header_sector = slice 20 92 ?z" by (simp add: slices_eq)
  have "slices [0, 16, 20, 92] ?c = slices [0, 16, 20, 92] ?z"
    using len by (simp add: slices.simps slice_simps slice_splice_within z0 low high)
  then show ?thesis by (simp add: slices_eq)
qed

lemma sample_parse_header: "parse_header sample_header_sector 1 = Inr sample_header"
  using sample_covered sample_field_slices
  by (simp add: parse_header_def Let_def read_u32_def read_u64_def SECTOR_SIZE_def MIN_HEADER_SIZE_def
      MAX_PARTITION_ENTRIES_def MIN_ENTRY_SIZE_def MAX_ENTRY_SIZE_def is_multiple_of_def
      sample_header_def sample_header_sector_def)

lemma sample_check_pmbr: "check_pmbr sample_pmbr = Inr ()"
proof -
  have "sample_pmbr ! 450 = PMBR_TYPE"
    by (simp add: sample_pmbr_def nth_splice)
  moreover have "drop 510 sample_pmbr = PMBR_SIGNATURE"
    by (simp add: sample_pmbr_def splice_def)
  moreover have "[0..<4] = [0, 1, 2, 3 :: nat]" by (simp add: upt_conv_Cons)
  ultimately show ?thesis
    by (simp add: check_pmbr_def SECTOR_SIZE_def PMBR_ENTRIES_OFFSET_def PMBR_ENTRY_SIZE_def)
qed

lemma sample_read_entries:
  "read_entries sample_reader sample_header 10 () = (Inr (take 128 sample_entries), ())"
  by (simp add: read_entries_def sample_header_def checked_mul_def checked_add_def div_ceil_def
      SECTOR_SIZE_def Let_def sbind_def slift_def sample_reader_def sfail_def sreturn_def)

definition sample_partition :: Partition where
  "sample_partition =
     \<lparr>part_first_lba = 3, part_last_lba = 5, part_type_guid = SLIME_STORE_TYPE_GUID\<rparr>"

lemma sample_entry_slices:
  "slice 0 16 (take 128 sample_entries) = SLIME_STORE_TYPE_GUID"
  "slice 32 40 (take 128 sample_entries) = to_le (3 :: u64)"
  "slice 40 48 (take 128 sample_entries) = to_le (5 :: u64)"
proof -
  have "slice a b (take 128 sample_entries) = slice a b sample_entries" if "b \<le> 128" for a b
    using that by (simp add: slice_def drop_take min_def)
  then show "slice 0 16 (take 128 sample_entries) = SLIME_STORE_TYPE_GUID"
    and "slice 32 40 (take 128 sample_entries) = to_le (3 :: u64)"
    and "slice 40 48 (take 128 sample_entries) = to_le (5 :: u64)"
    by (simp_all add: sample_entries_def slice_splices del: splices.simps)
qed

lemma store_guid_nonzero: "SLIME_STORE_TYPE_GUID \<noteq> zeros 16"
proof -
  have "hd SLIME_STORE_TYPE_GUID \<noteq> hd (zeros 16)"
    by (simp add: SLIME_STORE_TYPE_GUID_def zeros_def)
  then show ?thesis by auto
qed

lemma sample_parse_partitions:
  "parse_partitions (take 128 sample_entries) sample_header 10 = Inr [sample_partition]"
  by (simp add: parse_partitions_def sample_header_def checked_mul_def checked_add_def
      checked_sub_def div_ceil_def SECTOR_SIZE_def Let_def read_u64_def sample_entry_slices
      store_guid_nonzero sample_partition_def)

lemma sample_validates:
  "validate_store_partition sample_reader 10 () =
     (Inr \<lparr>sp_partition = sample_partition, sp_recovery = BackupDamaged Gpt_BadMagic\<rparr>, ())"
proof -
  have "hd (zeros 8) \<noteq> hd GPT_MAGIC" by (simp add: zeros_def GPT_MAGIC_def)
  then have z: "parse_header (zeros 512) lba = Inl Gpt_BadMagic" for lba
    by (auto simp: parse_header_def slice_zeros)
  have p: "validate_copy sample_reader 10 1 () = (Inr (sample_header, take 128 sample_entries), ())"
    using sample_parse_header sample_read_entries
    by (simp add: validate_copy_def sbind_def sample_reader_def Let_def sample_header_def
        word_le_nat_alt)
  have b: "validate_copy sample_reader 10 9 () = (Inl Gpt_BadMagic, ())"
    by (simp add: validate_copy_def sbind_def sample_reader_def z)
  show ?thesis
    using p b sample_check_pmbr sample_parse_partitions
    by (simp add: validate_store_partition_def sbind_def sattempt_def sample_reader_def [of 0]
        select_copy_def select_store_def sample_partition_def)
qed

section \<open>Properties\<close>

text \<open>
  The store partition GPT validation selects lies strictly between the primary entry array
  and the backup entry array: it never covers the protective MBR, a header or an entry table, and
  it carries the store's type GUID.
\<close>

theorem gpt_store_partition_bounds:
  assumes "validate_store_partition reader capacity s = (Inr sp, s')"
  shows "3 \<le> unat (part_first_lba (sp_partition sp)) \<and>
    part_first_lba (sp_partition sp) \<le> part_last_lba (sp_partition sp) \<and>
    unat (part_last_lba (sp_partition sp)) + 3 \<le> unat capacity \<and>
    part_type_guid (sp_partition sp) = SLIME_STORE_TYPE_GUID"
proof -
  from assms obtain header bs ps where ok: "header_ok header"
    and ps: "parse_partitions bs header capacity = Inr ps"
    and sel: "select_store ps (sp_recovery sp) = Inr sp"
    by (rule validate_store_partition_Inr)
  have "sp_partition sp \<in> set (filter (\<lambda>p. part_type_guid p = SLIME_STORE_TYPE_GUID) ps)"
    by (simp add: select_store_Inr(1) [OF sel])
  then have "partition_within header (sp_partition sp)"
    and "part_type_guid (sp_partition sp) = SLIME_STORE_TYPE_GUID"
    using parse_partitions_Inr(4) [OF ps] by (auto simp: list_all_iff)
  moreover have "1 * 128 \<le> unat (hd_entry_count header) * unat (hd_entry_size header)"
    using ok unfolding header_ok_def by (intro mult_le_mono) simp_all
  then have "1 \<le> (unat (hd_entry_count header) * unat (hd_entry_size header) + 511) div 512"
    by simp
  ultimately show ?thesis
    using parse_partitions_Inr(1,3) [OF ps]
    by (auto simp: partition_within_def word_le_nat_alt)
qed

theorem gpt_store_partition_bounds_witness:
  "3 \<le> unat (part_first_lba sample_partition) \<and> unat (part_last_lba sample_partition) + 3 \<le> 10 \<and>
   part_type_guid sample_partition = SLIME_STORE_TYPE_GUID"
  using gpt_store_partition_bounds [OF sample_validates] by simp

text \<open>
  C15: accepted partition tables have pairwise disjoint partitions in ascending order, each inside
  the header's usable span.
\<close>

theorem gpt_partitions_disjoint:
  assumes "parse_partitions bs header capacity = Inr ps"
  shows "sorted_wrt (\<lambda>p q. part_last_lba p < part_first_lba q) ps \<and>
    list_all (partition_within header) ps"
  using parse_partitions_Inr(4,5) [OF assms] by blast

theorem gpt_partitions_disjoint_witness:
  "sorted_wrt (\<lambda>p q. part_last_lba p < part_first_lba q) [sample_partition] \<and>
   list_all (partition_within sample_header) [sample_partition]"
  by (rule gpt_partitions_disjoint [OF sample_parse_partitions])

text \<open>
  C35: validation never asks the device for a sector beyond its capacity, whatever the sectors it
  reads contain and whether or not it succeeds.
\<close>

theorem gpt_reads_in_bounds:
  assumes "validate_store_partition (traced reader) capacity (s, []) = (r, s', trace)"
    and "lba \<in> set trace"
  shows "lba < capacity"
proof -
  have "keeps (reads_below capacity) (validate_store_partition (traced reader) capacity)"
  proof (cases "capacity < 3")
    case True
    then show ?thesis by (simp add: validate_store_partition_def keeps_fail reads_below_refl)
  next
    case False
    then have "0 < capacity" by (auto simp: not_less word_less_nat_alt word_le_nat_alt)
    with False show ?thesis
      unfolding validate_store_partition_def
      by (auto intro!: keeps_bind keeps_attempt keeps_lift traced_below validate_copy_below)
  qed
  then have "reads_below capacity (s, []) (s', trace)"
    using assms(1) by (rule keepsD)
  with assms(2) show ?thesis by (auto simp: reads_below_def)
qed

theorem gpt_reads_in_bounds_witness:
  "validate_store_partition (traced (\<lambda>lba. sfail Gpt_Device)) 10 ((), []) =
     (Inl Gpt_Device, (), [0]) \<and> (0 :: u64) < 10"
proof
  show run: "validate_store_partition (traced (\<lambda>lba. sfail Gpt_Device)) 10 ((), []) =
      (Inl Gpt_Device, (), [0])"
    by (simp add: validate_store_partition_def sbind_def traced_def)
  show "(0 :: u64) < 10"
    by (rule gpt_reads_in_bounds [OF run]) simp
qed

end
