(* ===== verification/StoreDisk.thy ===== *)
theory StoreDisk
  imports Crc32
begin

text \<open>
  The object store's superblock sector, \<open>boot-contracts/src/store_disk.rs\<close> with the constants of
  its generated contract, and the checks a reader makes before acting on one.
\<close>

section \<open>Constants and data\<close>

definition SUPERBLOCK_MAGIC :: bytes where
  "SUPERBLOCK_MAGIC = [0x53, 0x4C, 0x49, 0x4D, 0x45, 0x53, 0x42, 0]"

definition RECORD_MAGIC :: bytes where
  "RECORD_MAGIC = [0x53, 0x4C, 0x49, 0x4D, 0x45, 0x4F, 0x52, 0]"

definition FORMAT_VERSION :: u32 where "FORMAT_VERSION = 1"
definition SUPERBLOCK_HEADER :: nat where "SUPERBLOCK_HEADER = 64"
definition RECORD_HEADER :: nat where "RECORD_HEADER = 64"
definition RECORD_AREA_START :: u64 where "RECORD_AREA_START = 2"
definition SLOT_A_LBA :: u64 where "SLOT_A_LBA = 0"
definition SLOT_B_LBA :: u64 where "SLOT_B_LBA = 1"
definition MAX_OBJECTS :: nat where "MAX_OBJECTS = 64"
definition MAX_OBJECT_PAYLOAD :: nat where "MAX_OBJECT_PAYLOAD = 32768"
definition SECTOR_BYTES :: nat where "SECTOR_BYTES = 512"
definition SUPERBLOCK_FORMAT_VERSION_OFFSET :: nat where "SUPERBLOCK_FORMAT_VERSION_OFFSET = 8"
definition SUPERBLOCK_HEADER_SIZE_OFFSET :: nat where "SUPERBLOCK_HEADER_SIZE_OFFSET = 12"
definition SUPERBLOCK_SEQUENCE_OFFSET :: nat where "SUPERBLOCK_SEQUENCE_OFFSET = 16"
definition SUPERBLOCK_APPEND_LBA_OFFSET :: nat where "SUPERBLOCK_APPEND_LBA_OFFSET = 24"
definition SUPERBLOCK_OBJECT_COUNT_OFFSET :: nat where "SUPERBLOCK_OBJECT_COUNT_OFFSET = 32"
definition SUPERBLOCK_FLAGS_OFFSET :: nat where "SUPERBLOCK_FLAGS_OFFSET = 36"
definition SUPERBLOCK_RECORD_AREA_START_OFFSET :: nat where "SUPERBLOCK_RECORD_AREA_START_OFFSET = 40"
definition SUPERBLOCK_PARTITION_SECTORS_OFFSET :: nat where "SUPERBLOCK_PARTITION_SECTORS_OFFSET = 48"
definition SUPERBLOCK_CRC32_OFFSET :: nat where "SUPERBLOCK_CRC32_OFFSET = 60"

lemmas superblock_layout =
  SUPERBLOCK_HEADER_def SECTOR_BYTES_def SUPERBLOCK_FORMAT_VERSION_OFFSET_def
  SUPERBLOCK_HEADER_SIZE_OFFSET_def SUPERBLOCK_SEQUENCE_OFFSET_def SUPERBLOCK_APPEND_LBA_OFFSET_def
  SUPERBLOCK_OBJECT_COUNT_OFFSET_def SUPERBLOCK_FLAGS_OFFSET_def
  SUPERBLOCK_RECORD_AREA_START_OFFSET_def SUPERBLOCK_PARTITION_SECTORS_OFFSET_def
  SUPERBLOCK_CRC32_OFFSET_def

datatype SuperblockError = BadMagic | UnsupportedVersion | BadHeaderSize | BadCrc | BadBounds

record Superblock =
  sb_sequence :: u64
  sb_append_lba :: u64
  sb_object_count :: u32

section \<open>Encoding\<close>

definition superblock_fields :: "Superblock \<Rightarrow> u64 \<Rightarrow> bytes" where
  "superblock_fields superblock partition_sectors =
     splices
       [(0, SUPERBLOCK_MAGIC),
        (SUPERBLOCK_FORMAT_VERSION_OFFSET, to_le FORMAT_VERSION),
        (SUPERBLOCK_HEADER_SIZE_OFFSET, to_le (of_nat SUPERBLOCK_HEADER :: u32)),
        (SUPERBLOCK_SEQUENCE_OFFSET, to_le (sb_sequence superblock)),
        (SUPERBLOCK_APPEND_LBA_OFFSET, to_le (sb_append_lba superblock)),
        (SUPERBLOCK_OBJECT_COUNT_OFFSET, to_le (sb_object_count superblock)),
        (SUPERBLOCK_FLAGS_OFFSET, to_le (0 :: u32)),
        (SUPERBLOCK_RECORD_AREA_START_OFFSET, to_le RECORD_AREA_START),
        (SUPERBLOCK_PARTITION_SECTORS_OFFSET, to_le partition_sectors)]
       (zeros SECTOR_BYTES)"

definition encode_superblock :: "Superblock \<Rightarrow> u64 \<Rightarrow> bytes" where
  "encode_superblock superblock partition_sectors =
     (let sector = superblock_fields superblock partition_sectors;
          crc = crc32 (slice 0 SUPERBLOCK_CRC32_OFFSET sector)
      in splice SUPERBLOCK_CRC32_OFFSET (to_le crc) sector)"

definition decode_superblock :: "bytes \<Rightarrow> u64 \<Rightarrow> (SuperblockError, Superblock) res" where
  "decode_superblock sector partition_sectors =
     (if slice 0 8 sector \<noteq> SUPERBLOCK_MAGIC then Inl BadMagic
      else if read_u32 sector SUPERBLOCK_FORMAT_VERSION_OFFSET \<noteq> FORMAT_VERSION
        then Inl UnsupportedVersion
      else if read_u32 sector SUPERBLOCK_HEADER_SIZE_OFFSET \<noteq> of_nat SUPERBLOCK_HEADER
        then Inl BadHeaderSize
      else if crc32 (slice 0 SUPERBLOCK_CRC32_OFFSET sector) \<noteq> read_u32 sector SUPERBLOCK_CRC32_OFFSET
        then Inl BadCrc
      else let superblock =
             \<lparr>sb_sequence = read_u64 sector SUPERBLOCK_SEQUENCE_OFFSET,
              sb_append_lba = read_u64 sector SUPERBLOCK_APPEND_LBA_OFFSET,
              sb_object_count = read_u32 sector SUPERBLOCK_OBJECT_COUNT_OFFSET\<rparr>;
             record_area_start = read_u64 sector SUPERBLOCK_RECORD_AREA_START_OFFSET;
             recorded_partition = read_u64 sector SUPERBLOCK_PARTITION_SECTORS_OFFSET in
        if record_area_start \<noteq> RECORD_AREA_START \<or> recorded_partition \<noteq> partition_sectors \<or>
           sb_append_lba superblock < RECORD_AREA_START \<or>
           sb_append_lba superblock > partition_sectors \<or>
           unat (sb_object_count superblock) > MAX_OBJECTS \<or> sb_sequence superblock = - 1
        then Inl BadBounds
        else Inr superblock)"

section \<open>Accepted superblocks\<close>

text \<open>The fields a reader accepts for a partition of the given size.\<close>

definition superblock_ok :: "u64 \<Rightarrow> Superblock \<Rightarrow> bool" where
  "superblock_ok partition_sectors sb \<longleftrightarrow>
     RECORD_AREA_START \<le> sb_append_lba sb \<and> sb_append_lba sb \<le> partition_sectors \<and>
     unat (sb_object_count sb) \<le> MAX_OBJECTS \<and> sb_sequence sb \<noteq> - 1"

lemma length_SUPERBLOCK_MAGIC [simp]: "length SUPERBLOCK_MAGIC = 8"
  by (simp add: SUPERBLOCK_MAGIC_def)

lemma length_superblock_fields: "length (superblock_fields sb n) = 512"
  by (simp add: superblock_fields_def superblock_layout length_splices del: splices.simps)

lemma superblock_field_slices:
  "slice 0 8 (superblock_fields sb n) = SUPERBLOCK_MAGIC"
  "slice 8 12 (superblock_fields sb n) = to_le FORMAT_VERSION"
  "slice 12 16 (superblock_fields sb n) = to_le (of_nat SUPERBLOCK_HEADER :: u32)"
  "slice 16 24 (superblock_fields sb n) = to_le (sb_sequence sb)"
  "slice 24 32 (superblock_fields sb n) = to_le (sb_append_lba sb)"
  "slice 32 36 (superblock_fields sb n) = to_le (sb_object_count sb)"
  "slice 40 48 (superblock_fields sb n) = to_le RECORD_AREA_START"
  "slice 48 56 (superblock_fields sb n) = to_le n"
  unfolding superblock_fields_def superblock_layout
  by (simp_all add: slice_splices del: splices.simps)

lemma length_encode_superblock [simp]: "length (encode_superblock sb n) = 512"
  by (simp add: encode_superblock_def Let_def length_superblock_fields SUPERBLOCK_CRC32_OFFSET_def)

text \<open>What a reader makes of any superblock this code writes.\<close>

lemma decode_encode_superblock:
  "decode_superblock (encode_superblock sb n) n = (if superblock_ok n sb then Inr sb else Inl BadBounds)"
proof -
  have "decode_superblock (encode_superblock sb n) n =
      (if \<not> superblock_ok n sb then Inl BadBounds else Inr sb)"
    by (auto simp: decode_superblock_def encode_superblock_def superblock_ok_def Let_def superblock_layout
        read_u32_def read_u64_def slice_simps length_superblock_fields superblock_field_slices not_less not_le)
  then show ?thesis by simp
qed

lemma decode_superblock_ok: "decode_superblock sector n = Inr sb \<Longrightarrow> superblock_ok n sb"
  by (auto simp: decode_superblock_def superblock_ok_def Let_def not_less split: if_splits)

lemma decode_superblock_crc:
  "decode_superblock sector n = Inr sb \<Longrightarrow>
   crc32 (slice 0 SUPERBLOCK_CRC32_OFFSET sector) = read_u32 sector SUPERBLOCK_CRC32_OFFSET"
  by (auto simp: decode_superblock_def Let_def split: if_splits)

text \<open>Changing bytes before the checksum leaves the stored checksum alone.\<close>

lemma slice_prefix_split:
  "length p + length u \<le> n \<Longrightarrow>
   slice 0 n (p @ u @ s) = p @ u @ take (n - length p - length u) s"
  by (simp add: slice_def)

lemma read_u32_suffix:
  "length p + length u \<le> n \<Longrightarrow> length u = length v \<Longrightarrow>
   read_u32 (p @ u @ s) n = read_u32 (p @ v @ s) n"
  by (simp add: read_u32_def slice_def)

section \<open>Properties\<close>

text \<open>
  C36: a superblock this code writes reads back as itself exactly when its fields are within the
  partition and the format's ceilings; otherwise the reader refuses it as out of bounds.
\<close>

theorem superblock_roundtrip:
  "decode_superblock (encode_superblock sb n) n = (if superblock_ok n sb then Inr sb else Inl BadBounds)"
  by (rule decode_encode_superblock)

text \<open>
  Corrupting up to four adjacent bytes of the covered part of an accepted superblock makes the
  reader refuse the sector.
\<close>

theorem superblock_corruption_detected:
  assumes "decode_superblock (p @ u @ s) n = Inr sb"
    and "length u = length v" and "length v \<le> 4" and "u \<noteq> v"
    and "length p + length u \<le> SUPERBLOCK_CRC32_OFFSET"
  shows "\<exists>e. decode_superblock (p @ v @ s) n = Inl e"
proof -
  let ?rest = "take (SUPERBLOCK_CRC32_OFFSET - length p - length u) s"
  have "crc32 (p @ u @ ?rest) = read_u32 (p @ u @ s) SUPERBLOCK_CRC32_OFFSET"
    using decode_superblock_crc [OF assms(1)] assms(5) by (simp add: slice_prefix_split)
  also have "\<dots> = read_u32 (p @ v @ s) SUPERBLOCK_CRC32_OFFSET"
    using assms(2,5) by (rule read_u32_suffix [rotated])
  finally have "crc32 (p @ v @ ?rest) \<noteq> read_u32 (p @ v @ s) SUPERBLOCK_CRC32_OFFSET"
    using crc32_burst [OF assms(2-4), of p ?rest] by simp
  then have "crc32 (slice 0 SUPERBLOCK_CRC32_OFFSET (p @ v @ s)) \<noteq>
      read_u32 (p @ v @ s) SUPERBLOCK_CRC32_OFFSET"
    using assms(2,5) by (simp add: slice_prefix_split)
  then show ?thesis
    using decode_superblock_crc [of "p @ v @ s" n] by (metis sum.exhaust)
qed

definition sample_superblock :: Superblock where
  "sample_superblock = \<lparr>sb_sequence = 1, sb_append_lba = 2, sb_object_count = 0\<rparr>"

theorem superblock_corruption_detected_witness:
  "\<exists>p s. encode_superblock sample_superblock 96 = p @ [1, 0, 0, 0] @ s \<and>
     (\<exists>e. decode_superblock (p @ [2, 0, 0, 0] @ s) 96 = Inl e)"
proof -
  let ?b = "encode_superblock sample_superblock 96"
  let ?p = "slice 0 16 ?b" and ?s = "slice 20 512 ?b"
  have "slice 16 24 ?b = to_le (1 :: u64)"
    by (simp add: encode_superblock_def Let_def superblock_layout slice_simps length_superblock_fields
        superblock_field_slices sample_superblock_def)
  moreover have "slice 0 4 (to_le (1 :: u64)) = [1, 0, 0, 0]" by code_simp
  ultimately have u: "slice 16 20 ?b = [1, 0, 0, 0]"
    using slice_slice [of 16 4 24 0 ?b] by (simp only: add_0_right) simp
  have b: "?b = ?p @ [1, 0, 0, 0] @ ?s"
    using slices_whole [of "[16, 20, 512]" ?b] by (simp add: slices.simps u)
  have ok: "decode_superblock ?b 96 = Inr sample_superblock"
    by (simp add: decode_encode_superblock superblock_ok_def sample_superblock_def
        RECORD_AREA_START_def)
  have ok': "decode_superblock (?p @ [1, 0, 0, 0] @ ?s) 96 = Inr sample_superblock"
    by (simp only: b [symmetric] ok)
  have "\<exists>e. decode_superblock (?p @ [2, 0, 0, 0] @ ?s) 96 = Inl e"
    by (rule superblock_corruption_detected [OF ok'])
      (simp_all add: SUPERBLOCK_CRC32_OFFSET_def)
  with b show ?thesis by blast
qed

end
