(* ===== verification/ObjectStore.thy ===== *)
theory ObjectStore
  imports StoreDisk Gpt BlockDevice
begin

text \<open>
  The append-only content-addressed object store, \<open>boot-contracts/src/object_store.rs\<close>: opening a
  partition, looking objects up, reading them back with their hash re-verified, scrubbing, and
  appending.  The device is any implementation of the \<open>BlockIo\<close> trait and SHA-256 is the
  parameter \<open>sha\<close>.
\<close>

section \<open>Data\<close>

datatype IoError = Io_Device | Io_Timeout

record 'd BlockIo =
  io_read :: "u64 \<Rightarrow> ('d, IoError, bytes) sres"
  io_write :: "u64 \<Rightarrow> bytes \<Rightarrow> ('d, IoError, unit) sres"
  io_flush :: "('d, IoError, unit) sres"

datatype StoreError =
    Io IoError | PartitionTooSmall | NoValidSuperblock | CorruptRecord | TooManyObjects | StoreFull
  | NotFound | PayloadTooLarge | BufferTooSmall | DuplicateIdentity | HashMismatch

record Entry =
  en_hash :: bytes
  en_obj_type :: u32
  en_payload_len :: u32
  en_lba :: u64

datatype StoreSlot = Store_A | Store_B

fun store_other :: "StoreSlot \<Rightarrow> StoreSlot" where
  "store_other Store_A = Store_B"
| "store_other Store_B = Store_A"

fun store_slot_lba :: "StoreSlot \<Rightarrow> u64" where
  "store_slot_lba Store_A = SLOT_A_LBA"
| "store_slot_lba Store_B = SLOT_B_LBA"

record ObjectStore =
  os_first_lba :: u64
  os_partition_sectors :: u64
  os_sequence :: u64
  os_append_lba :: u64
  os_active :: StoreSlot
  os_entries :: "Entry list"

section \<open>Records\<close>

definition RECORD_FORMAT_VERSION_OFFSET :: nat where "RECORD_FORMAT_VERSION_OFFSET = 8"
definition RECORD_HEADER_SIZE_OFFSET :: nat where "RECORD_HEADER_SIZE_OFFSET = 12"
definition RECORD_OBJ_TYPE_OFFSET :: nat where "RECORD_OBJ_TYPE_OFFSET = 16"
definition RECORD_PAYLOAD_LEN_OFFSET :: nat where "RECORD_PAYLOAD_LEN_OFFSET = 24"
definition RECORD_CONTENT_HASH_OFFSET :: nat where "RECORD_CONTENT_HASH_OFFSET = 32"

lemmas record_layout =
  RECORD_FORMAT_VERSION_OFFSET_def RECORD_HEADER_SIZE_OFFSET_def RECORD_OBJ_TYPE_OFFSET_def
  RECORD_PAYLOAD_LEN_OFFSET_def RECORD_CONTENT_HASH_OFFSET_def RECORD_HEADER_def

definition record_sectors :: "u64 \<Rightarrow> (StoreError, u64) res" where
  "record_sectors payload_len =
     rbind (ok_or CorruptRecord (checked_add (of_nat RECORD_HEADER) payload_len)) (\<lambda>bs.
     Inr (div_ceil bs (of_nat SECTOR_SIZE)))"

definition encode_record_header :: "u32 \<Rightarrow> bytes \<Rightarrow> bytes \<Rightarrow> bytes" where
  "encode_record_header obj_type payload hash =
     splices
       [(0, RECORD_MAGIC),
        (RECORD_FORMAT_VERSION_OFFSET, to_le FORMAT_VERSION),
        (RECORD_HEADER_SIZE_OFFSET, to_le (of_nat RECORD_HEADER :: u32)),
        (RECORD_OBJ_TYPE_OFFSET, to_le obj_type),
        (RECORD_PAYLOAD_LEN_OFFSET, to_le (of_nat (length payload) :: u64)),
        (RECORD_CONTENT_HASH_OFFSET, hash)]
       (zeros RECORD_HEADER)"

definition decode_record_header :: "bytes \<Rightarrow> (StoreError, Entry) res" where
  "decode_record_header sector =
     (if slice 0 8 sector \<noteq> RECORD_MAGIC then Inl CorruptRecord
      else if read_u32 sector RECORD_FORMAT_VERSION_OFFSET \<noteq> FORMAT_VERSION then Inl CorruptRecord
      else if read_u32 sector RECORD_HEADER_SIZE_OFFSET \<noteq> of_nat RECORD_HEADER then Inl CorruptRecord
      else let payload_len = read_u64 sector RECORD_PAYLOAD_LEN_OFFSET in
        if payload_len > of_nat MAX_OBJECT_PAYLOAD then Inl CorruptRecord
        else Inr \<lparr>en_hash = slice RECORD_CONTENT_HASH_OFFSET RECORD_HEADER sector,
                  en_obj_type = read_u32 sector RECORD_OBJ_TYPE_OFFSET,
                  en_payload_len = ucast payload_len,
                  en_lba = 0\<rparr>)"

section \<open>Opening\<close>

text \<open>One committed record: its entry and where the next one starts.\<close>

definition read_record :: "u64 \<Rightarrow> u64 \<Rightarrow> nat \<Rightarrow> bytes \<Rightarrow> (StoreError, Entry \<times> u64) res" where
  "read_record append_lba lba count sector =
     rbind (decode_record_header sector) (\<lambda>entry.
     rbind (record_sectors (ucast (en_payload_len entry))) (\<lambda>sectors.
     rbind (ok_or CorruptRecord (checked_add lba sectors)) (\<lambda>end_lba.
     if end_lba > append_lba then Inl CorruptRecord
     else if count \<ge> MAX_OBJECTS then Inl TooManyObjects
     else Inr (entry\<lparr>en_lba := lba\<rparr>, end_lba))))"

lemma record_sectors_pos: "record_sectors n = Inr sectors \<Longrightarrow> 0 < unat sectors"
proof -
  assume "record_sectors n = Inr sectors"
  then obtain bs where bs: "unat bs = unat (of_nat RECORD_HEADER :: u64) + unat n"
    and sectors: "sectors = div_ceil bs (of_nat SECTOR_SIZE)"
    by (auto simp: record_sectors_def result_simps checked_simps)
  have "unat sectors = (unat bs + 511) div 512"
    by (simp add: sectors unat_div_ceil SECTOR_SIZE_def)
  moreover have "64 \<le> unat bs" using bs by (simp add: RECORD_HEADER_def)
  ultimately show ?thesis by (simp add: div_greater_zero_iff)
qed

lemma read_record_progress:
  "read_record append_lba lba count sector = Inr (entry, end_lba) \<Longrightarrow>
   unat lba < unat end_lba \<and> unat end_lba \<le> unat append_lba"
  using record_sectors_pos
  by (fastforce simp: read_record_def result_simps checked_simps not_less word_le_nat_alt
      split: if_splits)

function scan ::
  "'d BlockIo \<Rightarrow> u64 \<Rightarrow> u64 \<Rightarrow> u64 \<Rightarrow> Entry list \<Rightarrow> ('d, StoreError, Entry list) sres" where
  "scan io first_lba append_lba lba entries d =
     (if lba < append_lba then
        case io_read io (first_lba + lba) d of
          (Inl e, d) \<Rightarrow> (Inl (Io e), d)
        | (Inr sector, d) \<Rightarrow>
            (case read_record append_lba lba (length entries) sector of
               Inl e \<Rightarrow> (Inl e, d)
             | Inr (entry, end_lba) \<Rightarrow> scan io first_lba append_lba end_lba (entries @ [entry]) d)
      else (Inr entries, d))"
  by auto

termination scan
proof (relation "measure (\<lambda>(io, first_lba, append_lba, lba, entries, d). unat append_lba - unat lba)",
    goal_cases)
  case (2 io first_lba append_lba lba entries d r d' sector p entry end_lba)
  then show ?case using read_record_progress [of append_lba lba "length entries" sector entry end_lba]
    by (auto simp: word_less_nat_alt)
qed simp

declare scan.simps [simp del]

definition pick_superblock ::
  "Superblock option \<Rightarrow> Superblock option \<Rightarrow> (StoreError, StoreSlot \<times> Superblock) res" where
  "pick_superblock slot_a slot_b =
     (case (slot_a, slot_b) of
        (Some a, Some b) \<Rightarrow>
          if sb_sequence a \<ge> sb_sequence b then Inr (Store_A, a) else Inr (Store_B, b)
      | (Some a, None) \<Rightarrow> Inr (Store_A, a)
      | (None, Some b) \<Rightarrow> Inr (Store_B, b)
      | (None, None) \<Rightarrow> Inl NoValidSuperblock)"

definition to_option :: "('e, 'a) res \<Rightarrow> 'a option" where
  "to_option r = (case r of Inl _ \<Rightarrow> None | Inr x \<Rightarrow> Some x)"

definition open_store :: "'d BlockIo \<Rightarrow> Partition \<Rightarrow> ('d, StoreError, ObjectStore) sres" where
  "open_store io part =
     sbind (slift (ok_or PartitionTooSmall
       (case checked_sub (part_last_lba part) (part_first_lba part) of
          None \<Rightarrow> None | Some span \<Rightarrow> checked_add span 1))) (\<lambda>partition_sectors.
     if partition_sectors < RECORD_AREA_START + 1 then sfail PartitionTooSmall
     else
       sbind (smap_err Io (io_read io (part_first_lba part + SLOT_A_LBA))) (\<lambda>sector_a.
       sbind (smap_err Io (io_read io (part_first_lba part + SLOT_B_LBA))) (\<lambda>sector_b.
       sbind (slift (pick_superblock (to_option (decode_superblock sector_a partition_sectors))
                (to_option (decode_superblock sector_b partition_sectors)))) (\<lambda>(active, superblock).
       sbind (scan io (part_first_lba part) (sb_append_lba superblock) RECORD_AREA_START []) (\<lambda>entries.
       if length entries \<noteq> unat (sb_object_count superblock) then sfail CorruptRecord
       else sreturn
         \<lparr>os_first_lba = part_first_lba part,
          os_partition_sectors = partition_sectors,
          os_sequence = sb_sequence superblock,
          os_append_lba = sb_append_lba superblock,
          os_active = active,
          os_entries = entries\<rparr>)))))"

section \<open>Reading\<close>

definition stat :: "bytes \<Rightarrow> ObjectStore \<Rightarrow> (u32 \<times> u32) option" where
  "stat hash store =
     map_option (\<lambda>entry. (en_obj_type entry, en_payload_len entry))
       (find (\<lambda>entry. en_hash entry = hash) (os_entries store))"

primrec read_run :: "'d BlockIo \<Rightarrow> u64 \<Rightarrow> nat list \<Rightarrow> bytes \<Rightarrow> ('d, StoreError, bytes) sres" where
  "read_run io lba [] acc = sreturn acc"
| "read_run io lba (index # rest) acc =
     sbind (smap_err Io (io_read io (lba + of_nat index))) (\<lambda>sector.
     read_run io lba rest (acc @ sector))"

definition read_payload :: "'d BlockIo \<Rightarrow> ObjectStore \<Rightarrow> Entry \<Rightarrow> ('d, StoreError, bytes) sres" where
  "read_payload io store entry =
     sbind (slift (record_sectors (ucast (en_payload_len entry)))) (\<lambda>sectors.
     sbind (read_run io (os_first_lba store + en_lba entry) [0..<unat sectors] []) (\<lambda>bs.
     sreturn (slice RECORD_HEADER (RECORD_HEADER + unat (en_payload_len entry)) bs)))"

text \<open>
  \<open>get\<close> copies the verified payload into the caller's buffer and returns its type and length; the
  model returns the buffer's new contents with them.
\<close>

definition get ::
  "(bytes \<Rightarrow> bytes) \<Rightarrow> 'd BlockIo \<Rightarrow> ObjectStore \<Rightarrow> bytes \<Rightarrow> bytes \<Rightarrow>
   ('d, StoreError, u32 \<times> nat \<times> bytes) sres" where
  "get sha io store hash out =
     sbind (slift (ok_or NotFound (find (\<lambda>entry. en_hash entry = hash) (os_entries store)))) (\<lambda>entry.
     let len = unat (en_payload_len entry) in
     if length out < len then sfail BufferTooSmall
     else sbind (read_payload io store entry) (\<lambda>payload.
       if sha payload \<noteq> hash then sfail HashMismatch
       else sreturn (en_obj_type entry, len, splice 0 payload out)))"

primrec scrub_entries ::
  "(bytes \<Rightarrow> bytes) \<Rightarrow> 'd BlockIo \<Rightarrow> ObjectStore \<Rightarrow> Entry list \<Rightarrow> ('d, StoreError, unit) sres" where
  "scrub_entries sha io store [] = sreturn ()"
| "scrub_entries sha io store (entry # rest) =
     sbind (read_payload io store entry) (\<lambda>payload.
     if sha payload \<noteq> en_hash entry then sfail HashMismatch
     else scrub_entries sha io store rest)"

definition scrub :: "(bytes \<Rightarrow> bytes) \<Rightarrow> 'd BlockIo \<Rightarrow> ObjectStore \<Rightarrow> ('d, StoreError, unit) sres" where
  "scrub sha io store = scrub_entries sha io store (os_entries store)"

section \<open>Appending\<close>

primrec write_run :: "'d BlockIo \<Rightarrow> u64 \<Rightarrow> bytes \<Rightarrow> nat list \<Rightarrow> ('d, StoreError, unit) sres" where
  "write_run io lba bs [] = sreturn ()"
| "write_run io lba bs (index # rest) =
     (let start = index * SECTOR_SIZE in
      sbind (smap_err Io (io_write io (lba + of_nat index) (slice start (start + SECTOR_SIZE) bs))) (\<lambda>_.
      write_run io lba bs rest))"

definition record_bytes :: "u32 \<Rightarrow> bytes \<Rightarrow> bytes \<Rightarrow> u64 \<Rightarrow> bytes" where
  "record_bytes obj_type payload hash sectors =
     splice RECORD_HEADER payload
       (splice 0 (encode_record_header obj_type payload hash) (zeros (unat sectors * SECTOR_SIZE)))"

text \<open>The checks of \<open>put\<close> before any write: the record's size, its end, the next sequence.\<close>

definition plan_put :: "ObjectStore \<Rightarrow> bytes \<Rightarrow> (StoreError, u64 \<times> u64 \<times> u64) res" where
  "plan_put store payload =
     (if length (os_entries store) \<ge> MAX_OBJECTS then Inl StoreFull
      else rbind (record_sectors (of_nat (length payload))) (\<lambda>sectors.
        rbind (ok_or StoreFull (checked_add (os_append_lba store) sectors)) (\<lambda>end_lba.
        if end_lba > os_partition_sectors store then Inl StoreFull
        else rbind (ok_or StoreFull (checked_add (os_sequence store) 1)) (\<lambda>next_sequence.
          Inr (sectors, end_lba, next_sequence)))))"

definition advance :: "ObjectStore \<Rightarrow> u32 \<Rightarrow> bytes \<Rightarrow> bytes \<Rightarrow> u64 \<Rightarrow> u64 \<Rightarrow> ObjectStore" where
  "advance store obj_type payload hash end_lba next_sequence =
     store\<lparr>os_sequence := next_sequence,
           os_append_lba := end_lba,
           os_active := store_other (os_active store),
           os_entries := os_entries store @
             [\<lparr>en_hash = hash, en_obj_type = obj_type,
               en_payload_len = of_nat (length payload), en_lba = os_append_lba store\<rparr>]\<rparr>"

text \<open>The two device phases: the record and a flush, then the superblock into the older slot.\<close>

definition write_record ::
  "'d BlockIo \<Rightarrow> ObjectStore \<Rightarrow> u32 \<Rightarrow> bytes \<Rightarrow> bytes \<Rightarrow> u64 \<Rightarrow> ('d, StoreError, unit) sres" where
  "write_record io store obj_type payload hash sectors =
     sbind (write_run io (os_first_lba store + os_append_lba store)
              (record_bytes obj_type payload hash sectors) [0..<unat sectors]) (\<lambda>_.
     smap_err Io (io_flush io))"

definition next_superblock :: "ObjectStore \<Rightarrow> u64 \<Rightarrow> u64 \<Rightarrow> bytes" where
  "next_superblock store end_lba next_sequence =
     encode_superblock
       \<lparr>sb_sequence = next_sequence, sb_append_lba = end_lba,
        sb_object_count = of_nat (length (os_entries store) + 1)\<rparr>
       (os_partition_sectors store)"

definition write_superblock :: "'d BlockIo \<Rightarrow> ObjectStore \<Rightarrow> u64 \<Rightarrow> u64 \<Rightarrow> ('d, StoreError, unit) sres" where
  "write_superblock io store end_lba next_sequence =
     smap_err Io (io_write io (os_first_lba store + store_slot_lba (store_other (os_active store)))
       (next_superblock store end_lba next_sequence))"

definition put ::
  "(bytes \<Rightarrow> bytes) \<Rightarrow> 'd BlockIo \<Rightarrow> u32 \<Rightarrow> bytes \<Rightarrow> ObjectStore \<times> 'd \<Rightarrow>
   (StoreError, bytes) res \<times> ObjectStore \<times> 'd" where
  "put sha io obj_type payload = (\<lambda>(store, d).
     if length payload > MAX_OBJECT_PAYLOAD then (Inl PayloadTooLarge, store, d)
     else let hash = sha payload in
       case find (\<lambda>entry. en_hash entry = hash) (os_entries store) of
         Some entry \<Rightarrow>
           (case read_payload io store entry d of
              (Inl e, d) \<Rightarrow> (Inl e, store, d)
            | (Inr existing, d) \<Rightarrow>
                (if existing = payload then Inr hash else Inl DuplicateIdentity, store, d))
       | None \<Rightarrow>
           (case plan_put store payload of
              Inl e \<Rightarrow> (Inl e, store, d)
            | Inr (sectors, end_lba, next_sequence) \<Rightarrow>
                (case sbind (write_record io store obj_type payload hash sectors) (\<lambda>_.
                        write_superblock io store end_lba next_sequence) d of
                   (Inl e, d) \<Rightarrow> (Inl e, store, d)
                 | (Inr _, d) \<Rightarrow>
                     (case smap_err Io (io_flush io) d of
                        (r, d) \<Rightarrow>
                          (map_sum id (\<lambda>_. hash) r,
                           advance store obj_type payload hash end_lba next_sequence, d)))))"

end
