(* ===== verification/StoreCrash.thy ===== *)
theory StoreCrash
  imports ObjectStore
begin

text \<open>
  What the object store promises about the disk: opening a sector image, records that read back,
  and the crash behaviour of an append over any device that keeps the block interface.  The
  interpretation at the end discharges the interface for the virtio driver.
\<close>

section \<open>Opening a sector image\<close>

text \<open>The device that is just its sectors, and what opening a partition of it gives.\<close>

definition image_io :: "(u64 \<Rightarrow> bytes) BlockIo" where
  "image_io =
     \<lparr>io_read = \<lambda>lba m. (Inr (m lba), m),
      io_write = \<lambda>lba bs m. (Inr (), m(lba := bs)),
      io_flush = \<lambda>m. (Inr (), m)\<rparr>"

definition open_image :: "Partition \<Rightarrow> (u64 \<Rightarrow> bytes) \<Rightarrow> (StoreError, ObjectStore) res" where
  "open_image part m = fst (open_store image_io part m)"

lemma image_io_simps [simp]:
  "io_read image_io lba m = (Inr (m lba), m)"
  "io_write image_io lba bs m = (Inr (), m(lba := bs))"
  "io_flush image_io m = (Inr (), m)"
  by (simp_all add: image_io_def)

lemma scan_image:
  "scan image_io first_lba append_lba lba es m =
     (if lba < append_lba then
        case read_record append_lba lba (length es) (m (first_lba + lba)) of
          Inl e \<Rightarrow> (Inl e, m)
        | Inr (entry, end_lba) \<Rightarrow> scan image_io first_lba append_lba end_lba (es @ [entry]) m
      else (Inr es, m))"
  by (subst scan.simps) simp

lemma scan_image_state: "snd (scan image_io first_lba append_lba lba es m) = m"
proof (induction image_io first_lba append_lba lba es m rule: scan.induct)
  case (1 first_lba append_lba lba entries d)
  then show ?case
    by (subst scan_image) (auto split: sum.split prod.split)
qed

lemma read_record_mono:
  assumes "read_record append_lba lba n sector = Inr (entry, end_lba)"
    and "append_lba \<le> append_lba'"
  shows "read_record append_lba' lba n sector = Inr (entry, end_lba)"
  using assms
  by (auto simp: read_record_def result_simps not_less split: if_splits)

text \<open>
  A scan that stops at \<open>append_lba\<close> is the beginning of every longer scan over an image that
  agrees with it below \<open>append_lba\<close>.
\<close>

lemma scan_extend:
  assumes "scan image_io first_lba append_lba lba es m = (Inr es', m)"
    and "lba \<le> append_lba" and "append_lba \<le> append_lba'"
    and "\<And>x. lba \<le> x \<Longrightarrow> x < append_lba \<Longrightarrow> m' (first_lba + x) = m (first_lba + x)"
  shows "scan image_io first_lba append_lba' lba es m' =
         scan image_io first_lba append_lba' append_lba es' m'"
  using assms
proof (induction image_io first_lba append_lba lba es m rule: scan.induct)
  case (1 first_lba append_lba lba es m)
  show ?case
  proof (cases "lba < append_lba")
    case False
    then show ?thesis using "1.prems" by (simp add: scan_image [of first_lba append_lba])
  next
    case True
    with "1.prems"(1) obtain entry end_lba where
      rr: "read_record append_lba lba (length es) (m (first_lba + lba)) = Inr (entry, end_lba)"
      and rest: "scan image_io first_lba append_lba end_lba (es @ [entry]) m = (Inr es', m)"
      by (auto simp: scan_image [of first_lba append_lba lba] split: sum.splits)
    have progress: "lba < end_lba" "end_lba \<le> append_lba"
      using read_record_progress [OF rr] by (simp_all add: word_less_nat_alt word_le_nat_alt)
    have "scan image_io first_lba append_lba' end_lba (es @ [entry]) m' =
        scan image_io first_lba append_lba' append_lba es' m'"
      using "1.hyps" [OF True, of "Inr (m (first_lba + lba))" m "m (first_lba + lba)"] rr rest progress "1.prems"(3,4)
      by auto
    moreover have "lba < append_lba'" using True "1.prems"(3) by simp
    moreover have "read_record append_lba' lba (length es) (m' (first_lba + lba)) = Inr (entry, end_lba)"
      using read_record_mono [OF rr "1.prems"(3)] "1.prems"(4) [of lba] True by simp
    ultimately show ?thesis by (subst scan_image) simp
  qed
qed

text \<open>The superblock a slot of an image carries.\<close>

definition superblock_at :: "(u64 \<Rightarrow> bytes) \<Rightarrow> u64 \<Rightarrow> u64 \<Rightarrow> StoreSlot \<Rightarrow> Superblock option" where
  "superblock_at m first_lba n slot =
     to_option (decode_superblock (m (first_lba + store_slot_lba slot)) n)"

lemma to_option_Some_iff [simp]: "to_option r = Some x \<longleftrightarrow> r = Inr x"
  by (auto simp: to_option_def split: sum.split)

lemma pick_superblock_Inr:
  assumes "pick_superblock (f Store_A) (f Store_B) = Inr (slot, sb)"
  shows "f slot = Some sb" and "f (store_other slot) = Some t \<Longrightarrow> sb_sequence t \<le> sb_sequence sb"
  using assms by (auto simp: pick_superblock_def split: option.splits if_splits)

lemma pick_superblock_wins:
  assumes "f slot = Some sb"
    and "\<And>t. f (store_other slot) = Some t \<Longrightarrow> sb_sequence t < sb_sequence sb"
  shows "pick_superblock (f Store_A) (f Store_B) = Inr (slot, sb)"
  using assms by (cases slot) (auto simp: pick_superblock_def split: option.splits)

definition partition_size :: "Partition \<Rightarrow> u64 option" where
  "partition_size part =
     (case checked_sub (part_last_lba part) (part_first_lba part) of
        None \<Rightarrow> None | Some span \<Rightarrow> checked_add span 1)"

definition opens_as :: "Partition \<Rightarrow> (u64 \<Rightarrow> bytes) \<Rightarrow> u64 \<Rightarrow> StoreSlot \<Rightarrow> Superblock \<Rightarrow> Entry list \<Rightarrow> bool" where
  "opens_as part m n active sb es \<longleftrightarrow>
     partition_size part = Some n \<and> \<not> n < RECORD_AREA_START + 1 \<and>
     pick_superblock (superblock_at m (part_first_lba part) n Store_A)
       (superblock_at m (part_first_lba part) n Store_B) = Inr (active, sb) \<and>
     scan image_io (part_first_lba part) (sb_append_lba sb) RECORD_AREA_START [] m = (Inr es, m) \<and>
     length es = unat (sb_object_count sb)"

definition store_of :: "Partition \<Rightarrow> u64 \<Rightarrow> StoreSlot \<Rightarrow> Superblock \<Rightarrow> Entry list \<Rightarrow> ObjectStore" where
  "store_of part n active sb es =
     \<lparr>os_first_lba = part_first_lba part, os_partition_sectors = n, os_sequence = sb_sequence sb,
      os_append_lba = sb_append_lba sb, os_active = active, os_entries = es\<rparr>"

lemma open_image_iff:
  "open_image part m = Inr st \<longleftrightarrow>
     (\<exists>n active sb es. opens_as part m n active sb es \<and> st = store_of part n active sb es)"
proof
  assume "open_image part m = Inr st"
  then obtain m' where run: "open_store image_io part m = (Inr st, m')"
    by (cases "open_store image_io part m") (auto simp: open_image_def)
  then obtain n active sb es where n: "partition_size part = Some n" "\<not> n < RECORD_AREA_START + 1"
    and pick: "pick_superblock (superblock_at m (part_first_lba part) n Store_A)
       (superblock_at m (part_first_lba part) n Store_B) = Inr (active, sb)"
    and sc: "scan image_io (part_first_lba part) (sb_append_lba sb) RECORD_AREA_START [] m = (Inr es, m')"
    and c: "length es = unat (sb_object_count sb)" and st: "st = store_of part n active sb es"
    by (auto simp: open_store_def result_simps superblock_at_def store_of_def
        simp flip: partition_size_def split: if_splits)
  moreover have "m' = m" using scan_image_state [of "part_first_lba part" "sb_append_lba sb" RECORD_AREA_START "[]" m] sc
    by simp
  ultimately show "\<exists>n active sb es. opens_as part m n active sb es \<and> st = store_of part n active sb es"
    unfolding opens_as_def by blast
next
  assume "\<exists>n active sb es. opens_as part m n active sb es \<and> st = store_of part n active sb es"
  then show "open_image part m = Inr st"
    by (auto simp: open_image_def open_store_def opens_as_def sbind_def smap_err_def superblock_at_def
        store_of_def simp flip: partition_size_def)
qed

lemma opens_as_ok:
  assumes "opens_as part m n active sb es"
  shows "superblock_ok n sb" and "superblock_at m (part_first_lba part) n active = Some sb"
    and "RECORD_AREA_START \<le> sb_append_lba sb"
proof -
  show at: "superblock_at m (part_first_lba part) n active = Some sb"
    using assms pick_superblock_Inr(1) unfolding opens_as_def by blast
  then show ok: "superblock_ok n sb"
    by (auto simp: superblock_at_def intro: decode_superblock_ok)
  then show "RECORD_AREA_START \<le> sb_append_lba sb" by (simp add: superblock_ok_def)
qed

text \<open>
  Opening looks only at the two slots and at the records below the append point; a damaged or
  unchanged inactive slot leaves the active one in charge.
\<close>

lemma opens_as_frame:
  assumes o: "opens_as part m n active sb es"
    and act: "m' (part_first_lba part + store_slot_lba active) = m (part_first_lba part + store_slot_lba active)"
    and oth: "superblock_at m' (part_first_lba part) n (store_other active) = None \<or>
      m' (part_first_lba part + store_slot_lba (store_other active)) =
        m (part_first_lba part + store_slot_lba (store_other active))"
    and rec: "\<And>x. RECORD_AREA_START \<le> x \<Longrightarrow> x < sb_append_lba sb \<Longrightarrow>
      m' (part_first_lba part + x) = m (part_first_lba part + x)"
  shows "opens_as part m' n active sb es"
proof -
  let ?f = "superblock_at m (part_first_lba part) n" and ?g = "superblock_at m' (part_first_lba part) n"
  have g: "?g active = Some sb"
    using opens_as_ok(2) [OF o] act by (simp add: superblock_at_def)
  have "pick_superblock (?g Store_A) (?g Store_B) = Inr (active, sb)"
  proof (cases "?g (store_other active) = None")
    case True
    then show ?thesis using pick_superblock_wins [of ?g active sb] g by simp
  next
    case False
    then have "?g (store_other active) = ?f (store_other active)"
      using oth unfolding superblock_at_def by metis
    moreover have "?g active = ?f active" using opens_as_ok(2) [OF o] g by simp
    ultimately have "?g Store_A = ?f Store_A \<and> ?g Store_B = ?f Store_B"
      by (cases active) simp_all
    then show ?thesis using o by (simp add: opens_as_def)
  qed
  moreover have "scan image_io (part_first_lba part) (sb_append_lba sb) RECORD_AREA_START [] m' =
      scan image_io (part_first_lba part) (sb_append_lba sb) (sb_append_lba sb) es m'"
    using o rec opens_as_ok(3) [OF o] by (intro scan_extend) (auto simp: opens_as_def)
  moreover have "\<dots> = (Inr es, m')" by (simp add: scan_image)
  ultimately show ?thesis using o by (simp add: opens_as_def)
qed

section \<open>Records read back\<close>

lemma length_RECORD_MAGIC [simp]: "length RECORD_MAGIC = 8"
  by (simp add: RECORD_MAGIC_def)

lemma length_encode_record_header:
  "length hash = 32 \<Longrightarrow> length (encode_record_header t payload hash) = 64"
  by (simp add: encode_record_header_def record_layout length_splices del: splices.simps)

lemma record_header_slices:
  assumes "length hash = 32"
  shows "slice 0 8 (encode_record_header t payload hash) = RECORD_MAGIC"
    and "slice 8 12 (encode_record_header t payload hash) = to_le FORMAT_VERSION"
    and "slice 12 16 (encode_record_header t payload hash) = to_le (of_nat RECORD_HEADER :: u32)"
    and "slice 16 20 (encode_record_header t payload hash) = to_le t"
    and "slice 24 32 (encode_record_header t payload hash) = to_le (of_nat (length payload) :: u64)"
    and "slice 32 64 (encode_record_header t payload hash) = hash"
  using assms unfolding encode_record_header_def record_layout
  by (simp_all add: slice_splices del: splices.simps)

lemma record_sectors_unat:
  assumes "length payload \<le> MAX_OBJECT_PAYLOAD"
    and "record_sectors (of_nat (length payload)) = Inr sectors"
  shows "unat sectors = (length payload + 575) div 512"
proof -
  from assms(2) obtain bs where bs: "unat bs = unat (of_nat RECORD_HEADER :: u64) + unat (of_nat (length payload) :: u64)"
    and sectors: "sectors = div_ceil bs (of_nat SECTOR_SIZE)"
    by (auto simp: record_sectors_def result_simps checked_simps)
  have "unat (of_nat (length payload) :: u64) = length payload"
    using assms(1) by (simp add: unat_of_nat take_bit_eq_mod MAX_OBJECT_PAYLOAD_def)
  then have "unat bs = length payload + 64" using bs by (simp add: RECORD_HEADER_def)
  then show ?thesis by (simp add: sectors unat_div_ceil SECTOR_SIZE_def)
qed

lemma record_bytes_length:
  assumes "length hash = 32" and "length payload + 64 \<le> unat sectors * 512"
  shows "length (record_bytes t payload hash sectors) = unat sectors * 512"
  using assms
  by (simp add: record_bytes_def SECTOR_SIZE_def RECORD_HEADER_def length_encode_record_header)

lemma record_bytes_slice:
  assumes "length hash = 32" and "length payload + 64 \<le> unat sectors * 512"
    and "a \<le> b" and "b \<le> 64"
  shows "slice a b (slice 0 512 (record_bytes t payload hash sectors)) =
         slice a b (encode_record_header t payload hash)"
proof -
  have "slice a b (slice 0 512 (record_bytes t payload hash sectors)) =
      slice a b (record_bytes t payload hash sectors)"
    using assms(4) slice_slice [of 0 b 512 a] by simp
  also have "\<dots> = slice a b (splice 0 (encode_record_header t payload hash) (zeros (unat sectors * 512)))"
    using assms by (simp add: record_bytes_def RECORD_HEADER_def SECTOR_SIZE_def slice_splice_before
        length_encode_record_header)
  also have "\<dots> = slice a b (encode_record_header t payload hash)"
    using assms by (simp add: slice_splice_within length_encode_record_header)
  finally show ?thesis .
qed

lemma payload_len_u32:
  assumes "length payload \<le> MAX_OBJECT_PAYLOAD"
  shows "(ucast (of_nat (length payload) :: u64) :: u32) = of_nat (length payload)"
    and "(ucast (of_nat (length payload) :: u32) :: u64) = of_nat (length payload)"
    and "unat (of_nat (length payload) :: u64) = length payload"
    and "unat (of_nat (length payload) :: u32) = length payload"
  using assms
  by (simp_all add: word_unat_eq_iff unat_of_nat unsigned_ucast_eq take_bit_eq_mod MAX_OBJECT_PAYLOAD_def)

text \<open>The first sector of a written record decodes to its entry.\<close>

lemma decode_record:
  assumes "length hash = 32" and "length payload \<le> MAX_OBJECT_PAYLOAD"
    and "length payload + 64 \<le> unat sectors * 512"
  shows "decode_record_header (slice 0 512 (record_bytes t payload hash sectors)) =
    Inr \<lparr>en_hash = hash, en_obj_type = t, en_payload_len = of_nat (length payload), en_lba = 0\<rparr>"
proof -
  have "\<not> (of_nat (length payload) :: u64) > of_nat MAX_OBJECT_PAYLOAD"
    using assms(2) payload_len_u32(3) [OF assms(2)]
    by (simp add: word_less_nat_alt MAX_OBJECT_PAYLOAD_def)
  then show ?thesis
    using payload_len_u32(1) [OF assms(2)]
    by (simp add: decode_record_header_def record_layout read_u32_def read_u64_def Let_def
        record_bytes_slice [OF assms(1,3)] record_header_slices [OF assms(1)] del: of_nat_add)
qed

text \<open>
  An image that holds a store, the next record at its append point and the matching superblock in
  the inactive slot opens as the advanced store.
\<close>

lemma plan_put_Inr:
  assumes "plan_put store payload = Inr (sectors, end_lba, next_sequence)"
  shows "length (os_entries store) < MAX_OBJECTS"
    and "record_sectors (of_nat (length payload)) = Inr sectors"
    and "unat end_lba = unat (os_append_lba store) + unat sectors"
    and "end_lba \<le> os_partition_sectors store"
    and "unat next_sequence = unat (os_sequence store) + 1"
  using assms by (auto simp: plan_put_def result_simps checked_simps not_less split: if_splits)

lemma opens_as_advance:
  assumes o: "opens_as part m n active sb es"
    and plan: "plan_put (store_of part n active sb es) payload = Inr (sectors, end_lba, next_sequence)"
    and fresh: "next_sequence \<noteq> - 1"
    and hash: "length hash = 32" and small: "length payload \<le> MAX_OBJECT_PAYLOAD"
    and act: "m' (part_first_lba part + store_slot_lba active) = m (part_first_lba part + store_slot_lba active)"
    and oth: "m' (part_first_lba part + store_slot_lba (store_other active)) =
      encode_superblock \<lparr>sb_sequence = next_sequence, sb_append_lba = end_lba,
        sb_object_count = of_nat (length es + 1)\<rparr> n"
    and rec: "\<And>x. RECORD_AREA_START \<le> x \<Longrightarrow> x < sb_append_lba sb \<Longrightarrow>
      m' (part_first_lba part + x) = m (part_first_lba part + x)"
    and new: "m' (part_first_lba part + sb_append_lba sb) = slice 0 512 (record_bytes t payload hash sectors)"
  shows "open_image part m' =
    Inr (advance (store_of part n active sb es) t payload hash end_lba next_sequence)"
proof -
  let ?first = "part_first_lba part"
  let ?sb = "\<lparr>sb_sequence = next_sequence, sb_append_lba = end_lba, sb_object_count = of_nat (length es + 1)\<rparr>"
  let ?entry = "\<lparr>en_hash = hash, en_obj_type = t, en_payload_len = of_nat (length payload), en_lba = sb_append_lba sb\<rparr>"
  let ?g = "superblock_at m' ?first n"
  note plan' = plan_put_Inr [OF plan, unfolded store_of_def ObjectStore.select_convs]
  have few: "length es < 64" using plan'(1) by (simp add: MAX_OBJECTS_def)
  have cnt: "unat (of_nat (length es + 1) :: u32) = length es + 1"
    using few by (simp add: unat_of_nat take_bit_eq_mod del: of_nat_add of_nat_Suc)
  have le: "sb_append_lba sb \<le> end_lba" "sb_append_lba sb < end_lba"
    using plan'(3) record_sectors_pos [OF plan'(2)] by (simp_all add: word_le_nat_alt word_less_nat_alt)
  have ok: "superblock_ok n ?sb"
    using opens_as_ok(3) [OF o] le(1) plan'(4) fresh few cnt
    by (simp add: superblock_ok_def MAX_OBJECTS_def del: of_nat_add of_nat_Suc)
  have pick: "pick_superblock (?g Store_A) (?g Store_B) = Inr (store_other active, ?sb)"
  proof (rule pick_superblock_wins)
    show "?g (store_other active) = Some ?sb"
      using oth ok by (simp add: superblock_at_def decode_encode_superblock del: of_nat_add of_nat_Suc)
    have "?g active = Some sb" using opens_as_ok(2) [OF o] act by (simp add: superblock_at_def)
    moreover have "store_other (store_other active) = active" by (cases active) simp_all
    ultimately show "sb_sequence s < sb_sequence ?sb" if "?g (store_other (store_other active)) = Some s" for s
      using that plan'(5) by (simp add: word_less_nat_alt)
  qed
  have fit: "length payload + 64 \<le> unat sectors * 512"
    using record_sectors_unat [OF small plan'(2)] by linarith
  have "read_record end_lba (sb_append_lba sb) (length es) (m' (?first + sb_append_lba sb)) =
      Inr (?entry, end_lba)"
    using few plan'(2,3)
    by (simp add: read_record_def new decode_record [OF hash small fit] payload_len_u32(2) [OF small]
        result_simps checked_simps MAX_OBJECTS_def)
  then have "scan image_io ?first end_lba (sb_append_lba sb) es m' = (Inr (es @ [?entry]), m')"
    using le(2) by (simp add: scan_image)
  moreover have "scan image_io ?first end_lba RECORD_AREA_START [] m' =
      scan image_io ?first end_lba (sb_append_lba sb) es m'"
    using o rec le(1) opens_as_ok(3) [OF o] by (intro scan_extend) (auto simp: opens_as_def)
  ultimately have "opens_as part m' n (store_other active) ?sb (es @ [?entry])"
    using o pick cnt by (simp add: opens_as_def del: of_nat_add of_nat_Suc)
  then show ?thesis
    by (auto simp: open_image_iff advance_def store_of_def simp del: of_nat_add of_nat_Suc)
qed

section \<open>The store over a device that keeps the interface\<close>

definition run_area :: "u64 \<Rightarrow> nat list \<Rightarrow> u64 set" where
  "run_area base is = (\<lambda>i. base + of_nat i) ` set is"

lemma run_area_front:
  assumes "y < append_lba" and "unat (end_lba :: u64) = unat append_lba + unat sectors"
  shows "first_lba + y \<notin> run_area (first_lba + append_lba) [0..<unat (sectors :: u64)]"
proof
  assume "first_lba + y \<in> run_area (first_lba + append_lba) [0..<unat sectors]"
  then obtain i where i: "i < unat sectors" and y: "y = append_lba + of_nat i"
    by (auto simp: run_area_def add.assoc)
  have "unat append_lba + i < 2 ^ 64"
    using i assms(2) unat_less_u64 [of end_lba] by simp
  then have "unat y = unat append_lba + i"
    using i unat_less_u64 [of sectors] by (simp add: y unat_word_ariths unat_of_nat take_bit_eq_mod)
  with assms(1) show False by (simp add: word_less_nat_alt)
qed

lemma store_slot_front: "RECORD_AREA_START \<le> append_lba \<Longrightarrow> store_slot_lba slot < append_lba"
  by (cases slot) (auto simp: RECORD_AREA_START_def SLOT_A_LBA_def SLOT_B_LBA_def word_le_nat_alt word_less_nat_alt)

lemma store_slot_neq: "store_slot_lba (store_other slot) \<noteq> store_slot_lba slot"
  by (cases slot) (simp_all add: SLOT_A_LBA_def SLOT_B_LBA_def)

lemma record_not_slot: "RECORD_AREA_START \<le> x \<Longrightarrow> x \<noteq> store_slot_lba slot"
  using store_slot_front [of x slot] by auto

text \<open>The bytes of a run of sectors of an image, and the payload an entry names in it.\<close>

definition run_bytes :: "(u64 \<Rightarrow> bytes) \<Rightarrow> u64 \<Rightarrow> nat \<Rightarrow> bytes" where
  "run_bytes m base k = concat (map (\<lambda>i. m (base + of_nat i)) [0..<k])"

lemma concat_sectors:
  "k * 512 \<le> length bs \<Longrightarrow> concat (map (\<lambda>i. slice (i * 512) (i * 512 + 512) bs) [0..<k]) = slice 0 (k * 512) bs"
proof (induction k)
  case (Suc k)
  then show ?case using slice_split [of 0 "k * 512" "k * 512 + 512" bs] by (simp add: add.commute)
qed (simp add: slice_def)

lemma record_payload:
  assumes "length hash = 32" and "length payload + 64 \<le> unat sectors * 512"
  shows "slice 64 (64 + length payload) (record_bytes t payload hash sectors) = payload"
  using assms
  by (simp add: record_bytes_def RECORD_HEADER_def SECTOR_SIZE_def length_encode_record_header slice_splice_same)

locale store_device = block_device rd wr fl view surv torn
  for rd :: "u64 \<Rightarrow> ('d, IoError, bytes) sres" and wr and fl and view and surv and torn
begin

lemma scan_sim:
  "scan \<lparr>io_read = rd, io_write = wr, io_flush = fl\<rparr> first_lba append_lba lba es d = (Inr es', d') \<Longrightarrow>
   scan image_io first_lba append_lba lba es (view d) = (Inr es', view d) \<and> view d' = view d"
proof (induction "\<lparr>io_read = rd, io_write = wr, io_flush = fl\<rparr>" first_lba append_lba lba es d
    rule: scan.induct)
  case (1 first_lba append_lba lba es d)
  show ?case
  proof (cases "lba < append_lba")
    case False
    then show ?thesis using "1.prems" by (simp add: scan.simps)
  next
    case True
    with "1.prems" obtain sector d1 entry end_lba where
      rd1: "rd (first_lba + lba) d = (Inr sector, d1)"
      and rr: "read_record append_lba lba (length es) sector = Inr (entry, end_lba)"
      and rest: "scan \<lparr>io_read = rd, io_write = wr, io_flush = fl\<rparr> first_lba append_lba end_lba
        (es @ [entry]) d1 = (Inr es', d')"
      by (subst (asm) scan.simps) (auto split: prod.splits sum.splits)
    have view: "sector = view d (first_lba + lba)" "view d1 = view d"
      using rd_ok [OF rd1] rd_view [OF rd1] by simp_all
    have "scan image_io first_lba append_lba end_lba (es @ [entry]) (view d1) = (Inr es', view d1) \<and>
        view d' = view d1"
      using "1.hyps" [OF True, of "Inr sector" d1 sector "(entry, end_lba)" entry end_lba] rd1 rr rest
      by simp
    then show ?thesis
      using True rr view by (simp add: scan_image [of first_lba append_lba lba])
  qed
qed

lemma open_sim:
  assumes "open_store \<lparr>io_read = rd, io_write = wr, io_flush = fl\<rparr> part d = (Inr st, d')"
  shows "open_image part (view d) = Inr st" and "view d' = view d"
proof -
  let ?first = "part_first_lba part"
  from assms obtain n a b d1 d2 active sb es where n: "partition_size part = Some n" "\<not> n < RECORD_AREA_START + 1"
    and a: "rd (?first + SLOT_A_LBA) d = (Inr a, d1)" and b: "rd (?first + SLOT_B_LBA) d1 = (Inr b, d2)"
    and pick: "pick_superblock (to_option (decode_superblock a n)) (to_option (decode_superblock b n)) = Inr (active, sb)"
    and sc: "scan \<lparr>io_read = rd, io_write = wr, io_flush = fl\<rparr> ?first (sb_append_lba sb) RECORD_AREA_START [] d2 = (Inr es, d')"
    and c: "length es = unat (sb_object_count sb)" and st: "st = store_of part n active sb es"
    by (auto simp: open_store_def result_simps store_of_def simp flip: partition_size_def split: if_splits)
  have v: "a = view d (?first + SLOT_A_LBA)" "b = view d (?first + SLOT_B_LBA)" "view d2 = view d"
    using rd_ok [OF a] rd_ok [OF b] rd_view [OF a] rd_view [OF b] by simp_all
  show "view d' = view d" using scan_sim [OF sc] v(3) by simp
  have "opens_as part (view d) n active sb es"
    using n pick scan_sim [OF sc] c v by (simp add: opens_as_def superblock_at_def)
  then show "open_image part (view d) = Inr st" using st by (auto simp: open_image_iff)
qed

lemma write_run_confined:
  "(\<And>i. i \<in> set is \<Longrightarrow> new (base + of_nat i) = UNIV) \<Longrightarrow>
   keeps (confined view surv torn new)
     (write_run \<lparr>io_read = rd, io_write = wr, io_flush = fl\<rparr> base bs is)"
proof (induction "is")
  case Nil
  then show ?case by (simp add: keeps_Pair confined_refl)
next
  case (Cons i "is")
  then show ?case
    by (auto simp: Let_def intro!: keeps_bind keeps_map_err wr_confined)
qed

lemma write_run_view:
  "write_run \<lparr>io_read = rd, io_write = wr, io_flush = fl\<rparr> base bs is d = (Inr u, d') \<Longrightarrow>
   distinct (map (\<lambda>i. base + of_nat i) is) \<Longrightarrow> i \<in> set is \<Longrightarrow>
   view d' (base + of_nat i) = slice (i * SECTOR_SIZE) (i * SECTOR_SIZE + SECTOR_SIZE) bs"
proof (induction "is" arbitrary: d)
  case (Cons j "is")
  from Cons.prems(1) obtain v d1 where w: "wr (base + of_nat j) (slice (j * SECTOR_SIZE) (j * SECTOR_SIZE + SECTOR_SIZE) bs) d = (Inr v, d1)"
    and rest: "write_run \<lparr>io_read = rd, io_write = wr, io_flush = fl\<rparr> base bs is d1 = (Inr u, d')"
    by (auto simp: Let_def result_simps)
  show ?case
  proof (cases "i \<in> set is")
    case True
    then show ?thesis using Cons.IH [OF rest] Cons.prems(2) by simp
  next
    case False
    then have i: "i = j" using Cons.prems(3) by simp
    let ?new = "\<lambda>x. if x \<in> run_area base is then UNIV else {} :: bytes set"
    have c: "confined view surv torn ?new d1 d'"
      using write_run_confined [of "is" ?new base bs] rest
      by (auto simp: run_area_def intro: keepsD)
    have "base + of_nat j \<notin> run_area base is"
      using Cons.prems(2) by (auto simp: run_area_def)
    then have "view d' (base + of_nat j) = view d1 (base + of_nat j)"
      by (intro confined_outside(1) [OF c]) simp
    then show ?thesis using wr_ok [OF w] i by simp
  qed
qed simp

lemma write_record_confined:
  assumes "\<And>i. i < unat sectors \<Longrightarrow> new (os_first_lba store + os_append_lba store + of_nat i) = UNIV"
  shows "keeps (confined view surv torn new)
    (write_record \<lparr>io_read = rd, io_write = wr, io_flush = fl\<rparr> store t payload hash sectors)"
  unfolding write_record_def
  using assms by (intro keeps_bind keeps_map_err write_run_confined) (auto intro: fl_confined)

lemma write_record_ok:
  assumes "write_record \<lparr>io_read = rd, io_write = wr, io_flush = fl\<rparr> store t payload hash sectors d = (Inr u, d')"
  shows "i < unat sectors \<Longrightarrow> view d' (os_first_lba store + os_append_lba store + of_nat i) =
      slice (i * 512) (i * 512 + 512) (record_bytes t payload hash sectors)"
    and "surv d' x = {view d' x}"
proof -
  from assms(1) obtain v d1 where
    w: "write_run \<lparr>io_read = rd, io_write = wr, io_flush = fl\<rparr> (os_first_lba store + os_append_lba store)
      (record_bytes t payload hash sectors) [0..<unat sectors] d = (Inr v, d1)"
    and f: "fl d1 = (Inr u, d')"
    by (auto simp: write_record_def result_simps)
  have "inj_on (\<lambda>i. of_nat i :: u64) {0..<unat sectors}"
  proof (rule inj_onI)
    fix i j
    assume "i \<in> {0..<unat sectors}" and "j \<in> {0..<unat sectors}" and "(of_nat i :: u64) = of_nat j"
    moreover have "unat (of_nat k :: u64) = k" if "k < unat sectors" for k
      using that unat_less_u64 [of sectors] by (simp add: unat_of_nat take_bit_eq_mod)
    ultimately show "i = j" by (metis atLeastLessThan_iff)
  qed
  then have "distinct (map (\<lambda>i. os_first_lba store + os_append_lba store + of_nat i) [0..<unat sectors])"
    by (auto simp: distinct_map inj_on_def)
  from write_run_view [OF w this, of i]
  show "view d' (os_first_lba store + os_append_lba store + of_nat i) =
      slice (i * 512) (i * 512 + 512) (record_bytes t payload hash sectors)" if "i < unat sectors"
    using fl_view [OF f] that by (simp add: SECTOR_SIZE_def)
  show "surv d' x = {view d' x}"
    using fl_ok [OF f] fl_view [OF f] by simp
qed

text \<open>
  A fresh append either stops before the superblock is written, or has made the record durable
  before it touches the inactive slot.
\<close>

lemma put_phases:
  assumes small: "length payload \<le> MAX_OBJECT_PAYLOAD"
    and absent: "find (\<lambda>entry. en_hash entry = sha payload) (os_entries store) = None"
    and plan: "plan_put store payload = Inr (sectors, end_lba, next_sequence)"
    and run: "put sha \<lparr>io_read = rd, io_write = wr, io_flush = fl\<rparr> obj_type payload (store, d) = (r, store', d')"
  obtains (early) e where "r = Inl e" and "store' = store"
      and "write_record \<lparr>io_read = rd, io_write = wr, io_flush = fl\<rparr> store obj_type payload (sha payload) sectors d = (Inl e, d')"
  | (failed) e d1 d2 u where "r = Inl (Io e)" and "store' = store" and "d' = d2"
      and "write_record \<lparr>io_read = rd, io_write = wr, io_flush = fl\<rparr> store obj_type payload (sha payload) sectors d = (Inr u, d1)"
      and "wr (os_first_lba store + store_slot_lba (store_other (os_active store)))
             (next_superblock store end_lba next_sequence) d1 = (Inl e, d2)"
  | (late) d1 d2 u v q where "store' = advance store obj_type payload (sha payload) end_lba next_sequence"
      and "write_record \<lparr>io_read = rd, io_write = wr, io_flush = fl\<rparr> store obj_type payload (sha payload) sectors d = (Inr u, d1)"
      and "wr (os_first_lba store + store_slot_lba (store_other (os_active store)))
             (next_superblock store end_lba next_sequence) d1 = (Inr v, d2)"
      and "fl d2 = (q, d')" and "r = map_sum Io (\<lambda>_. sha payload) q"
proof -
  let ?io = "\<lparr>io_read = rd, io_write = wr, io_flush = fl\<rparr>"
  obtain r1 d1 where r1: "write_record ?io store obj_type payload (sha payload) sectors d = (r1, d1)"
    by fastforce
  obtain r2 d2 where r2: "wr (os_first_lba store + store_slot_lba (store_other (os_active store)))
      (next_superblock store end_lba next_sequence) d1 = (r2, d2)" by fastforce
  obtain r3 d3 where r3: "fl d2 = (r3, d3)" by fastforce
  show thesis
    using run small absent plan r1 r2 r3 early failed late
    by (cases r1; cases r2; cases r3)
      (auto simp: put_def sbind_def smap_err_def write_superblock_def not_less Let_def)
qed

lemma read_run_confined:
  "keeps (confined view surv torn new) (read_run \<lparr>io_read = rd, io_write = wr, io_flush = fl\<rparr> base is acc)"
  by (induction "is" arbitrary: acc)
    (auto intro!: keeps_bind keeps_map_err keeps_Pair rd_confined)

lemma read_payload_confined:
  "keeps (confined view surv torn new) (read_payload \<lparr>io_read = rd, io_write = wr, io_flush = fl\<rparr> store entry)"
  unfolding read_payload_def
  by (intro keeps_bind keeps_lift read_run_confined keeps_return confined_trans confined_refl)

lemma put_cases:
  assumes "put sha \<lparr>io_read = rd, io_write = wr, io_flush = fl\<rparr> obj_type payload (store, d) = (r, store', d')"
  obtains (quiet) "store' = store" and "\<And>x. surv d' x \<subseteq> surv d x" and "view d' = view d"
  | (fresh) sectors end_lba next_sequence where "length payload \<le> MAX_OBJECT_PAYLOAD"
      and "find (\<lambda>entry. en_hash entry = sha payload) (os_entries store) = None"
      and "plan_put store payload = Inr (sectors, end_lba, next_sequence)"
proof -
  let ?io = "\<lparr>io_read = rd, io_write = wr, io_flush = fl\<rparr>"
  let ?found = "find (\<lambda>entry. en_hash entry = sha payload) (os_entries store)"
  have still: thesis if "store' = store" and "confined view surv torn (\<lambda>_. {}) d d'"
    using quiet that confined_outside [of view surv torn "\<lambda>_. {}" d d'] by (simp add: fun_eq_iff)
  consider "\<not> length payload \<le> MAX_OBJECT_PAYLOAD" | entry where "length payload \<le> MAX_OBJECT_PAYLOAD" "?found = Some entry"
    | e where "length payload \<le> MAX_OBJECT_PAYLOAD" "?found = None" "plan_put store payload = Inl e"
    | p where "length payload \<le> MAX_OBJECT_PAYLOAD" "?found = None" "plan_put store payload = Inr p"
    by (cases ?found; cases "plan_put store payload"; blast)
  then show thesis
  proof cases
    case 1
    then show thesis using assms by (intro still) (auto simp: put_def confined_same)
  next
    case 2
    obtain q d1 where q: "read_payload ?io store entry d = (q, d1)" by fastforce
    then have "store' = store \<and> d' = d1"
      using assms 2 by (cases q) (simp_all add: put_def Let_def)
    moreover have "confined view surv torn (\<lambda>_. {}) d d1"
      using read_payload_confined q by (rule keepsD)
    ultimately show thesis using still by blast
  next
    case 3
    then show thesis using assms by (intro still) (auto simp: put_def confined_same)
  next
    case 4
    then show thesis using fresh by (metis prod_cases3)
  qed
qed

text \<open>Below the append point, an image surviving a fresh append differs at most in the inactive slot.\<close>

lemma fresh_put_below:
  assumes o: "opens_as part (view d) n active sb es" and store: "store = store_of part n active sb es"
    and plan: "plan_put store payload = Inr (sectors, end_lba, next_sequence)"
    and rec: "write_record \<lparr>io_read = rd, io_write = wr, io_flush = fl\<rparr> store obj_type payload hash sectors d = (Inr u, d1)"
    and c2: "confined view surv torn ((\<lambda>_. {})(part_first_lba part + store_slot_lba (store_other active) := new)) d1 d'"
    and image: "\<And>x. m x \<in> surv d' x"
    and y: "y < sb_append_lba sb" "y \<noteq> store_slot_lba (store_other active)"
  shows "m (part_first_lba part + y) = view d (part_first_lba part + y)"
proof -
  let ?first = "part_first_lba part" and ?app = "sb_append_lba sb"
  let ?area = "run_area (?first + ?app) [0..<unat sectors]"
  let ?new = "\<lambda>x. if x \<in> ?area then UNIV else {} :: bytes set"
  have f: "os_first_lba store = ?first" "os_append_lba store = ?app"
    by (simp_all add: store store_of_def)
  have "?first + y \<notin> ?area"
    using run_area_front [OF y(1), of end_lba sectors ?first] plan_put_Inr(3) [OF plan] f by simp
  moreover have c1: "confined view surv torn ?new d d1"
    using write_record_confined [of sectors ?new store obj_type payload hash] rec
    by (auto simp: f run_area_def intro: keepsD)
  ultimately have "view d1 (?first + y) = view d (?first + y)"
    by (intro confined_outside(1) [OF c1]) simp
  moreover have "m (?first + y) = view d1 (?first + y)"
    using confined_outside(2) [OF c2, of "?first + y"] y(2) image [of "?first + y"]
      write_record_ok(2) [OF rec, of "?first + y"] by auto
  ultimately show ?thesis by simp
qed

text \<open>Every image that may survive the writes of a fresh append.\<close>

lemma fresh_put_image:
  assumes sha: "\<And>m. length (sha m) = 32"
    and o: "opens_as part (view d) n active sb es" and store: "store = store_of part n active sb es"
    and durable: "\<And>x. surv d x = {view d x}"
    and torn: "\<forall>t\<in>torn d. \<exists>e. decode_superblock t n = Inl e"
    and small: "length payload \<le> MAX_OBJECT_PAYLOAD"
    and plan: "plan_put store payload = Inr (sectors, end_lba, next_sequence)"
    and fresh: "next_sequence \<noteq> - 1"
    and rec: "write_record \<lparr>io_read = rd, io_write = wr, io_flush = fl\<rparr> store obj_type payload (sha payload) sectors d = (q, d1)"
  shows "\<lbrakk>q = Inl e; \<And>x. m x \<in> surv d1 x\<rbrakk> \<Longrightarrow> open_image part m = Inr store"
    and "\<lbrakk>q = Inr u;
      confined view surv torn ((\<lambda>_. {})(os_first_lba store + store_slot_lba (store_other active) :=
        {next_superblock store end_lba next_sequence})) d1 d'; \<And>x. m x \<in> surv d' x\<rbrakk> \<Longrightarrow>
      open_image part m = Inr store \<or>
      open_image part m = Inr (advance store obj_type payload (sha payload) end_lba next_sequence)"
    and "\<lbrakk>q = Inr u;
      confined view surv torn ((\<lambda>_. {})(os_first_lba store + store_slot_lba (store_other active) :=
        {next_superblock store end_lba next_sequence})) d1 d'; \<And>x. m x \<in> surv d' x;
      m (os_first_lba store + store_slot_lba (store_other active)) = next_superblock store end_lba next_sequence\<rbrakk> \<Longrightarrow>
      open_image part m = Inr (advance store obj_type payload (sha payload) end_lba next_sequence)"
proof -
  let ?first = "part_first_lba part" and ?app = "sb_append_lba sb"
  let ?T = "os_first_lba store + store_slot_lba (store_other active)"
  let ?area = "run_area (?first + ?app) [0..<unat sectors]"
  let ?new = "\<lambda>x. if x \<in> ?area then UNIV else {} :: bytes set"
  have f [simp]: "os_first_lba store = ?first" "os_append_lba store = ?app" "os_entries store = es"
    "os_partition_sectors store = n"
    by (simp_all add: store store_of_def)
  note plan' = plan_put_Inr [OF plan]
  have front: "y < ?app \<Longrightarrow> ?first + y \<notin> ?area" for y
    using run_area_front [of y ?app end_lba sectors ?first] plan'(3) by simp
  have slot: "store_slot_lba s < ?app" for s by (rule store_slot_front [OF opens_as_ok(3) [OF o]])
  have c1: "confined view surv torn ?new d d1"
    using write_record_confined [of sectors ?new store obj_type payload "sha payload"] rec
    by (auto simp: run_area_def intro: keepsD)
  have v1: "view d1 (?first + y) = view d (?first + y)" "surv d1 (?first + y) \<subseteq> {view d (?first + y)}"
    if "y < ?app" for y
    using confined_outside [OF c1, of "?first + y"] front [OF that] durable by auto
  show "open_image part m = Inr store" if "q = Inl e" and "\<And>x. m x \<in> surv d1 x"
  proof -
    have "m (?first + y) = view d (?first + y)" if "y < ?app" for y
      using v1(2) [OF that] \<open>\<And>x. m x \<in> surv d1 x\<close> by blast
    then have "opens_as part m n active sb es"
      using slot by (intro opens_as_frame [OF o]) auto
    then show ?thesis by (auto simp: open_image_iff store)
  qed
  assume q: "q = Inr u" and c2: "confined view surv torn ((\<lambda>_. {})(?T := {next_superblock store end_lba next_sequence})) d1 d'"
    and image: "\<And>x. m x \<in> surv d' x"
  have pos: "0 < unat sectors" by (rule record_sectors_pos [OF plan'(2)])
  note ok = write_record_ok [OF rec [unfolded q], unfolded f]
  have mx: "m x = view d1 x" if "x \<noteq> ?T" for x
    using confined_outside(2) [OF c2, of x] that image [of x] ok(2) [of x] by auto
  have below: "m (?first + y) = view d (?first + y)" if "y < ?app" and "y \<noteq> store_slot_lba (store_other active)" for y
    using fresh_put_below [OF o store plan rec [unfolded q] c2 [unfolded f(1)] image that] .
  have "?app \<noteq> store_slot_lba (store_other active)" using slot [of "store_other active"] by auto
  then have head: "m (?first + ?app) = slice 0 512 (record_bytes obj_type payload (sha payload) sectors)"
    using mx [of "?first + ?app"] ok(1) [of 0] pos by simp
  show new: "open_image part m = Inr (advance store obj_type payload (sha payload) end_lba next_sequence)"
    if "m ?T = next_superblock store end_lba next_sequence"
    unfolding store
    using plan fresh sha small that below [OF slot [of active]] store_slot_neq [of active]
      below record_not_slot [of _ "store_other active"] head
    by (intro opens_as_advance [OF o]) (auto simp: store next_superblock_def store_of_def)
  have "m ?T \<in> surv d1 ?T \<union> {next_superblock store end_lba next_sequence} \<union> torn d1"
    using confined_inside [OF c2 image [of ?T]] by simp
  then consider "m ?T = next_superblock store end_lba next_sequence" | "m ?T = view d ?T" | "m ?T \<in> torn d"
    using v1(2) [OF slot [of "store_other active"]] confined_torn [OF c1] by auto
  then show "open_image part m = Inr store \<or>
      open_image part m = Inr (advance store obj_type payload (sha payload) end_lba next_sequence)"
  proof cases
    case 1
    then show ?thesis using new by blast
  next
    case 2
    then have "opens_as part m n active sb es"
      using below slot store_slot_neq [of active] record_not_slot [of _ "store_other active"]
      by (intro opens_as_frame [OF o]) auto
    then show ?thesis by (auto simp: open_image_iff store)
  next
    case 3
    then have "superblock_at m ?first n (store_other active) = None"
      using torn by (fastforce simp: superblock_at_def to_option_def)
    then have "opens_as part m n active sb es"
      using below slot store_slot_neq [of active] record_not_slot [of _ "store_other active"]
      by (intro opens_as_frame [OF o]) auto
    then show ?thesis by (auto simp: open_image_iff store)
  qed
qed

lemma put_image:
  assumes sha: "\<And>m. length (sha m) = 32"
    and o: "open_image part (view d) = Inr store"
    and durable: "\<And>x. surv d x = {view d x}"
    and torn: "\<And>t. t \<in> torn d \<Longrightarrow> \<exists>e. decode_superblock t (os_partition_sectors store) = Inl e"
    and fresh: "os_sequence store \<noteq> - 2"
    and run: "put sha \<lparr>io_read = rd, io_write = wr, io_flush = fl\<rparr> obj_type payload (store, d) = (r, store', d')"
    and image: "\<And>x. m x \<in> surv d' x"
  shows "open_image part m = Inr store \<or>
    (\<exists>end_lba next_sequence. open_image part m =
       Inr (advance store obj_type payload (sha payload) end_lba next_sequence))"
    and "r = Inr h \<Longrightarrow> open_image part m = Inr store'"
proof -
  from o obtain n active sb es where oa: "opens_as part (view d) n active sb es"
    and store: "store = store_of part n active sb es" by (auto simp: open_image_iff)
  have torn': "\<forall>t\<in>torn d. \<exists>e. decode_superblock t n = Inl e"
    using torn by (simp add: store store_of_def)
  have act: "os_active store = active" by (simp add: store store_of_def)
  have "(open_image part m = Inr store \<or> (\<exists>end_lba next_sequence. open_image part m =
       Inr (advance store obj_type payload (sha payload) end_lba next_sequence))) \<and>
     (r = Inr h \<longrightarrow> open_image part m = Inr store')"
    using run
  proof (cases rule: put_cases)
    case quiet
    have "m = view d" using quiet(2) durable image by (metis ext singletonD subsetD)
    then show ?thesis using o quiet(1) by simp
  next
    case (fresh sectors end_lba next_sequence)
    have "next_sequence \<noteq> - 1"
    proof
      assume "next_sequence = - 1"
      then have "unat (os_sequence store) = unat (- 2 :: u64)"
        using plan_put_Inr(5) [OF fresh(3)] by (simp add: unsigned_minus_1_eq_mask mask_eq_exp_minus_1)
      then have "os_sequence store = - 2" by (simp only: word_unat_eq_iff)
      then show False using \<open>os_sequence store \<noteq> - 2\<close> by blast
    qed
    note img = fresh_put_image [of sha, OF sha oa store durable torn' fresh(1,3) this]
    from fresh run show ?thesis
    proof (cases rule: put_phases)
      case (early e)
      then show ?thesis using img(1) image by blast
    next
      case (failed e d1 d2 u)
      have "confined view surv torn ((\<lambda>_. {})(os_first_lba store + store_slot_lba (store_other active) :=
          {next_superblock store end_lba next_sequence})) d1 d'"
        using keepsD [OF wr_confined failed(5)] failed(3) act by simp
      then show ?thesis using img(2) [OF failed(4)] image failed(1) by blast
    next
      case (late d1 d2 u v q)
      let ?T = "os_first_lba store + store_slot_lba (store_other active)"
      let ?new = "(\<lambda>_. {})(?T := {next_superblock store end_lba next_sequence})"
      have "confined view surv torn ?new d1 d2"
        using keepsD [OF wr_confined late(3)] act by simp
      moreover have "confined view surv torn ?new d2 d'" by (rule keepsD [OF fl_confined late(4)])
      ultimately have c: "confined view surv torn ?new d1 d'" by (rule transpD [OF confined_trans])
      have "m ?T = next_superblock store end_lba next_sequence" if ok: "r = Inr h"
      proof -
        obtain w where "fl d2 = (Inr w, d')" using late(4,5) ok by (cases q) auto
        then have "surv d' ?T = {view d2 ?T}" by (rule fl_ok)
        then show ?thesis using wr_ok [OF late(3)] act image [of ?T] by simp
      qed
      then show ?thesis using img(2,3) [OF late(2) _ c] image late(1) by blast
    qed
  qed
  then show "open_image part m = Inr store \<or> (\<exists>end_lba next_sequence. open_image part m =
       Inr (advance store obj_type payload (sha payload) end_lba next_sequence))"
    and "r = Inr h \<Longrightarrow> open_image part m = Inr store'" by blast+
qed

lemma read_run_view:
  "read_run \<lparr>io_read = rd, io_write = wr, io_flush = fl\<rparr> base is acc d = (Inr bs, d') \<Longrightarrow>
   bs = acc @ concat (map (\<lambda>i. view d (base + of_nat i)) is) \<and> view d' = view d"
proof (induction "is" arbitrary: acc d)
  case (Cons i "is")
  then obtain sector d1 where r: "rd (base + of_nat i) d = (Inr sector, d1)"
    and rest: "read_run \<lparr>io_read = rd, io_write = wr, io_flush = fl\<rparr> base is (acc @ sector) d1 = (Inr bs, d')"
    by (auto simp: result_simps)
  show ?case using Cons.IH [OF rest] rd_ok [OF r] rd_view [OF r] by simp
qed simp

lemma read_payload_view:
  assumes "read_payload \<lparr>io_read = rd, io_write = wr, io_flush = fl\<rparr> store entry d = (Inr p, d')"
  obtains sectors where "record_sectors (ucast (en_payload_len entry)) = Inr sectors"
    and "p = slice 64 (64 + unat (en_payload_len entry)) (run_bytes (view d) (os_first_lba store + en_lba entry) (unat sectors))"
  using assms read_run_view
  by (fastforce simp: read_payload_def result_simps run_bytes_def RECORD_HEADER_def)

lemma get_Inr:
  assumes "get sha \<lparr>io_read = rd, io_write = wr, io_flush = fl\<rparr> store hash out d = (Inr (t, len, out'), d')"
  obtains entry p where "find (\<lambda>entry. en_hash entry = hash) (os_entries store) = Some entry"
    and "len = unat (en_payload_len entry)" and "t = en_obj_type entry" and "sha p = hash"
    and "out' = splice 0 p out" and "len \<le> length out"
    and "read_payload \<lparr>io_read = rd, io_write = wr, io_flush = fl\<rparr> store entry d = (Inr p, d')"
  using assms by (auto simp: get_def result_simps Let_def split: if_splits)

lemma fresh_put_record:
  assumes plan: "plan_put store payload = Inr (sectors, end_lba, next_sequence)"
    and start: "RECORD_AREA_START \<le> os_append_lba store"
    and absent: "find (\<lambda>entry. en_hash entry = sha payload) (os_entries store) = None"
    and small: "length payload \<le> MAX_OBJECT_PAYLOAD"
    and run: "put sha \<lparr>io_read = rd, io_write = wr, io_flush = fl\<rparr> t payload (store, d) = (Inr h, store', d')"
  shows "h = sha payload" and "store' = advance store t payload (sha payload) end_lba next_sequence"
    and "i < unat sectors \<Longrightarrow> view d' (os_first_lba store + os_append_lba store + of_nat i) =
      slice (i * 512) (i * 512 + 512) (record_bytes t payload (sha payload) sectors)"
proof -
  let ?T = "os_first_lba store + store_slot_lba (store_other (os_active store))"
  from small absent plan run have "h = sha payload \<and>
      store' = advance store t payload (sha payload) end_lba next_sequence \<and>
      (i < unat sectors \<longrightarrow> view d' (os_first_lba store + os_append_lba store + of_nat i) =
        slice (i * 512) (i * 512 + 512) (record_bytes t payload (sha payload) sectors))"
  proof (cases rule: put_phases)
    case (late d1 d2 u v q)
    have "view d' (os_first_lba store + os_append_lba store + of_nat i) =
        view d1 (os_first_lba store + os_append_lba store + of_nat i)" if i: "i < unat sectors"
    proof -
      have "?T \<notin> run_area (os_first_lba store + os_append_lba store) [0..<unat sectors]"
        using plan_put_Inr(3) [OF plan] store_slot_front [OF start] by (intro run_area_front)
      moreover have "os_first_lba store + os_append_lba store + of_nat i \<in>
          run_area (os_first_lba store + os_append_lba store) [0..<unat sectors]"
        using i by (simp add: run_area_def)
      ultimately have "os_first_lba store + os_append_lba store + of_nat i \<noteq> ?T" by metis
      then show ?thesis using wr_frame [OF late(3)] fl_view [OF late(4)] by simp
    qed
    then show ?thesis using late write_record_ok(1) [OF late(2)] by (cases q) auto
  qed auto
  then show "h = sha payload" and "store' = advance store t payload (sha payload) end_lba next_sequence"
    and "i < unat sectors \<Longrightarrow> view d' (os_first_lba store + os_append_lba store + of_nat i) =
      slice (i * 512) (i * 512 + 512) (record_bytes t payload (sha payload) sectors)" by blast+
qed

lemma find_append_None: "find P xs = None \<Longrightarrow> find P (xs @ ys) = find P ys"
  by (induction xs) (auto split: if_splits)

lemma put_read_payload:
  assumes sha: "\<And>m. length (sha m) = 32"
    and start: "RECORD_AREA_START \<le> os_append_lba store"
    and put: "put sha \<lparr>io_read = rd, io_write = wr, io_flush = fl\<rparr> obj_type payload (store, d) = (Inr h, store', d')"
    and fresh: "find (\<lambda>entry. en_hash entry = sha payload) (os_entries store) = None"
  obtains entry where "find (\<lambda>entry. en_hash entry = h) (os_entries store') = Some entry"
    and "en_obj_type entry = obj_type" and "unat (en_payload_len entry) = length payload" and "h = sha payload"
    and "\<And>p d''. read_payload \<lparr>io_read = rd, io_write = wr, io_flush = fl\<rparr> store' entry d' = (Inr p, d'') \<Longrightarrow> p = payload"
proof -
  let ?io = "\<lparr>io_read = rd, io_write = wr, io_flush = fl\<rparr>"
  have "\<not> MAX_OBJECT_PAYLOAD < length payload" using put by (auto simp: put_def)
  then have small: "length payload \<le> MAX_OBJECT_PAYLOAD" by simp
  obtain sectors end_lba next_sequence where
    plan: "plan_put store payload = Inr (sectors, end_lba, next_sequence)"
    using put fresh small by (cases "plan_put store payload") (auto simp: put_def Let_def)
  note rec = fresh_put_record [OF plan start fresh small put]
  let ?entry = "\<lparr>en_hash = sha payload, en_obj_type = obj_type,
      en_payload_len = of_nat (length payload), en_lba = os_append_lba store\<rparr>"
  have fit: "length payload + 64 \<le> unat sectors * 512"
    using record_sectors_unat [OF small plan_put_Inr(2) [OF plan]] by linarith
  have "run_bytes (view d') (os_first_lba store + os_append_lba store) (unat sectors) =
      concat (map (\<lambda>i. slice (i * 512) (i * 512 + 512) (record_bytes obj_type payload (sha payload) sectors)) [0..<unat sectors])"
    unfolding run_bytes_def by (intro arg_cong [where f = concat] map_cong refl) (simp add: rec(3))
  then have run: "run_bytes (view d') (os_first_lba store + os_append_lba store) (unat sectors) =
      record_bytes obj_type payload (sha payload) sectors"
    using record_bytes_length [OF sha fit] by (simp add: concat_sectors slice_all)
  show thesis
  proof (rule that [of ?entry])
    show "find (\<lambda>entry. en_hash entry = h) (os_entries store') = Some ?entry"
      using fresh by (simp add: rec(1,2) advance_def find_append_None)
    fix p d''
    assume rp: "read_payload ?io store' ?entry d' = (Inr p, d'')"
    from rp obtain sectors' where s': "record_sectors (of_nat (length payload)) = Inr sectors'"
      and p: "p = slice 64 (64 + length payload) (run_bytes (view d') (os_first_lba store + os_append_lba store) (unat sectors'))"
      by (rule read_payload_view)
        (use payload_len_u32 [OF small] in \<open>simp add: rec(2) advance_def\<close>)
    then show "p = payload"
      using plan_put_Inr(2) [OF plan] run record_payload [OF sha fit] by simp
  qed (simp_all add: rec(1) payload_len_u32(4) [OF small])
qed

lemma put_get_payload:
  assumes sha: "\<And>m. length (sha m) = 32"
    and start: "RECORD_AREA_START \<le> os_append_lba store"
    and put: "put sha \<lparr>io_read = rd, io_write = wr, io_flush = fl\<rparr> obj_type payload (store, d) = (Inr h, store', d')"
    and get: "get sha \<lparr>io_read = rd, io_write = wr, io_flush = fl\<rparr> store' h out d' = (Inr (t, len, out'), d'')"
    and fresh: "find (\<lambda>entry. en_hash entry = sha payload) (os_entries store) = None"
  shows "t = obj_type" and "len = length payload" and "take len out' = payload"
proof -
  obtain entry where entry: "find (\<lambda>entry. en_hash entry = h) (os_entries store') = Some entry"
    "en_obj_type entry = obj_type" "unat (en_payload_len entry) = length payload"
    and rp: "\<And>p d''. read_payload \<lparr>io_read = rd, io_write = wr, io_flush = fl\<rparr> store' entry d' = (Inr p, d'') \<Longrightarrow> p = payload"
    using put_read_payload [of sha, OF sha start put fresh] by metis
  from get obtain p where "len = unat (en_payload_len entry)" "t = en_obj_type entry"
    "out' = splice 0 p out" "len \<le> length out"
    "read_payload \<lparr>io_read = rd, io_write = wr, io_flush = fl\<rparr> store' entry d' = (Inr p, d'')"
    by (rule get_Inr) (use entry(1) in simp)
  with entry rp show "t = obj_type" and "len = length payload" and "take len out' = payload"
    by (simp_all add: splice_def)
qed

text \<open>The last sequence number: the append succeeds, and reopening shows the store before it.\<close>

lemma put_last_sequence:
  assumes o: "open_image part (view d) = Inr store" and last: "os_sequence store = - 2"
    and absent: "find (\<lambda>entry. en_hash entry = sha payload) (os_entries store) = None"
    and run: "put sha \<lparr>io_read = rd, io_write = wr, io_flush = fl\<rparr> obj_type payload (store, d) = (Inr h, store', d')"
    and image: "\<And>x. m x \<in> surv d' x"
  shows "open_image part m = Inr store" and "store' \<noteq> store"
proof -
  from o obtain n active sb es where oa: "opens_as part (view d) n active sb es"
    and store: "store = store_of part n active sb es" by (auto simp: open_image_iff)
  have small: "length payload \<le> MAX_OBJECT_PAYLOAD" using run by (auto simp: put_def not_less [symmetric])
  obtain sectors end_lba next_sequence where
    plan: "plan_put store payload = Inr (sectors, end_lba, next_sequence)"
    using run absent small by (cases "plan_put store payload") (auto simp: put_def Let_def)
  have next_max: "next_sequence = - 1"
    using plan_put_Inr(5) [OF plan] last
    by (simp add: word_unat_eq_iff unsigned_minus_1_eq_mask mask_eq_exp_minus_1)
  let ?T = "part_first_lba part + store_slot_lba (store_other active)"
  let ?new = "(\<lambda>_. {})(?T := {next_superblock store end_lba next_sequence})"
  have f: "os_first_lba store = part_first_lba part" "os_active store = active" "os_partition_sectors store = n"
    by (simp_all add: store store_of_def)
  from small absent plan run obtain d1 d2 u v where
    st': "store' = advance store obj_type payload (sha payload) end_lba next_sequence"
    and rec: "write_record \<lparr>io_read = rd, io_write = wr, io_flush = fl\<rparr> store obj_type payload (sha payload) sectors d = (Inr u, d1)"
    and w: "wr ?T (next_superblock store end_lba next_sequence) d1 = (Inr v, d2)"
    and fl2: "\<exists>w. fl d2 = (Inr w, d')"
  proof (cases rule: put_phases)
    case (late d1 d2 u v q)
    then show thesis using that f by (cases q) auto
  qed auto
  from fl2 obtain w' where fl': "fl d2 = (Inr w', d')" by blast
  have "confined view surv torn ?new d1 d2" by (rule keepsD [OF wr_confined w]) simp
  then have c: "confined view surv torn ?new d1 d'"
    using keepsD [OF fl_confined fl'] by (rule transpD [OF confined_trans])
  have "m ?T = next_superblock store end_lba next_sequence"
    using fl_ok [OF fl', of ?T] wr_ok [OF w] image [of ?T] by simp
  then have "superblock_at m (part_first_lba part) n (store_other active) = None"
    by (simp add: superblock_at_def next_superblock_def f decode_encode_superblock superblock_ok_def
        next_max to_option_def)
  then have "opens_as part m n active sb es"
    using fresh_put_below [OF oa store plan rec c image] store_slot_neq [of active]
      store_slot_front [OF opens_as_ok(3) [OF oa]] record_not_slot [of _ "store_other active"]
    by (intro opens_as_frame [OF oa]) auto
  then show "open_image part m = Inr store" by (auto simp: open_image_iff store)
  show "store' \<noteq> store" by (simp add: st' advance_def) (metis ObjectStore.select_convs(6) ObjectStore.surjective ObjectStore.update_convs(6) append_self_conv not_Cons_self2)
qed

end

section \<open>The store on the virtio driver\<close>

text \<open>The driver as a store device: every transport error is reported as a device error.\<close>

definition virtio_read :: "u64 \<Rightarrow> (VirtioBlock, IoError, bytes) sres" where
  "virtio_read lba = smap_err (\<lambda>_. Io_Device) (read_sector lba)"

definition virtio_write :: "u64 \<Rightarrow> bytes \<Rightarrow> (VirtioBlock, IoError, unit) sres" where
  "virtio_write lba bs = smap_err (\<lambda>_. Io_Device) (write_sector lba bs)"

definition virtio_flush :: "(VirtioBlock, IoError, unit) sres" where
  "virtio_flush = smap_err (\<lambda>_. Io_Device) flush"

definition virtio_io :: "VirtioBlock BlockIo" where
  "virtio_io = \<lparr>io_read = virtio_read, io_write = virtio_write, io_flush = virtio_flush\<rparr>"

lemma smap_err_iff:
  "smap_err f m d = (r, d') \<longleftrightarrow> (\<exists>q. m d = (q, d') \<and> r = map_err f q)"
  by (auto simp: smap_err_def split: prod.splits)

lemma map_err_Inr_sym: "Inr x = map_err f q \<longleftrightarrow> q = Inr x"
  by (cases q) auto

lemmas virtio_ops = virtio_read_def virtio_write_def virtio_flush_def smap_err_iff map_err_Inr_sym

interpretation store_virtio: store_device virtio_read virtio_write virtio_flush contents
  "\<lambda>d x. set (survivors d x)" "\<lambda>d. torn_images (vb_schedule d)"
proof
  fix lba d r d'
  assume "virtio_read lba d = (r, d')"
  then show "contents d' = contents d \<and> (\<lambda>x. set (survivors d' x)) = (\<lambda>x. set (survivors d x)) \<and>
      torn_images (vb_schedule d') \<subseteq> torn_images (vb_schedule d)"
    by (auto simp: virtio_ops dest: virtio.rd_view)
next
  fix lba d bs d'
  assume "virtio_read lba d = (Inr bs, d')"
  then show "bs = contents d lba" by (auto simp: virtio_ops dest: virtio.rd_ok)
next
  fix lba bs d q d' x
  assume "virtio_write lba bs d = (q, d')" and "x \<noteq> lba"
  then show "contents d' x = contents d x \<and> set (survivors d' x) = set (survivors d x)"
    by (auto simp: virtio_ops dest: virtio.wr_frame)
next
  fix lba bs d u d'
  assume "virtio_write lba bs d = (Inr u, d')"
  then show "contents d' lba = bs \<and> set (survivors d' lba) = insert bs (set (survivors d lba))"
    by (auto simp: virtio_ops dest: virtio.wr_ok)
next
  fix lba bs d q d'
  assume w: "virtio_write lba bs d = (q, d')"
  then show "set (survivors d' lba) \<subseteq> insert bs (set (survivors d lba)) \<union> torn_images (vb_schedule d)"
    unfolding virtio_ops using virtio.wr_surv by blast
  from w show "torn_images (vb_schedule d') \<subseteq> torn_images (vb_schedule d)"
    unfolding virtio_ops using virtio.wr_torn by blast
next
  fix d q d' x
  assume "virtio_flush d = (q, d')"
  then show "contents d' = contents d \<and> torn_images (vb_schedule d') \<subseteq> torn_images (vb_schedule d) \<and>
      set (survivors d' x) \<subseteq> set (survivors d x)"
    unfolding virtio_ops using virtio.fl_view by blast
next
  fix d u d' x
  assume "virtio_flush d = (Inr u, d')"
  then show "set (survivors d' x) = {contents d x}"
    by (auto simp: virtio_ops dest: virtio.fl_ok)
qed

section \<open>An append on a healthy device\<close>

lemma write_run_healthy:
  "healthy (length is + k) d \<Longrightarrow> (\<And>i. i \<in> set is \<Longrightarrow> base + of_nat i < vb_capacity d) \<Longrightarrow>
   \<exists>d'. write_run virtio_io base bs is d = (Inr (), d') \<and> healthy k d' \<and> vb_capacity d' = vb_capacity d"
proof (induction "is" arbitrary: d)
  case (Cons i "is")
  let ?bs = "slice (i * SECTOR_SIZE) (i * SECTOR_SIZE + SECTOR_SIZE) bs"
  obtain d1 where w: "write_sector (base + of_nat i) ?bs d = (Inr (), d1)"
    and d1: "healthy (length is + k) d1" "vb_capacity d1 = vb_capacity d"
    using write_sector_healthy [of "length is + k" d "base + of_nat i" ?bs] Cons.prems by auto
  with Cons.IH [OF d1(1)] Cons.prems(2) obtain d' where
    "write_run virtio_io base bs is d1 = (Inr (), d')" "healthy k d'" "vb_capacity d' = vb_capacity d"
    by auto
  with w show ?case
    by (auto simp: Let_def sbind_def smap_err_def virtio_io_def virtio_write_def)
qed simp

lemma put_healthy:
  assumes o: "open_image part (contents d) = Inr store"
    and small: "length payload \<le> MAX_OBJECT_PAYLOAD"
    and absent: "find (\<lambda>entry. en_hash entry = sha payload) (os_entries store) = None"
    and plan: "plan_put store payload = Inr (sectors, end_lba, next_sequence)"
    and ok: "healthy (unat sectors + (3 + k)) d"
    and cap: "unat (os_first_lba store) + unat (os_partition_sectors store) \<le> unat (vb_capacity d)"
  shows "\<exists>d'. put sha virtio_io t payload (store, d) =
    (Inr (sha payload), advance store t payload (sha payload) end_lba next_sequence, d') \<and>
    healthy k d' \<and> vb_capacity d' = vb_capacity d"
proof -
  from o obtain n active sb es where oa: "opens_as part (contents d) n active sb es"
    and store: "store = store_of part n active sb es" by (auto simp: open_image_iff)
  note plan' = plan_put_Inr [OF plan]
  have inside: "os_first_lba store + y < vb_capacity d" if "unat y < unat (os_partition_sectors store)" for y
    using that cap unat_less_u64 [of "vb_capacity d"]
    by (simp add: word_less_nat_alt unat_word_ariths)
  have slot: "unat (store_slot_lba s) < unat (os_partition_sectors store)" for s
    using store_slot_front [OF opens_as_ok(3) [OF oa], of s] plan'(3,4)
    by (simp add: store store_of_def word_less_nat_alt word_le_nat_alt)
  have rec: "os_first_lba store + os_append_lba store + of_nat i < vb_capacity d" if "i < unat sectors" for i
  proof -
    have "unat (os_append_lba store + of_nat i) = unat (os_append_lba store) + i"
      using that plan'(3) unat_less_u64 [of end_lba] by (simp add: unat_word_ariths unat_of_nat take_bit_eq_mod)
    then show ?thesis
      using inside [of "os_append_lba store + of_nat i"] that plan'(3,4)
      by (simp add: word_le_nat_alt add.assoc)
  qed
  obtain d1 where d1: "write_run virtio_io (os_first_lba store + os_append_lba store)
      (record_bytes t payload (sha payload) sectors) [0..<unat sectors] d = (Inr (), d1)"
    "healthy (3 + k) d1" "vb_capacity d1 = vb_capacity d"
    using write_run_healthy [of "[0..<unat sectors]" "3 + k" d "os_first_lba store + os_append_lba store"] ok rec
    by auto
  have "healthy (Suc (2 + k)) d1" using d1(2) by (simp add: numeral_eq_Suc)
  then obtain d2 where d2: "flush d1 = (Inr (), d2)" "healthy (2 + k) d2" "vb_capacity d2 = vb_capacity d1"
    by (rule flush_healthy)
  have "healthy (Suc (Suc k)) d2" using d2(2) by simp
  then obtain d3 where d3: "write_sector (os_first_lba store + store_slot_lba (store_other (os_active store)))
      (next_superblock store end_lba next_sequence) d2 = (Inr (), d3)" "healthy (Suc k) d3" "vb_capacity d3 = vb_capacity d2"
    using inside [OF slot] d1(3) d2(3) by (metis write_sector_healthy)
  from d3(2) obtain d4 where "flush d3 = (Inr (), d4)" "healthy k d4" "vb_capacity d4 = vb_capacity d3"
    by (rule flush_healthy)
  with d1 d2 d3 small absent plan show ?thesis
    by (auto simp: put_def Let_def write_record_def write_superblock_def sbind_def smap_err_def
        virtio_io_def virtio_write_def virtio_flush_def)
qed

lemma read_run_healthy:
  "healthy (length is + k) d \<Longrightarrow> (\<And>i. i \<in> set is \<Longrightarrow> base + of_nat i < vb_capacity d) \<Longrightarrow>
   \<exists>bs d'. read_run virtio_io base is acc d = (Inr bs, d')"
proof (induction "is" arbitrary: acc d)
  case (Cons i "is")
  obtain d1 where r: "read_sector (base + of_nat i) d = (Inr (contents d (base + of_nat i)), d1)"
    and d1: "healthy (length is + k) d1" "vb_capacity d1 = vb_capacity d"
    using read_sector_healthy [of "length is + k" d "base + of_nat i"] Cons.prems by auto
  with Cons.IH [OF d1(1)] Cons.prems(2) obtain bs d' where
    "read_run virtio_io base is (acc @ contents d (base + of_nat i)) d1 = (Inr bs, d')"
    by fastforce
  with r show ?case
    by (auto simp: sbind_def smap_err_def virtio_io_def virtio_read_def)
qed simp

section \<open>A sample store\<close>

definition store_part :: Partition where
  "store_part = \<lparr>part_first_lba = 10, part_last_lba = 105, part_type_guid = SLIME_STORE_TYPE_GUID\<rparr>"

definition store_sha :: "bytes \<Rightarrow> bytes" where
  "store_sha m = replicate 32 (fold (+) m 0)"

definition store_disk :: "u64 \<Rightarrow> Completion list \<Rightarrow> VirtioBlock" where
  "store_disk sequence schedule =
     \<lparr>vb_capacity = 200, vb_avail_index = 0, vb_used_index = 0, vb_poisoned = False,
      vb_buffer = zeros 512,
      vb_media = (\<lambda>lba. if lba = 10
        then encode_superblock \<lparr>sb_sequence = sequence, sb_append_lba = 2, sb_object_count = 0\<rparr> 96
        else zeros 512),
      vb_unflushed = [], vb_schedule = schedule\<rparr>"

definition empty_store :: "u64 \<Rightarrow> ObjectStore" where
  "empty_store sequence =
     \<lparr>os_first_lba = 10, os_partition_sectors = 96, os_sequence = sequence, os_append_lba = 2,
      os_active = Store_A, os_entries = []\<rparr>"

lemma length_store_sha: "length (store_sha m) = 32"
  by (simp add: store_sha_def)

lemma decode_superblock_zeros: "decode_superblock (zeros 512) n = Inl BadMagic"
proof -
  have "hd (zeros 8) \<noteq> hd SUPERBLOCK_MAGIC" by (simp add: zeros_def SUPERBLOCK_MAGIC_def)
  then show ?thesis by (auto simp: decode_superblock_def slice_zeros)
qed

lemma store_disk_contents [simp]:
  "contents (store_disk q cs) lba = (if lba = 10
     then encode_superblock \<lparr>sb_sequence = q, sb_append_lba = 2, sb_object_count = 0\<rparr> 96 else zeros 512)"
  by (simp add: contents_def store_disk_def)

lemma store_disk_durable: "set (survivors (store_disk q cs) x) = {contents (store_disk q cs) x}"
  by (simp add: survivors_def contents_def store_disk_def)

lemma store_disk_opens:
  assumes "q \<noteq> - 1"
  shows "open_image store_part (contents (store_disk q cs)) = Inr (empty_store q)"
proof -
  let ?sb = "\<lparr>sb_sequence = q, sb_append_lba = 2, sb_object_count = 0\<rparr>"
  have "partition_size store_part = Some 96"
    by (simp add: partition_size_def store_part_def checked_sub_def checked_add_def)
  moreover have "superblock_at (contents (store_disk q cs)) 10 96 Store_A = Some ?sb"
    using assms by (simp add: superblock_at_def SLOT_A_LBA_def decode_encode_superblock superblock_ok_def
        RECORD_AREA_START_def)
  moreover have "superblock_at (contents (store_disk q cs)) 10 96 Store_B = None"
    by (simp add: superblock_at_def SLOT_B_LBA_def decode_superblock_zeros to_option_def)
  ultimately have "opens_as store_part (contents (store_disk q cs)) 96 Store_A ?sb []"
    by (simp add: opens_as_def store_part_def pick_superblock_def RECORD_AREA_START_def scan_image)
  then show ?thesis
    by (auto simp: open_image_iff store_of_def empty_store_def store_part_def)
qed

lemma sample_plan:
  "q \<noteq> - 1 \<Longrightarrow> plan_put (empty_store q) [1, 2, 3] = Inr (1, 3, q + 1)"
  using unat_less_max_u64 [of q]
  by (simp add: plan_put_def empty_store_def MAX_OBJECTS_def record_sectors_def checked_add_def
      RECORD_HEADER_def div_ceil_def SECTOR_SIZE_def)

definition healthy_disk :: "u64 \<Rightarrow> nat \<Rightarrow> VirtioBlock" where
  "healthy_disk q k = store_disk q (replicate k (Completed STATUS_OK Applied))"

lemma healthy_disk_healthy: "healthy k (healthy_disk q k)"
  by (simp add: healthy_def healthy_disk_def store_disk_def list_all_iff)

lemma healthy_disk_torn: "torn_images (vb_schedule (healthy_disk q k)) = {}"
  by (auto simp: torn_images_def healthy_disk_def store_disk_def)

lemma sample_put:
  assumes "q \<noteq> - 1"
  shows "\<exists>d'. put store_sha virtio_io 9 [1, 2, 3] (empty_store q, healthy_disk q (4 + k)) =
    (Inr (store_sha [1, 2, 3]), advance (empty_store q) 9 [1, 2, 3] (store_sha [1, 2, 3]) 3 (q + 1), d') \<and>
    healthy k d' \<and> vb_capacity d' = vb_capacity (healthy_disk q (4 + k))"
proof (rule put_healthy)
  show "open_image store_part (contents (healthy_disk q (4 + k))) = Inr (empty_store q)"
    unfolding healthy_disk_def by (rule store_disk_opens [OF assms])
  show "plan_put (empty_store q) [1, 2, 3] = Inr (1, 3, q + 1)" by (rule sample_plan [OF assms])
  show "healthy (unat (1 :: u64) + (3 + k)) (healthy_disk q (4 + k))"
    using healthy_disk_healthy [of "4 + k" q] by simp
  show "unat (os_first_lba (empty_store q)) + unat (os_partition_sectors (empty_store q)) \<le>
      unat (vb_capacity (healthy_disk q (4 + k)))"
    by (simp add: empty_store_def healthy_disk_def store_disk_def)
qed (simp_all add: MAX_OBJECT_PAYLOAD_def empty_store_def)

lemma sample_get:
  assumes run: "put store_sha virtio_io 9 [1, 2, 3] (empty_store 1, d) = (Inr h, store', d')"
    and start: "RECORD_AREA_START \<le> os_append_lba (empty_store 1)"
    and absent: "find (\<lambda>entry. en_hash entry = store_sha [1, 2, 3]) (os_entries (empty_store 1)) = None"
    and ok: "healthy 1 d'" "vb_capacity d' = 200"
    and st: "store' = advance (empty_store 1) 9 [1, 2, 3] (store_sha [1, 2, 3]) 3 (1 + 1)"
  shows "\<exists>r d''. get store_sha virtio_io store' h (zeros 8) d' = (Inr r, d'')"
proof -
  obtain entry where e: "find (\<lambda>entry. en_hash entry = h) (os_entries store') = Some entry"
    "unat (en_payload_len entry) = length [1, 2, 3 :: u8]" "h = store_sha [1, 2, 3]"
    and rp: "\<And>p d''. read_payload virtio_io store' entry d' = (Inr p, d'') \<Longrightarrow> p = [1, 2, 3]"
    using store_virtio.put_read_payload [of store_sha, OF length_store_sha start run [unfolded virtio_io_def] absent]
    unfolding virtio_io_def by metis
  have entry: "en_payload_len entry = 3" "en_lba entry = 2"
    using e(1,3) by (auto simp: st advance_def empty_store_def)
  obtain bs d'' where "read_run virtio_io 12 [0..<1] [] d' = (Inr bs, d'')"
    using read_run_healthy [of "[0..<1]" 0 d' 12 "[]"] ok by auto
  then have r: "\<exists>p. read_payload virtio_io store' entry d' = (Inr p, d'')"
    by (simp add: read_payload_def entry record_sectors_def checked_add_def RECORD_HEADER_def div_ceil_def
        SECTOR_SIZE_def sbind_def slift_def st advance_def empty_store_def)
  then have "read_payload virtio_io store' entry d' = (Inr [1, 2, 3], d'')" using rp by blast
  then show ?thesis
    using e entry by (simp add: get_def sbind_def)
qed

lemma vb_media_survives: "vb_media d x \<in> set (survivors d x)"
  by (simp add: survivors_def)

section \<open>Properties\<close>

text \<open>
  C2: an interrupted append is atomic.  From a durable device on which the partition opens as
  \<open>store\<close>, run \<open>put\<close> with any schedule of completions, failures and torn writes, and cut the
  power: whatever survived opens either as the store before the append or as the store after it.
  It relies on torn sectors not passing as superblocks and on the sequence number not having
  reached its last usable value.
\<close>

theorem put_crash_atomic:
  assumes "\<And>m. length (sha m) = 32"
    and "open_image part (contents d) = Inr store"
    and "\<And>x. set (survivors d x) = {contents d x}"
    and "\<And>t. t \<in> torn_images (vb_schedule d) \<Longrightarrow> \<exists>e. decode_superblock t (os_partition_sectors store) = Inl e"
    and "os_sequence store \<noteq> - 2"
    and "put sha virtio_io obj_type payload (store, d) = (r, store', d')"
    and "\<And>x. m x \<in> set (survivors d' x)"
  shows "open_image part m = Inr store \<or>
    (\<exists>end_lba next_sequence. open_image part m =
       Inr (advance store obj_type payload (sha payload) end_lba next_sequence))"
  using assms unfolding virtio_io_def by (rule store_virtio.put_image(1))

theorem put_crash_atomic_witness:
  "let d = store_disk 1 [Completed 0 Applied, Completed 0 Applied, Completed 5 (Torn [7])];
       d' = snd (snd (put store_sha virtio_io 9 [1, 2, 3] (empty_store 1, d)))
   in open_image store_part (vb_media d') = Inr (empty_store 1) \<or>
      (\<exists>end_lba next_sequence. open_image store_part (vb_media d') =
         Inr (advance (empty_store 1) 9 [1, 2, 3] (store_sha [1, 2, 3]) end_lba next_sequence))"
proof -
  let ?d = "store_disk 1 [Completed 0 Applied, Completed 0 Applied, Completed 5 (Torn [7])]"
  obtain r store' d' where run: "put store_sha virtio_io 9 [1, 2, 3] (empty_store 1, ?d) = (r, store', d')"
    by (cases "put store_sha virtio_io 9 [1, 2, 3] (empty_store 1, ?d)")
  have torn: "\<exists>e. decode_superblock t (os_partition_sectors (empty_store 1)) = Inl e"
    if "t \<in> torn_images (vb_schedule ?d)" for t
    using that by (simp add: torn_images_def store_disk_def decode_superblock_def slice_def
        SECTOR_BYTES_def SUPERBLOCK_MAGIC_def)
  show ?thesis
    using put_crash_atomic [of store_sha, OF length_store_sha store_disk_opens store_disk_durable torn _ run]
      vb_media_survives run
    by (simp add: empty_store_def)
qed

text \<open>
  C8: an append that reports success is durable: every image a power loss may leave afterwards
  opens exactly as the advanced handle, with the object committed.
\<close>

theorem put_success_durable:
  assumes "\<And>m. length (sha m) = 32"
    and "open_image part (contents d) = Inr store"
    and "\<And>x. set (survivors d x) = {contents d x}"
    and "\<And>t. t \<in> torn_images (vb_schedule d) \<Longrightarrow> \<exists>e. decode_superblock t (os_partition_sectors store) = Inl e"
    and "os_sequence store \<noteq> - 2"
    and "put sha virtio_io obj_type payload (store, d) = (Inr h, store', d')"
    and "\<And>x. m x \<in> set (survivors d' x)"
  shows "open_image part m = Inr store'"
  using store_virtio.put_image(2) [of sha, OF assms(1-5) assms(6) [unfolded virtio_io_def] assms(7)]
  by simp

theorem put_success_durable_witness:
  "\<exists>store' d'. put store_sha virtio_io 9 [1, 2, 3] (empty_store 1, healthy_disk 1 4) =
     (Inr (store_sha [1, 2, 3]), store', d') \<and> open_image store_part (vb_media d') = Inr store' \<and>
     stat (store_sha [1, 2, 3]) store' = Some (9, 3)"
proof -
  obtain d' where run: "put store_sha virtio_io 9 [1, 2, 3] (empty_store 1, healthy_disk 1 4) =
      (Inr (store_sha [1, 2, 3]), advance (empty_store 1) 9 [1, 2, 3] (store_sha [1, 2, 3]) 3 (1 + 1), d')"
    using sample_put [of 1 0] by auto
  have "open_image store_part (vb_media d') =
      Inr (advance (empty_store 1) 9 [1, 2, 3] (store_sha [1, 2, 3]) 3 (1 + 1))"
    using put_success_durable [of store_sha, OF length_store_sha _ _ _ _ run vb_media_survives]
      store_disk_opens [of 1] store_disk_durable healthy_disk_torn [of 1 4]
    by (simp add: healthy_disk_def empty_store_def)
  with run show ?thesis
    by (auto simp: stat_def advance_def empty_store_def)
qed

text \<open>
  C14: an object that was appended reads back: after a successful append of a new object, looking
  its identity up returns its type, its length and its bytes.
\<close>

theorem put_get_roundtrip:
  assumes "\<And>m. length (sha m) = 32" and "RECORD_AREA_START \<le> os_append_lba store"
    and "put sha virtio_io obj_type payload (store, d) = (Inr h, store', d')"
    and "get sha virtio_io store' h out d' = (Inr (t, len, out'), d'')"
    and "find (\<lambda>entry. en_hash entry = sha payload) (os_entries store) = None"
  shows "t = obj_type \<and> len = length payload \<and> take len out' = payload"
  using store_virtio.put_get_payload [of sha, OF assms(1,2) assms(3,4) [unfolded virtio_io_def] assms(5)]
  by blast

theorem put_get_roundtrip_witness:
  "\<exists>store' d' out' d''. put store_sha virtio_io 9 [1, 2, 3] (empty_store 1, healthy_disk 1 5) =
       (Inr (store_sha [1, 2, 3]), store', d') \<and>
     get store_sha virtio_io store' (store_sha [1, 2, 3]) (zeros 8) d' = (Inr (9, 3, out'), d'') \<and>
     take 3 out' = [1, 2, 3]"
proof -
  obtain store' d' where run: "put store_sha virtio_io 9 [1, 2, 3] (empty_store 1, healthy_disk 1 5) =
      (Inr (store_sha [1, 2, 3]), store', d')" and ok: "healthy 1 d'" "vb_capacity d' = 200"
    and st: "store' = advance (empty_store 1) 9 [1, 2, 3] (store_sha [1, 2, 3]) 3 (1 + 1)"
    using sample_put [of 1 1] by (auto simp: healthy_disk_def store_disk_def)
  have start: "RECORD_AREA_START \<le> os_append_lba (empty_store 1)"
    and absent: "find (\<lambda>entry. en_hash entry = store_sha [1, 2, 3]) (os_entries (empty_store 1)) = None"
    by (simp_all add: empty_store_def RECORD_AREA_START_def)
  obtain r d'' where g: "get store_sha virtio_io store' (store_sha [1, 2, 3]) (zeros 8) d' = (Inr r, d'')"
    using sample_get [OF run start absent] ok st by auto
  obtain t len out' where "r = (t, len, out')" by (cases r)
  with g have g': "get store_sha virtio_io store' (store_sha [1, 2, 3]) (zeros 8) d' = (Inr (t, len, out'), d'')"
    by simp
  have "t = 9 \<and> len = length [1, 2, 3 :: u8] \<and> take len out' = [1, 2, 3]"
    by (rule put_get_roundtrip [of store_sha, OF length_store_sha start run g' absent])
  with run g' show ?thesis by (auto simp: numeral_3_eq_3)
qed



text \<open>
  C34: at the last usable sequence number an append reports success and advances the handle, but
  the superblock it writes is one every reader refuses: the disk still opens as the store before
  the append, on every image a power loss may leave.
\<close>

theorem put_last_sequence_lost:
  assumes "open_image part (contents d) = Inr store" and "os_sequence store = - 2"
    and "find (\<lambda>entry. en_hash entry = sha payload) (os_entries store) = None"
    and "put sha virtio_io obj_type payload (store, d) = (Inr h, store', d')"
    and "\<And>x. m x \<in> set (survivors d' x)"
  shows "open_image part m = Inr store \<and> store' \<noteq> store"
  using store_virtio.put_last_sequence [OF assms(1-3) assms(4) [unfolded virtio_io_def] assms(5)] by blast

theorem put_last_sequence_lost_witness:
  "\<exists>store' d'. put store_sha virtio_io 9 [1, 2, 3] (empty_store (- 2), healthy_disk (- 2) 4) =
     (Inr (store_sha [1, 2, 3]), store', d') \<and> store' \<noteq> empty_store (- 2) \<and>
     open_image store_part (vb_media d') = Inr (empty_store (- 2))"
proof -
  obtain d' where run: "put store_sha virtio_io 9 [1, 2, 3] (empty_store (- 2), healthy_disk (- 2) 4) =
      (Inr (store_sha [1, 2, 3]), advance (empty_store (- 2)) 9 [1, 2, 3] (store_sha [1, 2, 3]) 3 (- 2 + 1), d')"
    using sample_put [of "- 2" 0] by auto
  have "open_image store_part (contents (healthy_disk (- 2) 4)) = Inr (empty_store (- 2))"
    unfolding healthy_disk_def by (rule store_disk_opens) simp
  then have "open_image store_part (vb_media d') = Inr (empty_store (- 2)) \<and>
      advance (empty_store (- 2)) 9 [1, 2, 3] (store_sha [1, 2, 3]) 3 (- 2 + 1) \<noteq> empty_store (- 2)"
    using put_last_sequence_lost [OF _ _ _ run vb_media_survives] by (simp add: empty_store_def)
  with run show ?thesis by blast
qed

end
