(* ===== verification/FixedArray.thy ===== *)
theory FixedArray
  imports Slime_Prelude
begin

text \<open>
  The fixed-capacity arrays \<open>[Option<T>; N]\<close> with a live length that the root task and the
  contracts use instead of allocation.  The in-place loops of the code (\<open>Iterator::position\<close>, the
  shifting loops around an insertion or a removal, \<open>copy_within\<close>) are given here once; the
  relation \<open>packed\<close> says which list an array stands for, and the collection \<open>packed_intros\<close>
  holds one rule per array idiom.
\<close>

named_theorems packed_intros \<open>array idioms that keep an array packed\<close>

section \<open>Array idioms\<close>

text \<open>\<open>iter().position(..)\<close>, and the live prefix with its empty slots skipped.\<close>

primrec position :: "('a \<Rightarrow> bool) \<Rightarrow> 'a list \<Rightarrow> nat option" where
  "position P [] = None"
| "position P (x # xs) = (if P x then Some 0 else map_option Suc (position P xs))"

definition live :: "'a option list \<Rightarrow> nat \<Rightarrow> 'a list" where
  "live arr len = List.map_filter id (take len arr)"

text \<open>The loops that move entries one slot up before an insertion and one slot down after a removal.\<close>

fun shift_up :: "'a list \<Rightarrow> nat \<Rightarrow> nat \<Rightarrow> 'a list" where
  "shift_up arr bottom index =
     (if bottom < index then shift_up (arr[index := arr ! (index - 1)]) bottom (index - 1) else arr)"

function shift_down :: "'a list \<Rightarrow> nat \<Rightarrow> nat \<Rightarrow> 'a list" where
  "shift_down arr cursor len =
     (if cursor + 1 < len then shift_down (arr[cursor := arr ! (cursor + 1)]) (cursor + 1) len
      else arr)"
  by pat_completeness auto
termination by (relation "measure (\<lambda>(_, cursor, len). len - cursor)") auto

declare shift_up.simps [simp del] shift_down.simps [simp del]

text \<open>\<open>copy_within(lo..hi, dest)\<close>.\<close>

definition copy_within :: "nat \<Rightarrow> nat \<Rightarrow> nat \<Rightarrow> 'a list \<Rightarrow> 'a list" where
  "copy_within lo hi dest arr = splice dest (slice lo hi arr) arr"

text \<open>\<open>Ord::cmp\<close> of byte arrays, strict.\<close>

fun bytes_less :: "bytes \<Rightarrow> bytes \<Rightarrow> bool" where
  "bytes_less [] ys = (ys \<noteq> [])"
| "bytes_less (x # xs) [] = False"
| "bytes_less (x # xs) (y # ys) = (x < y \<or> x = y \<and> bytes_less xs ys)"

section \<open>What an array stands for\<close>

definition packed :: "'a option list \<Rightarrow> nat \<Rightarrow> 'a list \<Rightarrow> bool" where
  "packed arr len q \<longleftrightarrow> len = length q \<and> arr = map Some q @ replicate (length arr - length q) None"

definition insert_at :: "nat \<Rightarrow> 'a \<Rightarrow> 'a list \<Rightarrow> 'a list" where
  "insert_at i x q = take i q @ x # drop i q"

definition remove_nth :: "nat \<Rightarrow> 'a list \<Rightarrow> 'a list" where
  "remove_nth i q = take i q @ drop (Suc i) q"

lemma packed_length: "packed arr len q \<Longrightarrow> len = length q \<and> len \<le> length arr"
proof -
  assume p: "packed arr len q"
  then have "arr = map Some q @ replicate (length arr - length q) None" by (simp add: packed_def)
  from arg_cong [OF this, of length] show ?thesis using p by (simp add: packed_def)
qed

lemma packed_nth:
  "packed arr len q \<longleftrightarrow>
     len = length q \<and> length q \<le> length arr \<and>
     (\<forall>i < length arr. arr ! i = (if i < length q then Some (q ! i) else None))"
proof
  assume p: "packed arr len q"
  then have "arr ! i = (if i < length q then Some (q ! i) else None)" if "i < length arr" for i
    using that packed_length [OF p] unfolding packed_def
    by (metis add_diff_inverse_nat diff_less_mono length_map linorder_not_less nth_append nth_map nth_replicate)
  then show "len = length q \<and> length q \<le> length arr \<and>
     (\<forall>i < length arr. arr ! i = (if i < length q then Some (q ! i) else None))"
    using packed_length [OF p] by auto
next
  assume "len = length q \<and> length q \<le> length arr \<and>
     (\<forall>i < length arr. arr ! i = (if i < length q then Some (q ! i) else None))"
  then show "packed arr len q"
    by (auto simp: packed_def nth_append intro!: nth_equalityI)
qed

lemma packed_empty [packed_intros]: "packed (replicate n None) 0 []"
  by (simp add: packed_def)

lemma packed_live: "packed arr len q \<Longrightarrow> live arr len = q"
proof -
  assume p: "packed arr len q"
  then have "take len arr = map Some q"
    by (intro nth_equalityI) (auto simp: packed_nth)
  moreover have "List.map_filter id (map Some q) = q"
    by (induction q) (simp_all add: List.map_filter_simps)
  ultimately show ?thesis by (simp add: live_def)
qed

lemma packed_unique: "packed arr len q \<Longrightarrow> packed arr len q' \<Longrightarrow> q = q'"
  using packed_live [of arr len q] packed_live [of arr len q'] by simp

lemma packed_lookup: "packed arr len q \<Longrightarrow> i < len \<Longrightarrow> arr ! i = Some (q ! i)"
  by (simp add: packed_nth)

section \<open>Lists\<close>

lemma length_insert_at [simp]: "i \<le> length q \<Longrightarrow> length (insert_at i x q) = Suc (length q)"
  by (simp add: insert_at_def)

lemma set_insert_at [simp]: "set (insert_at i x q) = insert x (set q)"
  unfolding insert_at_def using set_append [of "take i q" "drop i q"] by auto

lemma length_remove_nth [simp]: "i < length q \<Longrightarrow> length (remove_nth i q) = length q - 1"
  by (simp add: remove_nth_def)

lemma set_remove_nth: "set (remove_nth i q) \<subseteq> set q"
  by (auto simp: remove_nth_def dest: in_set_takeD in_set_dropD)

lemma nth_insert_at:
  assumes "i \<le> length q"
  shows "insert_at i x q ! k = (if k < i then q ! k else if k = i then x else q ! (k - 1))"
proof (cases "i < k")
  case True
  then obtain d where "k = Suc (i + d)" by (auto dest: less_imp_Suc_add)
  then show ?thesis using assms by (simp add: insert_at_def nth_append)
next
  case False
  then show ?thesis using assms by (simp add: insert_at_def nth_append)
qed

lemma nth_remove_nth:
  "i < length q \<Longrightarrow> k < length q - 1 \<Longrightarrow> remove_nth i q ! k = (if k < i then q ! k else q ! Suc k)"
  by (auto simp: remove_nth_def nth_append)

lemma remove_nth_0 [simp]: "remove_nth 0 q = tl q"
  by (simp add: remove_nth_def drop_Suc)

lemma position_Some:
  "position P xs = Some i \<longleftrightarrow> i < length xs \<and> P (xs ! i) \<and> (\<forall>k < i. \<not> P (xs ! k))"
proof (induction xs arbitrary: i)
  case (Cons x xs)
  show ?case
    by (cases i) (simp_all add: Cons.IH All_less_Suc2)
qed simp

lemma position_None: "position P xs = None \<longleftrightarrow> (\<forall>x \<in> set xs. \<not> P x)"
  by (induction xs) auto

text \<open>Inserting before the first larger element keeps a list ordered.\<close>

lemma sorted_wrt_insert_position:
  assumes "sorted_wrt R q" and "transp R"
    and "\<And>y. y \<in> set q \<Longrightarrow> R x y \<or> R y x"
    and "i = (case position (R x) q of None \<Rightarrow> length q | Some k \<Rightarrow> k)"
  shows "sorted_wrt R (insert_at i x q)"
proof -
  have i: "i \<le> length q" and before: "\<And>k. k < i \<Longrightarrow> \<not> R x (q ! k)"
    using assms(4) by (auto simp: position_Some position_None split: option.splits)
  have after: "R x y" if "y \<in> set (drop i q)" for y
  proof -
    from that obtain k where k: "k < length (drop i q)" and y: "y = drop i q ! k"
      by (auto simp: in_set_conv_nth)
    from that have lt: "i < length q" by (cases "i < length q") auto
    then have lo: "R x (q ! i)"
      using assms(4) by (cases "position (R x) q") (simp_all add: position_Some)
    show ?thesis
    proof (cases k)
      case 0
      then show ?thesis using y lt lo by simp
    next
      case (Suc j)
      then have "R (q ! i) (q ! (i + k))"
        using k assms(1) by (auto simp: sorted_wrt_iff_nth_less)
      then show ?thesis
        using y k i lo assms(2) by (auto dest: transpD)
    qed
  qed
  have below: "R y x" if "y \<in> set (take i q)" for y
  proof -
    from that obtain k where "k < i" and "y = q ! k" by (auto simp: in_set_conv_nth)
    then show ?thesis using before [of k] assms(3) [of y] in_set_takeD [OF that] by blast
  qed
  have "sorted_wrt R (take i q @ drop i q)"
    using assms(1) by simp
  then show ?thesis
    using below after by (auto simp: insert_at_def sorted_wrt_append simp del: append_take_drop_id)
qed

lemma sorted_wrt_remove_nth: "sorted_wrt R q \<Longrightarrow> sorted_wrt R (remove_nth i q)"
proof -
  assume "sorted_wrt R q"
  then have "sorted_wrt R (take i q @ drop i q)" by simp
  moreover have "set (drop (Suc i) q) \<subseteq> set (drop i q)"
    by (rule set_drop_subset_set_drop) simp
  moreover have "sorted_wrt R (drop (Suc i) q)" using \<open>sorted_wrt R q\<close> by (rule sorted_wrt_drop)
  ultimately show ?thesis
    unfolding remove_nth_def sorted_wrt_append by blast
qed

lemma map_insert_at: "map f (insert_at i x q) = insert_at i (f x) (map f q)"
  by (simp add: insert_at_def take_map drop_map)

lemma map_remove_nth: "map f (remove_nth i q) = remove_nth i (map f q)"
  by (simp add: remove_nth_def take_map drop_map)

lemma distinct_insert_at: "distinct (insert_at i x q) \<longleftrightarrow> distinct q \<and> x \<notin> set q"
proof -
  have "distinct (insert_at i x q) \<longleftrightarrow> distinct (x # take i q @ drop i q)"
    unfolding insert_at_def by (auto simp del: append_take_drop_id)
  then show ?thesis by auto
qed

lemma distinct_remove_nth: "distinct q \<Longrightarrow> distinct (remove_nth i q)"
  by (simp add: remove_nth_def set_take_disj_set_drop_if_distinct)

section \<open>The order of byte arrays\<close>

lemma bytes_less_irrefl: "\<not> bytes_less xs xs"
  by (induction xs) auto

lemma bytes_less_trans: "bytes_less xs ys \<Longrightarrow> bytes_less ys zs \<Longrightarrow> bytes_less xs zs"
proof (induction xs ys arbitrary: zs rule: bytes_less.induct)
  case (1 ys)
  then show ?case by (cases zs) (auto elim: bytes_less.elims)
next
  case (3 x xs y ys)
  then show ?case by (cases zs) auto
qed simp

section \<open>The loops\<close>

lemma length_shift_up [simp]: "length (shift_up arr b i) = length arr"
  by (induction arr b i rule: shift_up.induct) (subst shift_up.simps, simp)

lemma length_shift_down [simp]: "length (shift_down arr c n) = length arr"
  by (induction arr c n rule: shift_down.induct) (subst shift_down.simps, simp)

lemma nth_shift_up:
  "i < length arr \<Longrightarrow> k < length arr \<Longrightarrow>
   shift_up arr b i ! k = (if b < k \<and> k \<le> i then arr ! (k - 1) else arr ! k)"
proof (induction arr b i rule: shift_up.induct)
  case (1 arr b i)
  show ?case
  proof (cases "b < i")
    case True
    then show ?thesis
      using 1 by (subst shift_up.simps) (auto simp: nth_list_update)
  next
    case False
    then show ?thesis by (subst shift_up.simps) auto
  qed
qed

lemma nth_shift_down:
  "n \<le> length arr \<Longrightarrow> k < length arr \<Longrightarrow>
   shift_down arr c n ! k = (if c \<le> k \<and> k + 1 < n then arr ! (k + 1) else arr ! k)"
proof (induction arr c n rule: shift_down.induct)
  case (1 arr c n)
  show ?case
  proof (cases "c + 1 < n")
    case True
    then show ?thesis
      using 1 by (subst shift_down.simps) (auto simp: nth_list_update)
  next
    case False
    then show ?thesis by (subst shift_down.simps) auto
  qed
qed

lemma packed_push [packed_intros]:
  "packed arr len q \<Longrightarrow> len < length arr \<Longrightarrow> packed (arr[len := Some x]) (Suc len) (q @ [x])"
  by (auto simp: packed_nth nth_append nth_list_update)

lemma packed_insert [packed_intros]:
  assumes "packed arr len q" and "len < length arr" and "i \<le> len"
  shows "packed ((shift_up arr i len)[i := Some x]) (Suc len) (insert_at i x q)"
  using assms by (auto simp: packed_nth nth_list_update nth_shift_up nth_insert_at)

lemma packed_remove [packed_intros]:
  assumes "packed arr len q" and "i < len"
  shows "packed ((shift_down (arr[i := None]) i len)[len - 1 := None]) (len - 1) (remove_nth i q)"
  using assms by (auto simp: packed_nth nth_list_update nth_shift_down nth_remove_nth)

lemma nth_copy_within:
  assumes "lo \<le> hi" and "hi \<le> length arr" and "dest + (hi - lo) \<le> length arr"
    and "k < length arr"
  shows "copy_within lo hi dest arr ! k =
    (if dest \<le> k \<and> k < dest + (hi - lo) then arr ! (lo + (k - dest)) else arr ! k)"
  using assms by (auto simp: copy_within_def nth_splice) (auto simp: slice_def)

lemma length_copy_within [simp]:
  "hi \<le> length arr \<Longrightarrow> dest + (hi - lo) \<le> length arr \<Longrightarrow>
   length (copy_within lo hi dest arr) = length arr"
  by (simp add: copy_within_def)

lemma packed_copy_insert [packed_intros]:
  assumes "packed arr len q" and "len < length arr" and "i \<le> len"
  shows "packed ((copy_within i len (i + 1) arr)[i := Some x]) (Suc len) (insert_at i x q)"
  using assms by (auto simp: packed_nth nth_list_update nth_copy_within nth_insert_at)

lemma packed_copy_remove [packed_intros]:
  assumes "packed arr len q" and "i < len"
  shows "packed ((copy_within (i + 1) len i arr)[len - 1 := None]) (len - 1) (remove_nth i q)"
  using assms by (auto simp: packed_nth nth_list_update nth_copy_within nth_remove_nth)

section \<open>Sparse arrays\<close>

text \<open>
  Tables with holes: \<open>iter().flatten()\<close> lists the occupied slots in order, and
  \<open>is_some_and\<close> tests one slot.  What a table holds of some quantity is \<open>tot\<close>; writing one slot
  changes it by the difference of the two entries.
\<close>

definition flatten :: "'a option list \<Rightarrow> 'a list" where
  "flatten xs = List.map_filter (\<lambda>x. x) xs"

definition is_some_and :: "('a \<Rightarrow> bool) \<Rightarrow> 'a option \<Rightarrow> bool" where
  "is_some_and P v = (case v of None \<Rightarrow> False | Some x \<Rightarrow> P x)"

definition tot :: "('a \<Rightarrow> nat) \<Rightarrow> 'a option list \<Rightarrow> nat" where
  "tot f xs = sum_list (map f (flatten xs))"

definition val :: "('a \<Rightarrow> nat) \<Rightarrow> 'a option \<Rightarrow> nat" where
  "val f v = (case v of None \<Rightarrow> 0 | Some x \<Rightarrow> f x)"

lemma flatten_simps [simp]:
  "flatten [] = []" "flatten (None # xs) = flatten xs" "flatten (Some x # xs) = x # flatten xs"
  "flatten (xs @ ys) = flatten xs @ flatten ys"
  by (simp_all add: flatten_def List.map_filter_def)

lemma is_some_and_simps [simp]:
  "is_some_and P None = False" "is_some_and P (Some x) = P x"
  by (simp_all add: is_some_and_def)

lemma is_some_and_iff: "is_some_and P v \<longleftrightarrow> (\<exists>x. v = Some x \<and> P x)"
  by (cases v) simp_all

lemma val_simps [simp]: "val f None = 0" "val f (Some x) = f x"
  by (simp_all add: val_def)

lemma set_flatten: "x \<in> set (flatten xs) \<longleftrightarrow> Some x \<in> set xs"
proof (induction xs)
  case (Cons y ys)
  then show ?case by (cases y) auto
qed simp

lemma set_flatten_nth: "x \<in> set (flatten xs) \<longleftrightarrow> (\<exists>i < length xs. xs ! i = Some x)"
  by (subst set_flatten) (rule in_set_conv_nth)

lemma flatten_replicate_None [simp]: "flatten (replicate n None) = []"
  by (induction n) simp_all

lemma tot_simps [simp]:
  "tot f [] = 0" "tot f (x # xs) = val f x + tot f xs" "tot f (replicate n None) = 0"
  by (simp_all add: tot_def) (cases x; simp add: tot_def)

lemma tot_update:
  "i < length xs \<Longrightarrow> tot f (xs[i := v]) + val f (xs ! i) = tot f xs + val f v"
proof (induction xs arbitrary: i)
  case (Cons x xs)
  then show ?case by (cases i) auto
qed simp

lemma val_le_tot: "i < length xs \<Longrightarrow> val f (xs ! i) \<le> tot f xs"
  using tot_update [of i xs f None] by simp

lemma length_flatten: "length (flatten xs) = tot (\<lambda>_. 1) xs"
  by (simp add: tot_def sum_list_triv)

lemma set_flatten_update:
  "i < length xs \<Longrightarrow> xs ! i = None \<Longrightarrow> set (flatten (xs[i := Some x])) = insert x (set (flatten xs))"
proof (induction xs arbitrary: i)
  case (Cons y ys)
  then show ?case by (cases i; cases y) auto
qed simp

lemma set_flatten_clear: "set (flatten (xs[i := None])) \<subseteq> set (flatten xs)"
proof (induction xs arbitrary: i)
  case (Cons y ys)
  then show ?case by (cases i; cases y) auto
qed simp

lemma distinct_flatten_update:
  "i < length xs \<Longrightarrow> xs ! i = None \<Longrightarrow> distinct (map k (flatten xs)) \<Longrightarrow> k x \<notin> k ` set (flatten xs)
     \<Longrightarrow> distinct (map k (flatten (xs[i := Some x])))"
proof (induction xs arbitrary: i)
  case (Cons y ys)
  then show ?case by (cases i; cases y) (auto simp: set_flatten_update)
qed simp

lemma distinct_flatten_clear:
  "distinct (map k (flatten xs)) \<Longrightarrow> distinct (map k (flatten (xs[i := None])))"
proof (induction xs arbitrary: i)
  case (Cons y ys)
  then show ?case using set_flatten_clear [of ys] by (cases i; cases y) auto
qed simp

lemma flatten_unique:
  assumes "distinct (map k (flatten xs))" "x \<in> set (flatten xs)" "y \<in> set (flatten xs)" "k x = k y"
  shows "x = y"
  using assms by (meson distinct_map inj_onD)

text \<open>An entry replaced by one with the same key.\<close>

lemma distinct_flatten_replace:
  "xs ! i = Some x \<Longrightarrow> k y = k x \<Longrightarrow> i < length xs
     \<Longrightarrow> map k (flatten (xs[i := Some y])) = map k (flatten xs)"
proof (induction xs arbitrary: i)
  case (Cons z zs)
  then show ?case by (cases i; cases z) auto
qed simp

lemma find_flatten_unique:
  assumes "distinct (map k (flatten xs))" "x \<in> set (flatten xs)" "\<And>y. P y \<Longrightarrow> k y = k x" "P x"
  shows "List.find P (flatten xs) = Some x"
proof -
  obtain y where y: "List.find P (flatten xs) = Some y"
    using assms(2,4) by (metis find_None_iff option.exhaust)
  then have "y \<in> set (flatten xs)" "P y" by (metis find_Some_iff nth_mem)+
  then show ?thesis using y flatten_unique [OF assms(1) _ assms(2)] assms(3) by metis
qed

end
