(* ===== verification/Timer.thy ===== *)
theory Timer
  imports FixedArray
begin

text \<open>
  The timer and wake scheduler of the root task (\<open>slime-root/src/timer.rs\<close>) with its event
  records (\<open>slime-root/src/event.rs\<close>) and the EL1 physical-timer adapter behind it
  (\<open>slime-root/src/platform_timer.rs\<close>, the AArch64 paths).  The queue is the fixed array of the
  code; runs of the scheduler collect the events it hands out, and the main results are that the
  queue stays ordered, that the event log is a faithful journal of the pending timers, and which
  deadline the platform is left armed with.
\<close>

section \<open>Events\<close>

type_synonym MonotonicInstant = u64
type_synonym TimerId = u64
type_synonym EventSequence = u64

record TaskEpoch =
  te_task :: u32
  te_epoch :: u32

datatype TimerCancelReason = Explicit | TaskDeath

datatype ReadyCause =
    Timer (cause_timer: TimerId) (cause_deadline: MonotonicInstant)
  | Notification (cause_badge: u64)
  | Yield

datatype SchedulingEventKind =
    TimerScheduled TimerId TaskEpoch MonotonicInstant
  | TimerCancelled TimerId TaskEpoch TimerCancelReason
  | TaskReady TaskEpoch ReadyCause
  | StaleTimerDiscarded TimerId TaskEpoch MonotonicInstant

record SchedulingEvent =
  sequence :: EventSequence
  observed_at :: MonotonicInstant
  kind :: SchedulingEventKind

record EventBatch =
  batch_entries :: "SchedulingEvent option list"
  batch_len :: nat

definition batch_new :: "nat \<Rightarrow> EventBatch" where
  "batch_new capacity = \<lparr>batch_entries = replicate capacity None, batch_len = 0\<rparr>"

definition batch_get :: "EventBatch \<Rightarrow> nat \<Rightarrow> SchedulingEvent option" where
  "batch_get b index = (if batch_len b \<le> index then None else batch_entries b ! index)"

definition batch_iter :: "EventBatch \<Rightarrow> SchedulingEvent list" where
  "batch_iter b = live (batch_entries b) (batch_len b)"

definition batch_push :: "SchedulingEvent \<Rightarrow> EventBatch \<Rightarrow> bool \<times> EventBatch" where
  "batch_push event b =
     (if batch_len b < length (batch_entries b)
      then (True, b\<lparr>batch_entries := (batch_entries b)[batch_len b := Some event],
                   batch_len := batch_len b + 1\<rparr>)
      else (False, b))"

section \<open>The scheduler\<close>

datatype DeadlineProgramming = Unchanged | Program MonotonicInstant | Disarm

definition between :: "MonotonicInstant option \<Rightarrow> MonotonicInstant option \<Rightarrow> DeadlineProgramming" where
  "between was after =
     (if was = after then Unchanged
      else case after of Some deadline \<Rightarrow> Program deadline | None \<Rightarrow> Disarm)"

datatype TimerError =
    CapacityExhausted nat
  | IdentitySpaceExhausted
  | DurationOverflow MonotonicInstant u64
  | MonotonicRegression MonotonicInstant MonotonicInstant
  | TimerNotFound TimerId
  | TimerOwnerMismatch TimerId TaskEpoch TaskEpoch

record TimerEntry =
  id :: TimerId
  owner :: TaskEpoch
  deadline :: MonotonicInstant
  tie_order :: u64

record TimerTransition =
  events :: EventBatch
  programming :: DeadlineProgramming

datatype WakeDisposition = Ready | StaleEpoch

record WakeTransition =
  disposition :: WakeDisposition
  event :: "SchedulingEvent option"

record TimerScheduler =
  entries :: "TimerEntry option list"
  len :: nat
  next_timer_id :: u64
  next_tie_order :: u64
  next_event_sequence :: u64
  last_observed :: "MonotonicInstant option"
  pending_programming :: "DeadlineProgramming option"

definition scheduler_new :: "nat \<Rightarrow> TimerScheduler" where
  "scheduler_new capacity =
     \<lparr>entries = replicate capacity None, len = 0, next_timer_id = 0, next_tie_order = 0,
      next_event_sequence = 0, last_observed = None, pending_programming = None\<rparr>"

definition entry :: "TimerScheduler \<Rightarrow> nat \<Rightarrow> TimerEntry option" where
  "entry s index = (if len s \<le> index then None else entries s ! index)"

definition queue :: "TimerScheduler \<Rightarrow> TimerEntry list" where
  "queue s = live (entries s) (len s)"

definition next_deadline :: "TimerScheduler \<Rightarrow> MonotonicInstant option" where
  "next_deadline s = map_option deadline (entry s 0)"

definition timers_of :: "TaskEpoch \<Rightarrow> TimerScheduler \<Rightarrow> nat" where
  "timers_of t s = length (filter (\<lambda>e. owner e = t) (queue s))"

definition find_timer :: "TimerId \<Rightarrow> TimerScheduler \<Rightarrow> nat option" where
  "find_timer timer s = position (\<lambda>e. id e = timer) (queue s)"

text \<open>The order of the queue: by deadline, and by tie order among equal deadlines.\<close>

definition earlier :: "TimerEntry \<Rightarrow> TimerEntry \<Rightarrow> bool" where
  "earlier a b \<longleftrightarrow>
     deadline a < deadline b \<or> deadline a = deadline b \<and> tie_order a < tie_order b"

definition insert_sorted :: "TimerEntry \<Rightarrow> TimerScheduler \<Rightarrow> TimerScheduler" where
  "insert_sorted e s =
     (let at = (case position (earlier e) (queue s) of None \<Rightarrow> len s | Some k \<Rightarrow> k)
      in s\<lparr>entries := (shift_up (entries s) at (len s))[at := Some e], len := len s + 1\<rparr>)"

definition remove_at :: "nat \<Rightarrow> TimerScheduler \<Rightarrow> TimerEntry option \<times> TimerScheduler" where
  "remove_at index s =
     (if len s \<le> index then (None, s)
      else case entries s ! index of
        None \<Rightarrow> (None, s)
      | Some removed \<Rightarrow>
          (Some removed,
           s\<lparr>entries := (shift_down ((entries s)[index := None]) index (len s))[len s - 1 := None],
             len := len s - 1\<rparr>))"

definition check_observation :: "MonotonicInstant \<Rightarrow> (TimerScheduler, TimerError, unit) sres" where
  "check_observation now s =
     (case last_observed s of
        Some previous \<Rightarrow>
          if now < previous then (Inl (MonotonicRegression previous now), s) else (Inr (), s)
      | None \<Rightarrow> (Inr (), s))"

definition commit_observation :: "MonotonicInstant \<Rightarrow> TimerScheduler \<Rightarrow> TimerScheduler" where
  "commit_observation now s = s\<lparr>last_observed := Some now\<rparr>"

definition reserve_timer_id :: "(TimerScheduler, TimerError, u64) sres" where
  "reserve_timer_id s =
     (case checked_add (next_timer_id s) 1 of
        None \<Rightarrow> (Inl IdentitySpaceExhausted, s)
      | Some next \<Rightarrow> (Inr (next_timer_id s), s\<lparr>next_timer_id := next\<rparr>))"

definition reserve_tie_order :: "(TimerScheduler, TimerError, u64) sres" where
  "reserve_tie_order s =
     (case checked_add (next_tie_order s) 1 of
        None \<Rightarrow> (Inl IdentitySpaceExhausted, s)
      | Some next \<Rightarrow> (Inr (next_tie_order s), s\<lparr>next_tie_order := next\<rparr>))"

definition reserve_event_sequences :: "nat \<Rightarrow> (TimerScheduler, TimerError, u64) sres" where
  "reserve_event_sequences count s =
     (if 2 ^ 64 \<le> count then (Inl IdentitySpaceExhausted, s)
      else case checked_add (next_event_sequence s) (word_of_nat count) of
        None \<Rightarrow> (Inl IdentitySpaceExhausted, s)
      | Some next \<Rightarrow> (Inr (next_event_sequence s), s\<lparr>next_event_sequence := next\<rparr>))"

definition schedule_at ::
  "TaskEpoch \<Rightarrow> MonotonicInstant \<Rightarrow> MonotonicInstant \<Rightarrow>
   (TimerScheduler, TimerError, TimerId \<times> TimerTransition) sres" where
  "schedule_at own now dl =
     sbind (check_observation now) (\<lambda>_ s.
       if len s = length (entries s) then (Inl (CapacityExhausted (length (entries s))), s)
       else
         sbind reserve_timer_id (\<lambda>i.
         sbind reserve_tie_order (\<lambda>tie.
         sbind (reserve_event_sequences 1) (\<lambda>seq s.
           let was = next_deadline s;
               s' = commit_observation now
                      (insert_sorted \<lparr>id = i, owner = own, deadline = dl, tie_order = tie\<rparr> s);
               evs = snd (batch_push
                      \<lparr>sequence = seq, observed_at = now, kind = TimerScheduled i own dl\<rparr>
                      (batch_new 1))
           in (Inr (i, \<lparr>events = evs, programming = between was (next_deadline s')\<rparr>), s')))) s)"

definition schedule_after ::
  "TaskEpoch \<Rightarrow> MonotonicInstant \<Rightarrow> u64 \<Rightarrow>
   (TimerScheduler, TimerError, TimerId \<times> TimerTransition) sres" where
  "schedule_after own now ticks =
     sbind (slift (ok_or (DurationOverflow now ticks) (checked_add now ticks)))
       (\<lambda>dl. schedule_at own now dl)"

definition cancel ::
  "TimerId \<Rightarrow> TaskEpoch \<Rightarrow> MonotonicInstant \<Rightarrow> (TimerScheduler, TimerError, TimerTransition) sres" where
  "cancel timer own now =
     sbind (check_observation now) (\<lambda>_ s.
     case find_timer timer s of
       None \<Rightarrow> (Inl (TimerNotFound timer), s)
     | Some index \<Rightarrow> (case entry s index of
         None \<Rightarrow> (Inl (TimerNotFound timer), s)
       | Some e \<Rightarrow>
           if owner e \<noteq> own then (Inl (TimerOwnerMismatch timer (owner e) own), s)
           else sbind (reserve_event_sequences 1) (\<lambda>seq s.
             let was = next_deadline s;
                 s' = commit_observation now (snd (remove_at index s));
                 evs = snd (batch_push
                   \<lparr>sequence = seq, observed_at = now, kind = TimerCancelled timer own Explicit\<rparr>
                   (batch_new 1))
             in (Inr \<lparr>events = evs, programming = between was (next_deadline s')\<rparr>, s')) s))"

text \<open>The loop of \<open>cancel_task\<close>: the index moves on only past timers that stay.\<close>

function cancel_loop ::
  "TaskEpoch \<Rightarrow> MonotonicInstant \<Rightarrow> u64 \<Rightarrow> TimerScheduler \<Rightarrow> nat \<Rightarrow> u64 \<Rightarrow> EventBatch \<Rightarrow>
   TimerScheduler \<times> EventBatch" where
  "cancel_loop dead now seq s index emitted evs =
     (if index < len s then
        (case entry s index of
           None \<Rightarrow> (s, evs)
         | Some e \<Rightarrow>
             if owner e = dead then
               cancel_loop dead now seq (snd (remove_at index s)) index (emitted + 1)
                 (snd (batch_push
                   \<lparr>sequence = seq + emitted, observed_at = now,
                    kind = TimerCancelled (id e) (owner e) TaskDeath\<rparr> evs))
             else cancel_loop dead now seq s (index + 1) emitted evs)
      else (s, evs))"
  by pat_completeness auto
termination
  by (relation "measure (\<lambda>(_, _, _, s, index, _, _). len s - index)")
    (auto simp: entry_def remove_at_def split: if_splits)

declare cancel_loop.simps [simp del]

definition cancel_task ::
  "TaskEpoch \<Rightarrow> MonotonicInstant \<Rightarrow> (TimerScheduler, TimerError, TimerTransition) sres" where
  "cancel_task dead now =
     sbind (check_observation now) (\<lambda>_ s.
     sbind (reserve_event_sequences (timers_of dead s)) (\<lambda>seq s.
       let was = next_deadline s;
           (s1, evs) = cancel_loop dead now seq s 0 0 (batch_new (length (entries s)));
           s' = commit_observation now s1
       in (Inr \<lparr>events = evs, programming = between was (next_deadline s')\<rparr>, s')) s)"

text \<open>What an expired timer turns into, and the loop of \<open>on_timer_expiry\<close>.\<close>

definition expiry_kind :: "(TaskEpoch \<Rightarrow> bool) \<Rightarrow> TimerEntry \<Rightarrow> SchedulingEventKind" where
  "expiry_kind is_live e =
     (if is_live (owner e) then TaskReady (owner e) (Timer (id e) (deadline e))
      else StaleTimerDiscarded (id e) (owner e) (deadline e))"

primrec expire_loop ::
  "(TaskEpoch \<Rightarrow> bool) \<Rightarrow> MonotonicInstant \<Rightarrow> u64 \<Rightarrow> nat \<Rightarrow> TimerScheduler \<Rightarrow> u64 \<Rightarrow> EventBatch \<Rightarrow>
   TimerScheduler \<times> EventBatch" where
  "expire_loop is_live now seq 0 s emitted evs = (s, evs)"
| "expire_loop is_live now seq (Suc n) s emitted evs =
     (case remove_at 0 s of
        (None, s') \<Rightarrow> (s', evs)
      | (Some e, s') \<Rightarrow>
          expire_loop is_live now seq n s' (emitted + 1)
            (snd (batch_push
              \<lparr>sequence = seq + emitted, observed_at = now, kind = expiry_kind is_live e\<rparr> evs)))"

definition on_timer_expiry ::
  "MonotonicInstant \<Rightarrow> (TaskEpoch \<Rightarrow> bool) \<Rightarrow> (TimerScheduler, TimerError, TimerTransition) sres" where
  "on_timer_expiry now is_live =
     sbind (check_observation now) (\<lambda>_ s.
       let due_count = length (takeWhile (\<lambda>e. deadline e \<le> now) (queue s))
       in sbind (reserve_event_sequences due_count) (\<lambda>seq s.
            let was = next_deadline s;
                (s1, evs) = expire_loop is_live now seq due_count s 0 (batch_new (length (entries s)));
                s' = commit_observation now s1
            in (Inr \<lparr>events = evs, programming = between was (next_deadline s')\<rparr>, s')) s)"

definition normalize_wake ::
  "TaskEpoch \<Rightarrow> MonotonicInstant \<Rightarrow> ReadyCause option \<Rightarrow>
   (TimerScheduler, TimerError, WakeTransition) sres" where
  "normalize_wake t now cause =
     sbind (check_observation now) (\<lambda>_.
     case cause of
       None \<Rightarrow> (\<lambda>s. (Inr \<lparr>disposition = StaleEpoch, event = None\<rparr>, commit_observation now s))
     | Some c \<Rightarrow> sbind (reserve_event_sequences 1) (\<lambda>seq s.
         (Inr \<lparr>disposition = Ready,
               event = Some \<lparr>sequence = seq, observed_at = now, kind = TaskReady t c\<rparr>\<rparr>,
          commit_observation now s)))"

definition on_notification ::
  "TaskEpoch \<Rightarrow> u64 \<Rightarrow> MonotonicInstant \<Rightarrow> (TaskEpoch \<Rightarrow> bool) \<Rightarrow>
   (TimerScheduler, TimerError, WakeTransition) sres" where
  "on_notification t badge now is_live =
     normalize_wake t now (if is_live t then Some (Notification badge) else None)"

definition on_yield ::
  "TaskEpoch \<Rightarrow> MonotonicInstant \<Rightarrow> (TaskEpoch \<Rightarrow> bool) \<Rightarrow>
   (TimerScheduler, TimerError, WakeTransition) sres" where
  "on_yield t now is_live = normalize_wake t now (if is_live t then Some Yield else None)"

section \<open>Platform timers\<close>

text \<open>
  The trait \<open>PlatformTimer\<close> over a platform state, and the service routine that reads the clock,
  expires timers, installs the next deadline and acknowledges the interrupt.
\<close>

record ('p, 'e) PlatformTimer =
  monotonic_now :: "('p, 'e, MonotonicInstant) sres"
  program_deadline :: "MonotonicInstant \<Rightarrow> ('p, 'e, unit) sres"
  disarm_timer :: "('p, 'e, unit) sres"
  acknowledge_timer_irq :: "('p, 'e, unit) sres"

definition apply_deadline_programming ::
  "('p, 'e) PlatformTimer \<Rightarrow> DeadlineProgramming \<Rightarrow> ('p, 'e, unit) sres" where
  "apply_deadline_programming pt decision =
     (case decision of
        Unchanged \<Rightarrow> sreturn ()
      | Program dl \<Rightarrow> program_deadline pt dl
      | Disarm \<Rightarrow> disarm_timer pt)"

datatype 'e ServiceTimerError =
    Clock 'e
  | Scheduler TimerError
  | ProgramFailed 'e TimerTransition
  | Acknowledge 'e TimerTransition

definition service_timer_source ::
  "('p, 'e) PlatformTimer \<Rightarrow> (TaskEpoch \<Rightarrow> bool) \<Rightarrow>
   (TimerScheduler \<times> 'p, 'e ServiceTimerError, TimerTransition) sres" where
  "service_timer_source pt is_live sp =
     (case sp of (s, p) \<Rightarrow>
      case monotonic_now pt p of
        (Inl e, p) \<Rightarrow> (Inl (Clock e), (s, p))
      | (Inr now, p) \<Rightarrow>
      case on_timer_expiry now is_live s of
        (Inl e, s) \<Rightarrow> (Inl (Scheduler e), (s, p))
      | (Inr t0, s) \<Rightarrow>
      let t = (case pending_programming s of
                 Some pending \<Rightarrow> t0\<lparr>programming := pending\<rparr> | None \<Rightarrow> t0)
      in case apply_deadline_programming pt (programming t) p of
        (Inl e, p) \<Rightarrow>
          (Inl (ProgramFailed e t), (s\<lparr>pending_programming := Some (programming t)\<rparr>, p))
      | (Inr _, p) \<Rightarrow>
      let s = s\<lparr>pending_programming := None\<rparr>
      in case acknowledge_timer_irq pt p of
        (Inl e, p) \<Rightarrow> (Inl (Acknowledge e t), (s, p))
      | (Inr _, p) \<Rightarrow> (Inr t, (s, p)))"

text \<open>
  The AArch64 adapter over the EL1 physical timer: the compare value, the control register, and
  the environment's answers, the \<open>n\<close>-th reading of the counter and the kernel's result of the
  \<open>n\<close>-th acknowledgement.
\<close>

datatype PlatformTimerAckError = RegistersUnavailable | RegisterAccess | AckRefused nat

record PhysicalTimerAdapter =
  cntpct :: "nat \<Rightarrow> u64"
  reads :: nat
  cntp_cval :: u64
  cntp_ctl :: u64
  irq_ack :: "nat \<Rightarrow> nat option"
  acks :: nat

definition CNTP_CTL_ENABLE :: u64 where
  "CNTP_CTL_ENABLE = 1"

definition adapter_now :: "(PhysicalTimerAdapter, PlatformTimerAckError, MonotonicInstant) sres" where
  "adapter_now p = (Inr (cntpct p (reads p)), p\<lparr>reads := reads p + 1\<rparr>)"

definition adapter_program :: "MonotonicInstant \<Rightarrow> (PhysicalTimerAdapter, PlatformTimerAckError, unit) sres" where
  "adapter_program dl p = (Inr (), p\<lparr>cntp_cval := dl, cntp_ctl := CNTP_CTL_ENABLE\<rparr>)"

definition adapter_disarm :: "(PhysicalTimerAdapter, PlatformTimerAckError, unit) sres" where
  "adapter_disarm p = (Inr (), p\<lparr>cntp_ctl := 0\<rparr>)"

definition adapter_ack :: "(PhysicalTimerAdapter, PlatformTimerAckError, unit) sres" where
  "adapter_ack p =
     (case irq_ack p (acks p) of
        Some e \<Rightarrow> (Inl (AckRefused e), p\<lparr>acks := acks p + 1\<rparr>)
      | None \<Rightarrow> (Inr (), p\<lparr>acks := acks p + 1\<rparr>))"

definition PhysicalTimer :: "(PhysicalTimerAdapter, PlatformTimerAckError) PlatformTimer" where
  "PhysicalTimer =
     \<lparr>monotonic_now = adapter_now, program_deadline = adapter_program,
      disarm_timer = adapter_disarm, acknowledge_timer_irq = adapter_ack\<rparr>"

text \<open>The deadline the hardware will interrupt at: the compare value while the timer is enabled.\<close>

definition armed :: "PhysicalTimerAdapter \<Rightarrow> MonotonicInstant option" where
  "armed p = (if cntp_ctl p AND CNTP_CTL_ENABLE = 0 then None else Some (cntp_cval p))"

section \<open>The queue of a state\<close>

lemma queue_updates [simp]:
  "queue (s\<lparr>last_observed := obs\<rparr>) = queue s"
  "queue (s\<lparr>next_event_sequence := n\<rparr>) = queue s"
  "queue (s\<lparr>pending_programming := p\<rparr>) = queue s"
  "next_deadline (s\<lparr>last_observed := obs\<rparr>) = next_deadline s"
  "next_deadline (s\<lparr>next_event_sequence := n\<rparr>) = next_deadline s"
  "next_deadline (s\<lparr>pending_programming := p\<rparr>) = next_deadline s"
  by (simp_all add: queue_def next_deadline_def entry_def)

text \<open>
  \<open>requeued s q s'\<close>: the scheduler \<open>s'\<close> is \<open>s\<close> with its array replaced by one of the same
  capacity that stands for \<open>q\<close>.
\<close>

definition requeued :: "TimerScheduler \<Rightarrow> TimerEntry list \<Rightarrow> TimerScheduler \<Rightarrow> bool" where
  "requeued s q s' \<longleftrightarrow>
     (\<exists>arr n. s' = s\<lparr>entries := arr, len := n\<rparr> \<and> packed arr n q \<and> length arr = length (entries s))"

lemma requeuedI [intro]:
  "packed arr n q \<Longrightarrow> length arr = length (entries s) \<Longrightarrow> requeued s q (s\<lparr>entries := arr, len := n\<rparr>)"
  unfolding requeued_def by blast

lemma requeued_facts:
  assumes "requeued s q s'"
  shows "queue s' = q" "len s' = length q" "length (entries s') = length (entries s)"
    "length q \<le> length (entries s)" "next_event_sequence s' = next_event_sequence s"
    "next_timer_id s' = next_timer_id s" "next_tie_order s' = next_tie_order s"
    "pending_programming s' = pending_programming s" "last_observed s' = last_observed s"
    "packed (entries s') (len s') q"
  using assms by (auto simp: requeued_def queue_def packed_live dest: packed_length)

lemma requeued_entry:
  "requeued s q s' \<Longrightarrow> entry s' i = (if i < length q then Some (q ! i) else None)"
  by (auto simp: requeued_facts entry_def packed_lookup [OF requeued_facts(10)])

lemma requeued_next_deadline:
  "requeued s q s' \<Longrightarrow> next_deadline s' = (case q of [] \<Rightarrow> None | e # _ \<Rightarrow> Some (deadline e))"
  by (simp add: next_deadline_def requeued_entry split: list.split)

lemma requeued_insert:
  assumes "requeued s q s'" and "length q < length (entries s)"
  shows "requeued s
    (insert_at (case position (earlier e) q of None \<Rightarrow> length q | Some k \<Rightarrow> k) e q)
    (insert_sorted e s')"
proof -
  obtain arr where s': "s' = s\<lparr>entries := arr, len := length q\<rparr>"
    and p: "packed arr (length q) q" and l: "length arr = length (entries s)"
    using assms(1) packed_length by (fastforce simp: requeued_def)
  let ?k = "case position (earlier e) q of None \<Rightarrow> length q | Some k \<Rightarrow> k"
  have k: "?k \<le> length q" by (auto simp: position_Some split: option.split)
  have "packed ((shift_up arr ?k (length q))[?k := Some e]) (Suc (length q)) (insert_at ?k e q)"
    using p assms(2) k by (intro packed_insert) (simp_all add: l)
  from requeuedI [OF this, of s] show ?thesis
    using l requeued_facts(1) [OF assms(1)]
    by (simp add: insert_sorted_def Let_def s' cong: option.case_cong)
qed

lemma requeued_remove:
  assumes "requeued s q s'" and "i < length q"
  obtains s'' where "remove_at i s' = (Some (q ! i), s'')" and "requeued s (remove_nth i q) s''"
proof -
  obtain arr where s': "s' = s\<lparr>entries := arr, len := length q\<rparr>"
    and p: "packed arr (length q) q" and l: "length arr = length (entries s)"
    using assms(1) packed_length by (fastforce simp: requeued_def)
  have "arr ! i = Some (q ! i)" using packed_lookup [OF p assms(2)] .
  then have "remove_at i s' = (Some (q ! i), s\<lparr>entries :=
      (shift_down (arr[i := None]) i (length q))[length q - 1 := None], len := length q - 1\<rparr>)"
    using assms(2) by (simp add: remove_at_def s')
  moreover have "packed ((shift_down (arr[i := None]) i (length q))[length q - 1 := None])
      (length q - 1) (remove_nth i q)"
    using p assms(2) by (rule packed_remove)
  ultimately show ?thesis
    using l by (intro that) auto
qed

section \<open>Event batches\<close>

definition batch_ok :: "EventBatch \<Rightarrow> bool" where
  "batch_ok b \<longleftrightarrow> packed (batch_entries b) (batch_len b) (batch_iter b)"

definition room :: "EventBatch \<Rightarrow> nat" where
  "room b = length (batch_entries b) - batch_len b"

lemma batch_new_simps [simp]: "batch_ok (batch_new n)" "batch_iter (batch_new n) = []" "room (batch_new n) = n"
  by (simp_all add: batch_ok_def batch_iter_def batch_new_def live_def room_def packed_empty
      List.map_filter_simps)

lemma batch_push_facts:
  assumes "batch_ok b" and "0 < room b"
  shows "batch_ok (snd (batch_push e b))" "batch_iter (snd (batch_push e b)) = batch_iter b @ [e]"
    "room (snd (batch_push e b)) = room b - 1" "fst (batch_push e b)"
proof -
  have "packed (batch_entries (snd (batch_push e b))) (batch_len (snd (batch_push e b)))
      (batch_iter b @ [e])"
    using assms packed_push [of "batch_entries b" "batch_len b" "batch_iter b" e]
    by (simp add: batch_ok_def room_def batch_push_def)
  then show "batch_iter (snd (batch_push e b)) = batch_iter b @ [e]" and "batch_ok (snd (batch_push e b))"
    by (simp_all add: batch_ok_def batch_iter_def packed_live)
  show "room (snd (batch_push e b)) = room b - 1" and "fst (batch_push e b)"
    using assms(2) by (auto simp: room_def batch_push_def)
qed

text \<open>A run of records with consecutive sequence numbers.\<close>

primrec stamp :: "u64 \<Rightarrow> MonotonicInstant \<Rightarrow> SchedulingEventKind list \<Rightarrow> SchedulingEvent list" where
  "stamp seq now [] = []"
| "stamp seq now (k # ks) =
     \<lparr>sequence = seq, observed_at = now, kind = k\<rparr> # stamp (seq + 1) now ks"

lemma length_stamp [simp]: "length (stamp seq now ks) = length ks"
  by (induction ks arbitrary: seq) simp_all

lemma kinds_stamp [simp]: "map kind (stamp seq now ks) = ks"
  by (induction ks arbitrary: seq) simp_all

section \<open>The loops\<close>

lemma cancel_loop_queue:
  assumes "requeued s q s'" and "i \<le> length q" and "batch_ok b"
    and "length (filter (\<lambda>e. owner e = dead) (drop i q)) \<le> room b"
  shows "\<exists>s'' b'. cancel_loop dead now seq s' i em b = (s'', b') \<and>
    requeued s (take i q @ filter (\<lambda>e. owner e \<noteq> dead) (drop i q)) s'' \<and>
    batch_iter b' = batch_iter b @ stamp (seq + em) now
       (map (\<lambda>e. TimerCancelled (id e) (owner e) TaskDeath) (filter (\<lambda>e. owner e = dead) (drop i q)))"
  using assms
proof (induction "length q - i" arbitrary: q s' i em b)
  case 0
  then show ?case
    by (subst cancel_loop.simps) (simp add: requeued_facts)
next
  case (Suc n)
  then have i: "i < length q" by simp
  then have d: "drop i q = q ! i # drop (Suc i) q" by (simp add: Cons_nth_drop_Suc)
  have e: "entry s' i = Some (q ! i)" and l: "len s' = length q"
    using Suc.prems(1) i by (simp_all add: requeued_entry requeued_facts)
  show ?case
  proof (cases "owner (q ! i) = dead")
    case True
    obtain s1 where s1: "remove_at i s' = (Some (q ! i), s1)" "requeued s (remove_nth i q) s1"
      using requeued_remove [OF Suc.prems(1) i] .
    let ?b = "snd (batch_push \<lparr>sequence = seq + em, observed_at = now,
        kind = TimerCancelled (id (q ! i)) dead TaskDeath\<rparr> b)"
    have r: "0 < room b" using Suc.prems(4) d True by simp
    note b = batch_push_facts [OF Suc.prems(3) r]
    have q: "drop i (remove_nth i q) = drop (Suc i) q" "take i (remove_nth i q) = take i q"
      using i by (simp_all add: remove_nth_def)
    have n: "n = length (remove_nth i q) - i" "i \<le> length (remove_nth i q)"
      using Suc.hyps(2) i by simp_all
    have room: "length (filter (\<lambda>e. owner e = dead) (drop i (remove_nth i q))) \<le> room ?b"
      using Suc.prems(4) d True by (simp add: b q)
    note IH = Suc.hyps(1) [where q = "remove_nth i q" and em = "em + 1", OF n(1) s1(2) n(2) b(1) room]
    show ?thesis
      using IH True by (subst cancel_loop.simps) (simp add: l i e s1(1) d q b add.assoc)
  next
    case False
    have q: "take (Suc i) q = take i q @ [q ! i]" using i by (simp add: take_Suc_conv_app_nth)
    have n: "n = length q - Suc i" "Suc i \<le> length q" using Suc.hyps(2) i by simp_all
    have room: "length (filter (\<lambda>e. owner e = dead) (drop (Suc i) q)) \<le> room b"
      using Suc.prems(4) d False by simp
    note IH = Suc.hyps(1) [where em = em, OF n(1) Suc.prems(1) n(2) Suc.prems(3) room]
    show ?thesis
      using IH False by (subst cancel_loop.simps) (simp add: l i e d q)
  qed
qed

lemma expire_loop_queue:
  assumes "requeued s q s'" and "n \<le> length q" and "batch_ok b" and "n \<le> room b"
  shows "\<exists>s'' b'. expire_loop is_live now seq n s' em b = (s'', b') \<and> requeued s (drop n q) s'' \<and>
    batch_iter b' = batch_iter b @ stamp (seq + em) now (map (expiry_kind is_live) (take n q))"
  using assms
proof (induction n arbitrary: q s' em b)
  case (Suc n)
  then obtain e q' where q: "q = e # q'" by (cases q) auto
  obtain s1 where s1: "remove_at 0 s' = (Some (q ! 0), s1)" "requeued s (remove_nth 0 q) s1"
    using requeued_remove [OF Suc.prems(1), of 0] q by auto
  let ?b = "snd (batch_push
      \<lparr>sequence = seq + em, observed_at = now, kind = expiry_kind is_live e\<rparr> b)"
  have r: "0 < room b" using Suc.prems(4) by simp
  note b = batch_push_facts [OF Suc.prems(3) r]
  have "n \<le> length (remove_nth 0 q)" and "n \<le> room ?b"
    using Suc.prems by (simp_all add: q b)
  note IH = Suc.IH [where em = "em + 1", OF s1(2) this(1) b(1) this(2)]
  show ?case
    using IH by (simp add: s1(1) q b add.assoc)
qed simp

section \<open>The invariant and the journal\<close>

definition timer_inv :: "TimerScheduler \<Rightarrow> bool" where
  "timer_inv s \<longleftrightarrow>
     requeued s (queue s) s \<and> sorted_wrt earlier (queue s) \<and> distinct (map id (queue s)) \<and>
     (\<forall>e \<in> set (queue s). id e < next_timer_id s \<and> tie_order e < next_tie_order s)"

text \<open>The pending timers as a map, and what an event record says about them.\<close>

definition agenda :: "TimerEntry list \<Rightarrow> (TimerId \<rightharpoonup> TaskEpoch \<times> MonotonicInstant)" where
  "agenda q = map_of (map (\<lambda>e. (id e, (owner e, deadline e))) q)"

fun apply_kind ::
  "SchedulingEventKind \<Rightarrow> (TimerId \<rightharpoonup> TaskEpoch \<times> MonotonicInstant) \<Rightarrow>
   (TimerId \<rightharpoonup> TaskEpoch \<times> MonotonicInstant)" where
  "apply_kind (TimerScheduled i t d) m = m(i \<mapsto> (t, d))"
| "apply_kind (TimerCancelled i t r) m = m(i := None)"
| "apply_kind (TaskReady t (Timer i d)) m = m(i := None)"
| "apply_kind (TaskReady t c) m = m"
| "apply_kind (StaleTimerDiscarded i t d) m = m(i := None)"

definition replay ::
  "SchedulingEvent list \<Rightarrow> (TimerId \<rightharpoonup> TaskEpoch \<times> MonotonicInstant) \<Rightarrow>
   (TimerId \<rightharpoonup> TaskEpoch \<times> MonotonicInstant)" where
  "replay evs = fold apply_kind (map kind evs)"

definition journals :: "TimerScheduler \<Rightarrow> SchedulingEvent list \<Rightarrow> TimerScheduler \<Rightarrow> bool" where
  "journals s evs s' \<longleftrightarrow>
     timer_inv s' \<and> length (entries s') = length (entries s) \<and>
     agenda (queue s') = replay evs (agenda (queue s)) \<and>
     (\<exists>now ks. evs = stamp (next_event_sequence s) now ks) \<and>
     unat (next_event_sequence s') = unat (next_event_sequence s) + length evs"

lemma replay_simps [simp]:
  "replay [] m = m"
  "replay (e # xs) m = replay xs (apply_kind (kind e) m)"
  "replay (xs @ ys) m = replay ys (replay xs m)"
  "replay (stamp seq now ks) m = fold apply_kind ks m"
  by (simp_all add: replay_def)

lemma transp_earlier: "transp earlier"
  by (auto simp: transp_def earlier_def)

lemma agenda_None: "i \<notin> id ` set q \<Longrightarrow> agenda q i = None"
  by (force simp: agenda_def map_of_eq_None_iff)

lemma agenda_simps [simp]:
  "agenda [] = Map.empty"
  "agenda (e # q) = (agenda q)(id e \<mapsto> (owner e, deadline e))"
  by (simp_all add: agenda_def)

lemma agenda_insert:
  assumes "distinct (map id q)" and "id e \<notin> id ` set q"
  shows "agenda (insert_at i e q) = (agenda q)(id e \<mapsto> (owner e, deadline e))"
proof -
  let ?f = "\<lambda>e. (id e, (owner e, deadline e))"
  have "map_of (map ?f (insert_at i e q)) = map_of (map ?f (e # q))"
    using assms by (subst map_of_inject_set) (auto simp: map_insert_at distinct_insert_at o_def)
  then show ?thesis by (simp add: agenda_def)
qed

lemma agenda_remove:
  assumes "distinct (map id q)"
    and "\<And>e m. e \<in> set q \<Longrightarrow> P e \<Longrightarrow> apply_kind (f e) m = m(id e := None)"
  shows "agenda (filter (\<lambda>e. \<not> P e) q) = fold apply_kind (map f (filter P q)) (agenda q)"
proof -
  have "fold apply_kind (map f es) m = m |` (- id ` set es)" if "set es \<subseteq> {e \<in> set q. P e}" for es m
    using that by (induction es arbitrary: m) (auto simp: assms(2) restrict_map_def fun_eq_iff)
  then have "fold apply_kind (map f (filter P q)) (agenda q) = agenda q |` (- id ` set (filter P q))"
    by auto
  moreover have "agenda (filter (\<lambda>e. \<not> P e) q) = agenda q |` (- id ` set (filter P q))"
    using assms(1)
  proof (induction q)
    case (Cons e q)
    then have "agenda q (id e) = None" and "id e \<notin> id ` set (filter P q)"
      by (auto intro: agenda_None)
    then show ?case
      using Cons by (auto simp: restrict_map_def fun_eq_iff)
  qed simp
  ultimately show ?thesis by simp
qed

lemma unat_stamp:
  "unat seq + length ks < 2 ^ 64 \<Longrightarrow> i < length ks \<Longrightarrow>
   unat (sequence (stamp seq now ks ! i)) = unat seq + i"
proof (induction ks arbitrary: seq i)
  case (Cons k ks)
  have seq: "unat (seq + 1) = unat seq + 1"
    using Cons.prems by (subst unat_add_fits) simp_all
  show ?case
    using Cons seq by (cases i) auto
qed simp

text \<open>Due timers are a prefix of the ordered queue.\<close>

lemma due_prefix:
  assumes "sorted_wrt earlier q"
  shows "take (length (takeWhile (\<lambda>e. deadline e \<le> now) q)) q = filter (\<lambda>e. deadline e \<le> now) q \<and>
    drop (length (takeWhile (\<lambda>e. deadline e \<le> now) q)) q = filter (\<lambda>e. \<not> deadline e \<le> now) q"
  using assms
proof (induction q)
  case (Cons e q)
  show ?case
  proof (cases "deadline e \<le> now")
    case False
    then have "filter (\<lambda>e. deadline e \<le> now) q = []" "filter (\<lambda>e. \<not> deadline e \<le> now) q = q"
      using Cons.prems by (auto simp: filter_empty_conv filter_id_conv earlier_def)
    then show ?thesis using False by simp
  qed (use Cons in simp)
qed simp

lemma filter_by_id:
  assumes "distinct (map id q)" and "i < length q" and "id (q ! i) = t"
  shows "filter (\<lambda>e. id e = t) q = [q ! i]"
  using assms
proof (induction q arbitrary: i)
  case (Cons e q)
  have none: "filter (\<lambda>x. id x = id e) q = []"
    using Cons.prems(1) by (auto simp: filter_empty_conv) (metis imageI)
  show ?case
  proof (cases i)
    case 0
    then show ?thesis using Cons.prems none by simp
  next
    case (Suc k)
    then have "q ! k \<in> set q" and "id (q ! k) = t" using Cons.prems by simp_all
    then have "id e \<noteq> t" using Cons.prems(1) by (auto simp: image_iff)
    then show ?thesis using Suc Cons by simp
  qed
qed simp

lemma remove_by_id:
  assumes "distinct (map id q)" and "position (\<lambda>e. id e = t) q = Some i"
  shows "remove_nth i q = filter (\<lambda>e. id e \<noteq> t) q"
  using assms
proof (induction q arbitrary: i)
  case (Cons e q)
  show ?case
  proof (cases "id e = t")
    case True
    have "id x \<noteq> t" if "x \<in> set q" for x
      using Cons.prems(1) True imageI [OF that, of id] by auto
    then have "filter (\<lambda>e. id e \<noteq> t) q = q" by (simp add: filter_id_conv)
    then show ?thesis using True Cons.prems by simp
  next
    case False
    then obtain k where "position (\<lambda>e. id e = t) q = Some k" and "i = Suc k"
      using Cons.prems(2) by (auto split: option.splits)
    then show ?thesis using Cons False by (simp add: remove_nth_def)
  qed
qed simp

section \<open>Every operation keeps the invariant and writes the journal\<close>

lemma timer_inv_iff:
  "timer_inv s \<longleftrightarrow>
     packed (entries s) (len s) (queue s) \<and> sorted_wrt earlier (queue s) \<and> distinct (map id (queue s)) \<and>
     (\<forall>e \<in> set (queue s). id e < next_timer_id s \<and> tie_order e < next_tie_order s)"
proof -
  have "s = s\<lparr>entries := entries s, len := len s\<rparr>" by simp
  then have "requeued s (queue s) s \<longleftrightarrow> packed (entries s) (len s) (queue s)"
    by (metis requeuedI requeued_facts(10))
  then show ?thesis by (simp add: timer_inv_def)
qed

text \<open>An operation that leaves the queue alone journals nothing.\<close>

lemma journals_idle:
  assumes "timer_inv s" and "entries s' = entries s" and "len s' = len s"
    and "next_timer_id s \<le> next_timer_id s'" and "next_tie_order s \<le> next_tie_order s'"
    and "next_event_sequence s' = next_event_sequence s"
  shows "journals s [] s'"
proof -
  have "queue s' = queue s" using assms(2,3) by (simp add: queue_def)
  moreover have "timer_inv s'"
    using assms calculation by (auto simp: timer_inv_iff intro: less_le_trans)
  moreover have "\<exists>now ks. [] = stamp (next_event_sequence s) now ks"
    by (rule exI, rule exI [of _ "[]"]) simp
  ultimately show ?thesis using assms by (simp add: journals_def)
qed

lemma check_observation_cases:
  obtains "check_observation now s = (Inr (), s)" | e where "check_observation now s = (Inl e, s)"
  by (cases "last_observed s"; cases "now < the (last_observed s)")
    (auto simp: check_observation_def)

lemma reserve_timer_id_cases:
  obtains "reserve_timer_id s = (Inl IdentitySpaceExhausted, s)"
  | n where "reserve_timer_id s = (Inr (next_timer_id s), s\<lparr>next_timer_id := n\<rparr>)"
    and "unat n = unat (next_timer_id s) + 1"
  by (cases "checked_add (next_timer_id s) 1") (auto simp: reserve_timer_id_def checked_add_iff)

lemma reserve_tie_order_cases:
  obtains "reserve_tie_order s = (Inl IdentitySpaceExhausted, s)"
  | n where "reserve_tie_order s = (Inr (next_tie_order s), s\<lparr>next_tie_order := n\<rparr>)"
    and "unat n = unat (next_tie_order s) + 1"
  by (cases "checked_add (next_tie_order s) 1") (auto simp: reserve_tie_order_def checked_add_iff)

lemma reserve_event_sequences_cases:
  obtains "reserve_event_sequences k s = (Inl IdentitySpaceExhausted, s)"
  | n where "reserve_event_sequences k s = (Inr (next_event_sequence s), s\<lparr>next_event_sequence := n\<rparr>)"
    and "unat n = unat (next_event_sequence s) + k"
proof (cases "2 ^ 64 \<le> k")
  case True
  then show ?thesis using that by (simp add: reserve_event_sequences_def)
next
  case False
  then have k: "unat (word_of_nat k :: u64) = k"
    by (simp add: unat_of_nat take_bit_eq_mod)
  show ?thesis
    using False that
    by (cases "checked_add (next_event_sequence s) (word_of_nat k)")
      (auto simp: reserve_event_sequences_def checked_add_iff k)
qed

text \<open>
  An operation that removes exactly the timers satisfying a predicate, and emits for each of
  them one record that withdraws it.
\<close>

lemma journals_removal:
  assumes inv: "timer_inv s" and q': "requeued s (filter (\<lambda>e. \<not> P e) (queue s)) s1"
    and evs: "evs = stamp (next_event_sequence s) now (map f (filter P (queue s)))"
    and f: "\<And>e m. e \<in> set (queue s) \<Longrightarrow> P e \<Longrightarrow> apply_kind (f e) m = m(id e := None)"
    and n: "unat n = unat (next_event_sequence s) + length (filter P (queue s))"
    and s': "s' = s1\<lparr>next_event_sequence := n, last_observed := obs\<rparr>"
  shows "journals s evs s'"
proof -
  note r = requeued_facts [OF q']
  have queue: "queue s' = filter (\<lambda>e. \<not> P e) (queue s)"
    using r(1) by (simp add: s' queue_def)
  have "timer_inv s'"
    using inv r queue by (auto simp: timer_inv_iff s' distinct_map sorted_wrt_filter intro: inj_on_subset)
  moreover have "agenda (queue s') = replay evs (agenda (queue s))"
    using agenda_remove [of "queue s" P f] inv f by (simp add: queue evs timer_inv_def)
  ultimately show ?thesis
    using r n by (auto simp: journals_def s' evs)
qed

definition scheduled_events :: "(TimerError, TimerId \<times> TimerTransition) res \<Rightarrow> SchedulingEvent list" where
  "scheduled_events r = (case r of Inl _ \<Rightarrow> [] | Inr (_, t) \<Rightarrow> batch_iter (events t))"

definition transition_events :: "(TimerError, TimerTransition) res \<Rightarrow> SchedulingEvent list" where
  "transition_events r = (case r of Inl _ \<Rightarrow> [] | Inr t \<Rightarrow> batch_iter (events t))"

definition wake_events :: "(TimerError, WakeTransition) res \<Rightarrow> SchedulingEvent list" where
  "wake_events r =
     (case r of Inl _ \<Rightarrow> [] | Inr w \<Rightarrow> (case event w of None \<Rightarrow> [] | Some e \<Rightarrow> [e]))"

lemmas events_defs = scheduled_events_def transition_events_def wake_events_def

lemma insert_sorted_inv:
  assumes inv: "timer_inv s" and room: "len s < length (entries s)"
    and e: "id e = next_timer_id s" "tie_order e = next_tie_order s"
    and s1: "s1 = s\<lparr>next_timer_id := i, next_tie_order := t, next_event_sequence := n\<rparr>"
    and fresh: "next_timer_id s < i" "next_tie_order s < t"
    and n: "unat n = unat (next_event_sequence s) + 1"
  shows "journals s (stamp (next_event_sequence s) now [TimerScheduled (id e) (owner e) (deadline e)])
    (commit_observation now (insert_sorted e s1))"
proof -
  let ?k = "case position (earlier e) (queue s) of None \<Rightarrow> length (queue s) | Some k \<Rightarrow> k"
  have q1: "queue s1 = queue s" by (simp add: s1 queue_def)
  have "requeued s1 (queue s) s1"
    using inv requeuedI [of "entries s1" "len s1" "queue s" s1] by (simp add: s1 timer_inv_iff)
  moreover have "length (queue s) < length (entries s1)"
    using inv room packed_length [of "entries s" "len s"] by (auto simp: s1 timer_inv_iff)
  ultimately have r: "requeued s1 (insert_at ?k e (queue s)) (insert_sorted e s1)"
    by (rule requeued_insert)
  note f = requeued_facts [OF r]
  have fresh_id: "id e \<notin> id ` set (queue s)" and order: "\<And>y. y \<in> set (queue s) \<Longrightarrow> earlier e y \<or> earlier y e"
    using inv by (auto simp: timer_inv_def e earlier_def)
  have "sorted_wrt earlier (insert_at ?k e (queue s))"
    using inv order by (intro sorted_wrt_insert_position transp_earlier) (auto simp: timer_inv_def)
  moreover have "distinct (map id (insert_at ?k e (queue s)))"
    using inv fresh_id by (simp add: timer_inv_def map_insert_at distinct_insert_at)
  ultimately have "timer_inv (commit_observation now (insert_sorted e s1))"
    using inv f fresh by (auto simp: timer_inv_iff commit_observation_def queue_def [of "_\<lparr>last_observed := _\<rparr>"]
        packed_live s1 e intro: less_trans)
  moreover have "agenda (queue (commit_observation now (insert_sorted e s1))) =
      (agenda (queue s))(id e \<mapsto> (owner e, deadline e))"
    using f(1) agenda_insert [OF _ fresh_id] inv
    by (simp add: commit_observation_def queue_def timer_inv_def)
  moreover have "\<exists>t ks. stamp (next_event_sequence s) now [TimerScheduled (id e) (owner e) (deadline e)] =
      stamp (next_event_sequence s) t ks" by blast
  ultimately show ?thesis
    unfolding journals_def using f n by (simp add: commit_observation_def s1)
qed

lemma schedule_at_journals:
  assumes inv: "timer_inv s" and run: "schedule_at own now dl s = (r, s')"
  shows "journals s (scheduled_events r) s'"
proof -
  note idle = journals_idle [OF inv]
  consider (clock) e where "check_observation now s = (Inl e, s)"
    | (full) "check_observation now s = (Inr (), s)" "len s = length (entries s)"
    | (go) "check_observation now s = (Inr (), s)" "len s \<noteq> length (entries s)"
    by (rule check_observation_cases [of now s]) auto
  then show ?thesis
  proof cases
    case clock
    then show ?thesis using run idle by (auto simp: schedule_at_def events_defs)
  next
    case full
    then show ?thesis using run idle by (auto simp: schedule_at_def events_defs)
  next
    case go
    then have l: "len s < length (entries s)"
      using inv packed_length [of "entries s" "len s"] by (fastforce simp: timer_inv_iff)
    show ?thesis
    proof (cases s rule: reserve_timer_id_cases)
      case 1
      then show ?thesis using go run idle by (auto simp: schedule_at_def events_defs)
    next
      case (2 i)
      note i = this
      let ?s = "s\<lparr>next_timer_id := i\<rparr>"
      show ?thesis
      proof (cases ?s rule: reserve_tie_order_cases)
        case 1
        then show ?thesis
          using go i run idle by (auto simp: schedule_at_def events_defs word_le_nat_alt)
      next
        case (2 t)
        note t = this
        let ?t = "?s\<lparr>next_tie_order := t\<rparr>"
        show ?thesis
        proof (cases "1 :: nat" ?t rule: reserve_event_sequences_cases)
          case 1
          then show ?thesis
            using go i t run idle by (auto simp: schedule_at_def events_defs word_le_nat_alt)
        next
          case (2 n)
          let ?e = "\<lparr>id = next_timer_id s, owner = own, deadline = dl, tie_order = next_tie_order s\<rparr>"
          have "journals s (stamp (next_event_sequence s) now [TimerScheduled (id ?e) (owner ?e) (deadline ?e)])
              (commit_observation now (insert_sorted ?e (?t\<lparr>next_event_sequence := n\<rparr>)))"
            using i t 2 by (intro insert_sorted_inv [OF inv l]) (auto simp: word_less_nat_alt)
          then show ?thesis
            using go i t 2 run
            by (auto simp: schedule_at_def events_defs Let_def batch_push_facts)
        qed
      qed
    qed
  qed
qed

lemma schedule_after_journals:
  assumes "timer_inv s" and "schedule_after own now ticks s = (r, s')"
  shows "journals s (scheduled_events r) s'"
proof (cases "checked_add now ticks")
  case None
  then show ?thesis
    using assms journals_idle [OF assms(1)] by (auto simp: schedule_after_def events_defs)
next
  case (Some dl)
  then show ?thesis
    using assms by (auto simp: schedule_after_def intro: schedule_at_journals)
qed

lemma cancel_one:
  assumes inv: "timer_inv s" and pos: "find_timer timer s = Some i"
    and n: "unat n = unat (next_event_sequence s) + 1"
  shows "journals s (stamp (next_event_sequence s) now [TimerCancelled timer own Explicit])
    (commit_observation now (snd (remove_at i (s\<lparr>next_event_sequence := n\<rparr>))))"
proof -
  let ?s = "s\<lparr>next_event_sequence := n\<rparr>"
  have i: "i < length (queue s)" and idt: "id (queue s ! i) = timer"
    and p: "position (\<lambda>e. id e = timer) (queue s) = Some i"
    using pos by (auto simp: find_timer_def position_Some)
  have "requeued ?s (queue s) ?s"
    using inv requeuedI [of "entries ?s" "len ?s" "queue s" ?s] by (simp add: timer_inv_iff)
  then obtain s1 where s1: "remove_at i ?s = (Some (queue s ! i), s1)"
    and r1: "requeued ?s (remove_nth i (queue s)) s1"
    using requeued_remove [OF _ i] by metis
  have d: "distinct (map id (queue s))" using inv by (simp add: timer_inv_def)
  obtain arr k where s1': "s1 = ?s\<lparr>entries := arr, len := k\<rparr>"
    and pk: "packed arr k (remove_nth i (queue s))" "length arr = length (entries s)"
    using r1 by (auto simp: requeued_def)
  have "journals s (stamp (next_event_sequence s) now [TimerCancelled timer own Explicit])
      (commit_observation now s1)"
  proof (rule journals_removal [where obs = "Some now", OF inv])
    show "requeued s (filter (\<lambda>e. \<not> id e = timer) (queue s)) (s\<lparr>entries := arr, len := k\<rparr>)"
      using pk remove_by_id [OF d p] by auto
    show "unat n = unat (next_event_sequence s) + length (filter (\<lambda>e. id e = timer) (queue s))"
      using n filter_by_id [OF d i idt] by simp
    show "stamp (next_event_sequence s) now [TimerCancelled timer own Explicit] =
      stamp (next_event_sequence s) now
        (map (\<lambda>_. TimerCancelled timer own Explicit) (filter (\<lambda>e. id e = timer) (queue s)))"
      using filter_by_id [OF d i idt] by simp
  qed (simp_all add: s1' commit_observation_def)
  then show ?thesis by (simp add: s1)
qed

lemma cancel_journals:
  assumes inv: "timer_inv s" and run: "cancel timer own now s = (r, s')"
  shows "journals s (transition_events r) s'"
proof -
  have idle: ?thesis if "r = Inl e" "s' = s" for e
    using that journals_idle [OF inv] by (simp add: events_defs)
  show ?thesis
  proof (cases now s rule: check_observation_cases)
    case (2 e)
    then show ?thesis using run idle by (auto simp: cancel_def)
  next
    case 1
    note now = this
    show ?thesis
    proof (cases "find_timer timer s")
      case None
      then show ?thesis using run now idle by (auto simp: cancel_def)
    next
      case (Some i)
      note run = run [unfolded cancel_def sbind_simps(2) [of "check_observation now", OF now] Some option.case]
      show ?thesis
      proof (cases "entry s i")
        case None
        then show ?thesis using run idle by auto
      next
        case (Some e)
        show ?thesis
        proof (cases "1 :: nat" s rule: reserve_event_sequences_cases)
          case 1
          then show ?thesis using run Some idle by (auto split: if_splits)
        next
          case (2 n)
          then show ?thesis
            using run Some idle cancel_one [OF inv \<open>find_timer timer s = Some i\<close> 2(2), of now own]
            by (auto simp: events_defs Let_def batch_push_facts split: if_splits)
        qed
      qed
    qed
  qed
qed

lemma requeued_sequence:
  assumes "timer_inv s"
  shows "requeued (s\<lparr>next_event_sequence := n\<rparr>) (queue s) (s\<lparr>next_event_sequence := n\<rparr>)"
  using assms requeuedI [of "entries s" "len s" "queue s" "s\<lparr>next_event_sequence := n\<rparr>"]
  by (simp add: timer_inv_iff)

lemma requeued_forget_sequence:
  assumes "requeued (s\<lparr>next_event_sequence := n\<rparr>) q s1"
  obtains arr k where "s1 = s\<lparr>entries := arr, len := k, next_event_sequence := n\<rparr>"
    and "requeued s q (s\<lparr>entries := arr, len := k\<rparr>)"
proof -
  obtain arr k where "s1 = s\<lparr>next_event_sequence := n, entries := arr, len := k\<rparr>"
    and "packed arr k q" and "length arr = length (entries s)"
    using assms by (auto simp: requeued_def)
  then show ?thesis by (intro that [of k arr] requeuedI) simp_all
qed

lemma cancel_task_journals:
  assumes inv: "timer_inv s" and run: "cancel_task dead now s = (r, s')"
  shows "journals s (transition_events r) s'"
proof (cases now s rule: check_observation_cases)
  case (2 e)
  then show ?thesis
    using run journals_idle [OF inv] by (auto simp: cancel_task_def events_defs)
next
  case 1
  note now = this
  show ?thesis
  proof (cases "timers_of dead s" s rule: reserve_event_sequences_cases)
    case 1
    then show ?thesis
      using run now journals_idle [OF inv] by (auto simp: cancel_task_def events_defs)
  next
    case (2 n)
    let ?s = "s\<lparr>next_event_sequence := n\<rparr>"
    let ?P = "\<lambda>e. owner e = dead"
    have "length (queue s) \<le> length (entries s)"
      using inv packed_length [of "entries s" "len s" "queue s"] by (simp add: timer_inv_iff)
    then have "length (filter ?P (queue s)) \<le> length (entries s)"
      using length_filter_le [of ?P "queue s"] by linarith
    then obtain s1 b where loop: "cancel_loop dead now (next_event_sequence s) ?s 0 0
          (batch_new (length (entries s))) = (s1, b)"
      and rq: "requeued ?s (filter (\<lambda>e. \<not> ?P e) (queue s)) s1"
      and b: "batch_iter b = stamp (next_event_sequence s) now
        (map (\<lambda>e. TimerCancelled (id e) (owner e) TaskDeath) (filter ?P (queue s)))"
      using cancel_loop_queue [OF requeued_sequence [OF inv, of n], where i = 0 and em = 0 and dead = dead
          and b = "batch_new (length (entries s))" and seq = "next_event_sequence s" and now = now]
      by auto
    obtain arr k where s1: "s1 = s\<lparr>entries := arr, len := k, next_event_sequence := n\<rparr>"
      and "requeued s (filter (\<lambda>e. \<not> ?P e) (queue s)) (s\<lparr>entries := arr, len := k\<rparr>)"
      using requeued_forget_sequence [OF rq] .
    then have "journals s (batch_iter b) (commit_observation now s1)"
      using 2 b
      by (intro journals_removal [where obs = "Some now" and P = ?P
            and f = "\<lambda>e. TimerCancelled (id e) (owner e) TaskDeath", OF inv])
        (simp_all add: timers_of_def commit_observation_def)
    then show ?thesis
      using now 2 run by (auto simp: cancel_task_def loop Let_def events_defs)
  qed
qed

lemma on_timer_expiry_run:
  assumes inv: "timer_inv s" and run: "on_timer_expiry now is_live s = (r, s')"
  obtains e where "r = Inl e" and "s' = s"
  | t where "r = Inr t" and "batch_iter (events t) = stamp (next_event_sequence s) now
        (map (expiry_kind is_live) (filter (\<lambda>e. deadline e \<le> now) (queue s)))"
    and "queue s' = filter (\<lambda>e. \<not> deadline e \<le> now) (queue s)"
    and "programming t = between (next_deadline s) (next_deadline s')"
    and "pending_programming s' = pending_programming s"
    and "journals s (batch_iter (events t)) s'"
proof (cases now s rule: check_observation_cases)
  case (2 e)
  then show ?thesis using run that(1) by (auto simp: on_timer_expiry_def)
next
  case 1
  note now = this
  let ?n = "length (takeWhile (\<lambda>e. deadline e \<le> now) (queue s))"
  let ?P = "\<lambda>e. deadline e \<le> now"
  have due: "take ?n (queue s) = filter ?P (queue s)" "drop ?n (queue s) = filter (\<lambda>e. \<not> ?P e) (queue s)"
    using due_prefix [of "queue s" now] inv by (auto simp: timer_inv_def)
  have nq: "?n \<le> length (queue s)" by (rule length_takeWhile_le)
  have len: "length (filter ?P (queue s)) = ?n" using nq by (simp flip: due(1))
  show ?thesis
  proof (cases ?n s rule: reserve_event_sequences_cases)
    case 1
    then show ?thesis using run now that(1) by (auto simp: on_timer_expiry_def)
  next
    case (2 n)
    let ?s = "s\<lparr>next_event_sequence := n\<rparr>"
    have "?n \<le> length (entries s)"
      using nq inv packed_length [of "entries s" "len s" "queue s"] by (simp add: timer_inv_iff)
    then obtain s1 b where loop: "expire_loop is_live now (next_event_sequence s) ?n ?s 0
          (batch_new (length (entries s))) = (s1, b)"
      and rq: "requeued ?s (filter (\<lambda>e. \<not> ?P e) (queue s)) s1"
      and b: "batch_iter b = stamp (next_event_sequence s) now (map (expiry_kind is_live) (filter ?P (queue s)))"
      using expire_loop_queue [OF requeued_sequence [OF inv, of n] nq, where em = 0 and is_live = is_live
          and b = "batch_new (length (entries s))" and seq = "next_event_sequence s" and now = now]
      by (auto simp: due)
    obtain arr k where s1: "s1 = s\<lparr>entries := arr, len := k, next_event_sequence := n\<rparr>"
      and r1: "requeued s (filter (\<lambda>e. \<not> ?P e) (queue s)) (s\<lparr>entries := arr, len := k\<rparr>)"
      using requeued_forget_sequence [OF rq] .
    have "journals s (batch_iter b) (commit_observation now s1)"
      using 2 b s1 r1
      by (intro journals_removal [where obs = "Some now" and P = ?P and f = "expiry_kind is_live", OF inv])
        (simp_all add: commit_observation_def expiry_kind_def len)
    moreover have "next_deadline ?s = next_deadline s"
      by (simp add: next_deadline_def entry_def)
    ultimately show ?thesis
      using that(2) now 2 run b requeued_facts(1,8) [OF rq]
      by (auto simp: on_timer_expiry_def loop Let_def commit_observation_def)
  qed
qed

lemma on_timer_expiry_journals:
  assumes "timer_inv s" and "on_timer_expiry now is_live s = (r, s')"
  shows "journals s (transition_events r) s'"
  by (rule on_timer_expiry_run [OF assms])
    (simp_all add: events_defs journals_idle [OF assms(1)])

lemma normalize_wake_journals:
  assumes inv: "timer_inv s" and run: "normalize_wake t now cause s = (r, s')"
    and "\<And>i d. cause \<noteq> Some (Timer i d)"
  shows "journals s (wake_events r) s'"
proof -
  have c: "apply_kind (TaskReady t c) m = m" if "cause = Some c" for c m
    using that assms(3) by (cases c) auto
  show ?thesis
  proof (cases now s rule: check_observation_cases)
    case (2 e)
    then show ?thesis
      using run journals_idle [OF inv] by (auto simp: normalize_wake_def events_defs)
  next
    case 1
    note now = this
    show ?thesis
    proof (cases cause)
      case None
      then show ?thesis
        using run now journals_idle [OF inv]
        by (auto simp: normalize_wake_def events_defs commit_observation_def)
    next
      case (Some cz)
      show ?thesis
      proof (cases "1 :: nat" s rule: reserve_event_sequences_cases)
        case 1
        then show ?thesis
          using run now Some journals_idle [OF inv] by (auto simp: normalize_wake_def events_defs)
      next
        case (2 n)
        have "journals s (stamp (next_event_sequence s) now [TaskReady t cz])
            (commit_observation now (s\<lparr>next_event_sequence := n\<rparr>))"
          using inv 2 c [OF Some]
          by (auto simp: journals_def timer_inv_iff commit_observation_def queue_def replay_def
              simp del: stamp.simps)
        then show ?thesis
          using run now Some 2 by (auto simp: normalize_wake_def events_defs)
      qed
    qed
  qed
qed

section \<open>Runs\<close>

text \<open>
  What a run has established so far: the queue invariant, and a log whose replay gives the pending
  timers and whose records are numbered from zero without a gap.
\<close>

definition faithful :: "nat \<Rightarrow> TimerScheduler \<Rightarrow> SchedulingEvent list \<Rightarrow> bool" where
  "faithful capacity s log \<longleftrightarrow>
     timer_inv s \<and> length (entries s) = capacity \<and> agenda (queue s) = replay log Map.empty \<and>
     (\<forall>i < length log. unat (sequence (log ! i)) = i) \<and>
     unat (next_event_sequence s) = length log"

text \<open>The contract every operation of the scheduler meets, and what it gives a run.\<close>

locale scheduler_op =
  fixes step :: "TimerScheduler \<Rightarrow> 'r \<times> TimerScheduler"
    and emitted :: "'r \<Rightarrow> SchedulingEvent list"
  assumes journals_step: "timer_inv s \<Longrightarrow> step s = (r, s') \<Longrightarrow> journals s (emitted r) s'"
begin

lemma step_faithful:
  assumes "faithful capacity s log" and run: "step s = (r, s')"
  shows "faithful capacity s' (log @ emitted r)"
proof -
  have j: "journals s (emitted r) s'"
    using assms journals_step by (simp add: faithful_def)
  then obtain now ks where evs: "emitted r = stamp (next_event_sequence s) now ks"
    and n: "unat (next_event_sequence s') = unat (next_event_sequence s) + length (emitted r)"
    by (auto simp: journals_def)
  have "unat (next_event_sequence s) + length ks < 2 ^ 64"
    using n unat_less_u64 [of "next_event_sequence s'"] by (simp add: evs)
  then have "unat (sequence (emitted r ! i)) = length log + i" if "i < length (emitted r)" for i
    using that assms(1) unat_stamp [of "next_event_sequence s" ks i now] by (simp add: evs faithful_def)
  then show ?thesis
    using assms(1) j n by (auto simp: faithful_def journals_def nth_append)
qed

end

interpretation schedule_at_op: scheduler_op "schedule_at own now dl" scheduled_events for own now dl
  by unfold_locales (rule schedule_at_journals)

interpretation schedule_after_op: scheduler_op "schedule_after own now ticks" scheduled_events for own now ticks
  by unfold_locales (rule schedule_after_journals)

interpretation cancel_op: scheduler_op "cancel timer own now" transition_events for timer own now
  by unfold_locales (rule cancel_journals)

interpretation cancel_task_op: scheduler_op "cancel_task dead now" transition_events for dead now
  by unfold_locales (rule cancel_task_journals)

interpretation expiry_op: scheduler_op "on_timer_expiry now is_live" transition_events for now is_live
  by unfold_locales (rule on_timer_expiry_journals)

interpretation notification_op: scheduler_op "on_notification t badge now is_live" wake_events
  for t badge now is_live
  by unfold_locales (unfold on_notification_def, erule (1) normalize_wake_journals, simp split: if_splits)

interpretation yield_op: scheduler_op "on_yield t now is_live" wake_events for t now is_live
  by unfold_locales (unfold on_yield_def, erule (1) normalize_wake_journals, simp split: if_splits)

text \<open>
  A run of the scheduler with the records it has handed out.  Servicing the timer source is an
  expiry followed by an update of the programming that is still owed.
\<close>

inductive timer_run :: "nat \<Rightarrow> TimerScheduler \<Rightarrow> SchedulingEvent list \<Rightarrow> bool" for capacity where
  start: "timer_run capacity (scheduler_new capacity) []"
| schedule_at: "timer_run capacity s log \<Longrightarrow> schedule_at own now dl s = (r, s') \<Longrightarrow>
    timer_run capacity s' (log @ scheduled_events r)"
| schedule_after: "timer_run capacity s log \<Longrightarrow> schedule_after own now ticks s = (r, s') \<Longrightarrow>
    timer_run capacity s' (log @ scheduled_events r)"
| cancel: "timer_run capacity s log \<Longrightarrow> cancel timer own now s = (r, s') \<Longrightarrow>
    timer_run capacity s' (log @ transition_events r)"
| cancel_task: "timer_run capacity s log \<Longrightarrow> cancel_task dead now s = (r, s') \<Longrightarrow>
    timer_run capacity s' (log @ transition_events r)"
| expiry: "timer_run capacity s log \<Longrightarrow> on_timer_expiry now is_live s = (r, s') \<Longrightarrow>
    timer_run capacity s' (log @ transition_events r)"
| notification: "timer_run capacity s log \<Longrightarrow> on_notification t badge now is_live s = (w, s') \<Longrightarrow>
    timer_run capacity s' (log @ wake_events w)"
| yield: "timer_run capacity s log \<Longrightarrow> on_yield t now is_live s = (w, s') \<Longrightarrow>
    timer_run capacity s' (log @ wake_events w)"
| owed: "timer_run capacity s log \<Longrightarrow> timer_run capacity (s\<lparr>pending_programming := p\<rparr>) log"

lemma timer_run_faithful: "timer_run capacity s log \<Longrightarrow> faithful capacity s log"
proof (induction rule: timer_run.induct)
  case start
  show ?case
    by (simp add: faithful_def timer_inv_iff scheduler_new_def queue_def live_def packed_empty
        List.map_filter_simps)
next
  case (owed s log p)
  then show ?case by (simp add: faithful_def timer_inv_iff)
qed (blast intro: schedule_at_op.step_faithful schedule_after_op.step_faithful cancel_op.step_faithful
    cancel_task_op.step_faithful expiry_op.step_faithful notification_op.step_faithful
    yield_op.step_faithful)+

section \<open>Properties of the queue\<close>

lemma earliest_first:
  assumes "sorted_wrt earlier (e # q)"
  shows "Min (deadline ` set (e # q)) = deadline e"
  using assms by (intro Min_eqI) (auto simp: earlier_def)

text \<open>
  In every state a run reaches, the queue holds at most the capacity, is strictly ordered by
  deadline and insertion among equal deadlines, holds no timer twice, and \<open>next_deadline\<close> is the
  earliest deadline queued.
\<close>

theorem timer_queue_ordered:
  assumes "timer_run capacity s log"
  shows "len s = length (queue s) \<and> len s \<le> capacity \<and> sorted_wrt earlier (queue s) \<and>
    distinct (map id (queue s)) \<and>
    next_deadline s = (if queue s = [] then None else Some (Min (deadline ` set (queue s))))"
proof -
  have inv: "timer_inv s" and cap: "length (entries s) = capacity"
    using timer_run_faithful [OF assms] by (simp_all add: faithful_def)
  have rq: "requeued s (queue s) s" and sorted: "sorted_wrt earlier (queue s)"
    using inv by (simp_all add: timer_inv_def)
  have "next_deadline s = (if queue s = [] then None else Some (Min (deadline ` set (queue s))))"
    using earliest_first sorted requeued_next_deadline [OF rq]
    by (cases "queue s") (auto simp del: list.set)
  then show ?thesis
    using inv cap requeued_facts [OF rq] by (simp add: timer_inv_def)
qed

text \<open>
  C5: the records a run hands out are a journal of the scheduler.  Replaying them from nothing
  gives exactly the pending timers with their owners and deadlines, and their sequence numbers are
  0, 1, 2 and so on without a gap.
\<close>

theorem timer_journal:
  assumes "timer_run capacity s log"
  shows "agenda (queue s) = replay log Map.empty \<and> (\<forall>i < length log. unat (sequence (log ! i)) = i)"
  using timer_run_faithful [OF assms] by (simp add: faithful_def)

text \<open>
  C21: an expiry at a time removes exactly the timers whose deadline has come, reports each of them
  once, in queue order, as a wake of its owner or, when the owner's epoch is gone, as a discarded
  stale timer, and asks for the deadline that is now first.
\<close>

theorem timer_expiry_exact:
  assumes "timer_run capacity s log" and "on_timer_expiry now is_live s = (Inr t, s')"
  shows "queue s' = filter (\<lambda>e. now < deadline e) (queue s) \<and>
    map kind (batch_iter (events t)) =
      map (\<lambda>e. if is_live (owner e) then TaskReady (owner e) (Timer (id e) (deadline e))
               else StaleTimerDiscarded (id e) (owner e) (deadline e))
        (filter (\<lambda>e. deadline e \<le> now) (queue s)) \<and>
    programming t = between (next_deadline s) (next_deadline s')"
proof -
  have "timer_inv s" using timer_run_faithful [OF assms(1)] by (simp add: faithful_def)
  from this assms(2) show ?thesis
    by (rule on_timer_expiry_run) (auto simp: expiry_kind_def not_le)
qed

section \<open>The deadline the platform is armed with\<close>

text \<open>
  What the scheduler relies on from a platform timer: reading the clock and acknowledging the
  interrupt leave the programmed deadline alone, and programming or disarming takes effect.
\<close>

locale platform_timer =
  fixes pt :: "('p, 'e) PlatformTimer" and programmed :: "'p \<Rightarrow> MonotonicInstant option"
  assumes now_keeps: "monotonic_now pt p = (r, p') \<Longrightarrow> programmed p' = programmed p"
    and program_takes: "program_deadline pt d p = (Inr u, p') \<Longrightarrow> programmed p' = Some d"
    and disarm_takes: "disarm_timer pt p = (Inr u, p') \<Longrightarrow> programmed p' = None"
    and ack_keeps: "acknowledge_timer_irq pt p = (a, p') \<Longrightarrow> programmed p' = programmed p"
begin

lemma apply_between:
  assumes "apply_deadline_programming pt (between was after) p = (Inr u, p')"
    and "programmed p = was"
  shows "programmed p' = after"
  using assms program_takes disarm_takes
  by (auto simp: apply_deadline_programming_def between_def split: if_splits option.splits)

lemma apply_pending:
  assumes "apply_deadline_programming pt (Program d) p = (Inr u, p')"
  shows "programmed p' = Some d"
  using assms program_takes by (simp add: apply_deadline_programming_def)

text \<open>
  A serviced interrupt expires timers and then applies the programming that is still owed, or
  the one the change of the first deadline asks for.
\<close>

lemma service_effect:
  assumes inv: "timer_inv s" and ok: "service_timer_source pt is_live (s, p) = (Inr t, (s', p'))"
  obtains p1 p2 where "timer_inv s'" and "pending_programming s' = None"
    and "programmed p1 = programmed p" and "programmed p' = programmed p2"
    and "apply_deadline_programming pt (case pending_programming s of Some pending \<Rightarrow> pending
      | None \<Rightarrow> between (next_deadline s) (next_deadline s')) p1 = (Inr (), p2)"
proof -
  obtain now p1 t0 s1 p2 where now: "monotonic_now pt p = (Inr now, p1)"
    and e: "on_timer_expiry now is_live s = (Inr t0, s1)"
    and a: "apply_deadline_programming pt
      (case pending_programming s1 of Some pending \<Rightarrow> pending | None \<Rightarrow> programming t0) p1 = (Inr (), p2)"
    and s': "s' = s1\<lparr>pending_programming := None\<rparr>" and ack: "acknowledge_timer_irq pt p2 = (Inr (), p')"
    using ok unfolding service_timer_source_def Let_def
    by (auto split: prod.splits sum.splits option.splits)
  have "timer_inv s'"
    using on_timer_expiry_journals [OF inv e] by (simp add: journals_def s' timer_inv_iff)
  moreover have "programming t0 = between (next_deadline s) (next_deadline s')"
    and "pending_programming s1 = pending_programming s"
    by (rule on_timer_expiry_run [OF inv e]; simp add: s')+
  ultimately show ?thesis
    using a s' now_keeps [OF now] ack_keeps [OF ack]
    by (intro that [of p1 p2]) (simp_all cong: option.case_cong)
qed

lemma service_arms_next:
  assumes "timer_inv s" and "pending_programming s = None" and "programmed p = next_deadline s"
    and "service_timer_source pt is_live (s, p) = (Inr t, (s', p'))"
  shows "programmed p' = next_deadline s'"
  using service_effect [OF assms(1,4)] apply_between assms(2,3) by simp metis

lemma service_applies_pending:
  assumes "timer_inv s" and "pending_programming s = Some (Program d)"
    and "service_timer_source pt is_live (s, p) = (Inr t, (s', p'))"
  shows "programmed p' = Some d \<and> pending_programming s' = None \<and> timer_inv s'"
  using service_effect [OF assms(1,3)] apply_pending assms(2) by simp metis

lemma service_unchanged:
  assumes "timer_inv s" and "pending_programming s = None"
    and "service_timer_source pt is_live (s, p) = (Inr t, (s', p'))" and "next_deadline s' = next_deadline s"
  shows "programmed p' = programmed p"
proof (rule service_effect [OF assms(1,3)])
  fix p1 p2
  assume "programmed p1 = programmed p" and "programmed p' = programmed p2"
    and "apply_deadline_programming pt (case pending_programming s of Some pending \<Rightarrow> pending
      | None \<Rightarrow> between (next_deadline s) (next_deadline s')) p1 = (Inr (), p2)"
  then show ?thesis
    using assms(2,4) by (simp add: between_def apply_deadline_programming_def)
qed

end

interpretation physical: platform_timer PhysicalTimer armed
  by unfold_locales
    (auto simp: PhysicalTimer_def adapter_now_def adapter_program_def adapter_disarm_def adapter_ack_def
      armed_def CNTP_CTL_ENABLE_def split: option.splits)

text \<open>The records a serviced interrupt hands out, on success and on a platform failure alike.\<close>

definition service_events :: "('e ServiceTimerError, TimerTransition) res \<Rightarrow> SchedulingEvent list" where
  "service_events r =
     (case r of
        Inr t \<Rightarrow> batch_iter (events t)
      | Inl (ProgramFailed e t) \<Rightarrow> batch_iter (events t)
      | Inl (Acknowledge e t) \<Rightarrow> batch_iter (events t)
      | Inl _ \<Rightarrow> [])"

lemma service_timer_run:
  assumes run: "timer_run capacity s log"
    and svc: "service_timer_source pt is_live (s, p) = (r, (s', p'))"
  shows "timer_run capacity s' (log @ service_events r)"
proof (cases "monotonic_now pt p")
  case (Pair c p1)
  show ?thesis
  proof (cases c)
    case (Inl e)
    then show ?thesis using svc run Pair by (auto simp: service_timer_source_def service_events_def)
  next
    case (Inr now)
    obtain q s1 where e: "on_timer_expiry now is_live s = (q, s1)" by fastforce
    have s1: "timer_run capacity s1 (log @ transition_events q)"
      using timer_run.expiry [OF run e] .
    show ?thesis
    proof (cases q)
      case (Inl err)
      then show ?thesis
        using svc s1 Pair Inr e by (auto simp: service_timer_source_def service_events_def events_defs)
    next
      case (Inr t0)
      obtain x where "s' = s1\<lparr>pending_programming := x\<rparr>" and "service_events r = transition_events q"
        using svc Pair \<open>c = Inr now\<close> e Inr
        by (auto simp: service_timer_source_def service_events_def events_defs Let_def
            split: prod.splits sum.splits option.splits)
      then show ?thesis using timer_run.owed [OF s1] by simp
    qed
  qed
qed

text \<open>
  C22: servicing the timer interrupt keeps the hardware armed for the earliest pending timer.  If
  the physical timer was programmed for the first deadline and no programming is owed, then after
  a service that succeeds it is programmed for the deadline that is now first, or off when no
  timer is pending.
\<close>

theorem service_arms_next_deadline:
  assumes "timer_run capacity s log" and "pending_programming s = None"
    and "armed p = next_deadline s"
    and "service_timer_source PhysicalTimer is_live (s, p) = (Inr t, (s', p'))"
  shows "armed p' = next_deadline s'"
  using timer_run_faithful [OF assms(1)] assms(2-4)
  by (auto simp: faithful_def intro: physical.service_arms_next)

text \<open>
  C37: a deadline whose programming once failed is installed by the next service even when its timer
  is already gone, and it stays installed: as long as the first deadline does not change, later
  services leave the platform armed with the stale deadline instead of the first one.
\<close>

theorem stale_deadline_reinstalled:
  assumes "platform_timer pt programmed" and "timer_run capacity s log"
    and "pending_programming s = Some (Program d)"
    and "service_timer_source pt is_live (s, p) = (Inr t1, (s1, p1))"
    and "service_timer_source pt is_live (s1, p1) = (Inr t2, (s2, p2))"
    and "next_deadline s2 = next_deadline s1"
  shows "programmed p2 = Some d"
proof -
  have "timer_inv s" using timer_run_faithful [OF assms(2)] by (simp add: faithful_def)
  then have "programmed p1 = Some d \<and> pending_programming s1 = None \<and> timer_inv s1"
    using platform_timer.service_applies_pending [OF assms(1)] assms(3,4) by blast
  then show ?thesis
    using platform_timer.service_unchanged [OF assms(1)] assms(5,6) by metis
qed

section \<open>Concrete runs\<close>

text \<open>
  Three timers of one task, and a platform that fails its next programming request: its state is
  the clock readings to come, the programmed deadline and the outcomes of programming.
\<close>

definition sample_task :: TaskEpoch where
  "sample_task = \<lparr>te_task = 1, te_epoch = 0\<rparr>"

definition sample_timers :: TimerScheduler where
  "sample_timers =
     snd (schedule_at sample_task 0 5
       (snd (schedule_at sample_task 0 20 (snd (schedule_at sample_task 0 10 (scheduler_new 4))))))"

definition flaky_timer :: "(u64 list \<times> MonotonicInstant option \<times> bool list, unit) PlatformTimer" where
  "flaky_timer =
     \<lparr>monotonic_now = (\<lambda>(clock, prog, oks). (Inr (hd clock), (tl clock, prog, oks))),
      program_deadline = (\<lambda>d (clock, prog, oks).
        if hd oks then (Inr (), (clock, Some d, tl oks)) else (Inl (), (clock, prog, tl oks))),
      disarm_timer = (\<lambda>(clock, prog, oks). (Inr (), (clock, None, oks))),
      acknowledge_timer_irq = (\<lambda>p. (Inr (), p))\<rparr>"

definition sample_entry :: "u64 \<Rightarrow> MonotonicInstant \<Rightarrow> TimerEntry" where
  "sample_entry i dl = \<lparr>id = i, owner = sample_task, deadline = dl, tie_order = i\<rparr>"

text \<open>The state after the first programming failed, and the states of the two services after it.\<close>

definition sample_owed :: TimerScheduler where
  "sample_owed =
     \<lparr>entries = [Some (sample_entry 0 10), Some (sample_entry 1 20), None, None], len = 2,
      next_timer_id = 3, next_tie_order = 3, next_event_sequence = 4, last_observed = Some 5,
      pending_programming = Some (Program 10)\<rparr>"

definition sample_retried :: "u64 \<Rightarrow> TimerScheduler" where
  "sample_retried now =
     \<lparr>entries = [Some (sample_entry 1 20), None, None, None], len = 1,
      next_timer_id = 3, next_tie_order = 3, next_event_sequence = 5, last_observed = Some now,
      pending_programming = None\<rparr>"

lemma replicate_4: "replicate 4 x = [x, x, x, x]"
  by (simp add: numeral_eq_Suc)

lemmas timer_eval = schedule_at_def scheduler_new_def check_observation_def
  reserve_timer_id_def reserve_tie_order_def reserve_event_sequences_def checked_add_def
  insert_sorted_def remove_at_def queue_def live_def next_deadline_def entry_def earlier_def
  commit_observation_def batch_new_def batch_push_def between_def sbind_def Let_def
  shift_up.simps shift_down.simps List.map_filter_simps replicate_4 on_timer_expiry_def
  service_timer_source_def flaky_timer_def apply_deadline_programming_def

lemma sample_timers_eq:
  "sample_timers =
     \<lparr>entries = [Some (sample_entry 2 5), Some (sample_entry 0 10), Some (sample_entry 1 20), None],
      len = 3, next_timer_id = 3, next_tie_order = 3, next_event_sequence = 3,
      last_observed = Some 0, pending_programming = None\<rparr>"
  by (simp add: sample_timers_def sample_entry_def timer_eval)

lemma sample_timers_run: "\<exists>log. timer_run 4 sample_timers log"
proof -
  have step: "\<exists>log. timer_run 4 (snd (schedule_at own now dl s)) log" if "\<exists>log. timer_run 4 s log" for own now dl s
    using that timer_run.schedule_at [of 4 s] by (metis prod.collapse)
  show ?thesis
    unfolding sample_timers_def using timer_run.start by (intro step) blast
qed

lemma first_service:
  "service_timer_source flaky_timer (\<lambda>_. True) (sample_timers, ([5, 12, 13], Some 5, [False, True])) =
     (Inl (ProgramFailed () \<lparr>events =
        snd (batch_push \<lparr>sequence = 3, observed_at = 5, kind = TaskReady sample_task (Timer 2 5)\<rparr> (batch_new 4)),
        programming = Program 10\<rparr>),
      (sample_owed, ([12, 13], Some 5, [True])))"
  by (simp add: sample_timers_eq sample_owed_def sample_entry_def expiry_kind_def timer_eval)

lemma retry_service:
  "\<exists>t. service_timer_source flaky_timer (\<lambda>_. True) (sample_owed, ([12, 13], Some 5, [True])) =
     (Inr t, (sample_retried 12, ([13], Some 10, [])))"
  "\<exists>t. service_timer_source flaky_timer (\<lambda>_. True) (sample_retried 12, ([13], Some 10, [])) =
     (Inr t, (sample_retried 13, ([], Some 10, [])))"
  by (simp_all add: sample_owed_def sample_retried_def sample_entry_def expiry_kind_def timer_eval)

lemma flaky_platform: "platform_timer flaky_timer (\<lambda>(_, prog, _). prog)"
  by unfold_locales (auto simp: flaky_timer_def split: if_splits)

lemma sample_owed_run: "\<exists>log. timer_run 4 sample_owed log"
  using sample_timers_run service_timer_run [OF _ first_service] by blast

theorem timer_queue_ordered_witness:
  "\<exists>log. timer_run 4 sample_timers log \<and> sorted_wrt earlier (queue sample_timers) \<and>
     next_deadline sample_timers = Some 5"
  using sample_timers_run timer_queue_ordered [of 4 sample_timers]
  by (auto simp: sample_timers_eq next_deadline_def entry_def sample_entry_def)

theorem timer_journal_witness:
  "\<exists>log. timer_run 4 sample_timers log \<and> replay log Map.empty 1 = Some (sample_task, 20)"
proof -
  obtain log where "timer_run 4 sample_timers log" using sample_timers_run by blast
  moreover have "agenda (queue sample_timers) 1 = Some (sample_task, 20)"
    by (simp add: sample_timers_eq sample_entry_def queue_def live_def List.map_filter_simps)
  ultimately show ?thesis using timer_journal [of 4 sample_timers log] by auto
qed

theorem timer_expiry_exact_witness:
  "\<exists>t s'. on_timer_expiry 12 (\<lambda>_. True) sample_timers = (Inr t, s') \<and> queue s' = [sample_entry 1 20]"
proof -
  obtain log where run: "timer_run 4 sample_timers log" using sample_timers_run by blast
  obtain t s' where e: "on_timer_expiry 12 (\<lambda>_. True) sample_timers = (Inr t, s')"
    by (simp add: sample_timers_eq sample_entry_def expiry_kind_def timer_eval)
  have "queue sample_timers = [sample_entry 2 5, sample_entry 0 10, sample_entry 1 20]"
    by (simp add: sample_timers_eq queue_def live_def List.map_filter_simps)
  then show ?thesis
    using timer_expiry_exact [OF run e] e by (simp add: sample_entry_def)
qed

theorem service_arms_next_deadline_witness:
  "\<exists>t s' p'. service_timer_source PhysicalTimer (\<lambda>_. True)
       (sample_timers, \<lparr>cntpct = (\<lambda>_. 7), reads = 0, cntp_cval = 5, cntp_ctl = 1, irq_ack = (\<lambda>_. None), acks = 0\<rparr>) = (Inr t, (s', p')) \<and>
     armed p' = next_deadline s' \<and> next_deadline s' = Some 10"
proof -
  let ?p = "\<lparr>cntpct = (\<lambda>_. 7), reads = 0, cntp_cval = 5, cntp_ctl = 1, irq_ack = (\<lambda>_. None), acks = 0\<rparr>"
  obtain log where run: "timer_run 4 sample_timers log" using sample_timers_run by blast
  have "\<exists>t s' p'. service_timer_source PhysicalTimer (\<lambda>_. True) (sample_timers, ?p) = (Inr t, (s', p')) \<and>
      next_deadline s' = Some 10"
    by (simp add: sample_timers_eq sample_entry_def expiry_kind_def timer_eval PhysicalTimer_def
        adapter_now_def adapter_program_def adapter_ack_def)
  then obtain t s' p' where e: "service_timer_source PhysicalTimer (\<lambda>_. True) (sample_timers, ?p) = (Inr t, (s', p'))"
    and n: "next_deadline s' = Some 10" by blast
  have "pending_programming sample_timers = None" and "armed ?p = next_deadline sample_timers"
    by (simp_all add: sample_timers_eq armed_def CNTP_CTL_ENABLE_def next_deadline_def entry_def sample_entry_def)
  then show ?thesis
    using service_arms_next_deadline [OF run _ _ e] e n by blast
qed

theorem stale_deadline_reinstalled_witness:
  "\<exists>log t1 t2 p2. timer_run 4 sample_owed log \<and>
     service_timer_source flaky_timer (\<lambda>_. True) (sample_owed, ([12, 13], Some 5, [True])) =
       (Inr t1, (sample_retried 12, ([13], Some 10, []))) \<and>
     service_timer_source flaky_timer (\<lambda>_. True) (sample_retried 12, ([13], Some 10, [])) =
       (Inr t2, (sample_retried 13, p2)) \<and>
     (case p2 of (_, prog, _) \<Rightarrow> prog) = Some 10 \<and> next_deadline (sample_retried 13) = Some 20"
proof -
  obtain log where run: "timer_run 4 sample_owed log" using sample_owed_run by blast
  obtain t1 t2 where
    s1: "service_timer_source flaky_timer (\<lambda>_. True) (sample_owed, ([12, 13], Some 5, [True])) =
       (Inr t1, (sample_retried 12, ([13], Some 10, [])))" and
    s2: "service_timer_source flaky_timer (\<lambda>_. True) (sample_retried 12, ([13], Some 10, [])) =
       (Inr t2, (sample_retried 13, ([], Some 10, [])))"
    using retry_service by blast
  have n: "next_deadline (sample_retried t) = Some 20" for t
    by (simp add: sample_retried_def next_deadline_def entry_def sample_entry_def)
  have "pending_programming sample_owed = Some (Program 10)" by (simp add: sample_owed_def)
  from stale_deadline_reinstalled [OF flaky_platform run this s1 s2] show ?thesis
    using run s1 s2 n by auto
qed

end
