(* ===== verification/StreamHistory.thy ===== *)
theory StreamHistory
  imports FixedArray
begin

text \<open>
  The bounded KEEP_LAST history of a stream subscriber
  (\<open>boot-contracts/src/stream_history.rs\<close>): a ring of fixed capacity with a declared depth and a
  saturating loss report.  The ring is shown to refine a plain list that drops its oldest element
  when it is full; the contract its callers rely on is the locale \<open>keep_last\<close>.
\<close>

section \<open>The ring\<close>

definition LIMIT_HISTORY_DEPTH :: u32 where
  "LIMIT_HISTORY_DEPTH = 64"

definition MAX_HISTORY :: nat where
  "MAX_HISTORY = unat LIMIT_HISTORY_DEPTH"

record HistoryEntry =
  sequence :: u64
  publisher :: u32
  slot :: u32
  inline :: bool

record StreamHistory =
  entries :: "HistoryEntry option list"
  head :: nat
  len :: nat
  depth :: nat
  lost :: u64
  oldest_lost :: u64

definition history_new :: "nat \<Rightarrow> StreamHistory option" where
  "history_new d =
     (if d = 0 \<or> MAX_HISTORY < d then None
      else Some \<lparr>entries = replicate MAX_HISTORY None, head = 0, len = 0, depth = d,
                 lost = 0, oldest_lost = 0\<rparr>)"

definition is_empty :: "StreamHistory \<Rightarrow> bool" where
  "is_empty h \<longleftrightarrow> len h = 0"

definition is_full :: "StreamHistory \<Rightarrow> bool" where
  "is_full h \<longleftrightarrow> len h = depth h"

definition take_loss :: "StreamHistory \<Rightarrow> (u64 \<times> u64) option \<times> StreamHistory" where
  "take_loss h =
     (if lost h = 0 then (None, h)
      else (Some (lost h, oldest_lost h), h\<lparr>lost := 0, oldest_lost := 0\<rparr>))"

definition note_loss :: "u64 \<Rightarrow> (u64 \<times> u64) option \<Rightarrow> StreamHistory \<Rightarrow> StreamHistory" where
  "note_loss abandoned inherited h =
     (let h1 = (case inherited of
            None \<Rightarrow> h
          | Some (count, oldest) \<Rightarrow>
              (if lost h = 0 \<or> oldest < oldest_lost h then h\<lparr>oldest_lost := oldest\<rparr> else h)
                \<lparr>lost := saturating_add (lost h) count\<rparr>)
      in if abandoned = 0 then h1
         else
           let h2 = (if lost h1 = 0 then
                 h1\<lparr>oldest_lost :=
                   (if len h1 = 0 then 0
                    else case entries h1 ! ((head h1 + len h1 - 1) mod depth h1) of
                        None \<Rightarrow> 0 | Some e \<Rightarrow> sequence e)\<rparr>
               else h1)
           in h2\<lparr>lost := saturating_add (lost h2) abandoned\<rparr>)"

definition pop :: "StreamHistory \<Rightarrow> HistoryEntry option \<times> StreamHistory" where
  "pop h =
     (if len h = 0 then (None, h)
      else (entries h ! head h,
            h\<lparr>entries := (entries h)[head h := None], head := (head h + 1) mod depth h,
              len := len h - 1\<rparr>))"

definition push :: "HistoryEntry \<Rightarrow> StreamHistory \<Rightarrow> HistoryEntry option \<times> StreamHistory" where
  "push e h =
     (let (evicted, h1) = (if is_full h then pop h else (None, h));
          h2 = (case evicted of
              None \<Rightarrow> h1
            | Some old \<Rightarrow>
                (if lost h1 = 0 then h1\<lparr>oldest_lost := sequence old\<rparr> else h1)
                  \<lparr>lost := saturating_add (lost h1) 1\<rparr>);
          index = (head h2 + len h2) mod depth h2
      in (evicted, h2\<lparr>entries := (entries h2)[index := Some e], len := len h2 + 1\<rparr>))"

definition entry_at :: "nat \<Rightarrow> StreamHistory \<Rightarrow> HistoryEntry option" where
  "entry_at offset h =
     (if len h \<le> offset then None else entries h ! ((head h + offset) mod depth h))"

definition peek :: "StreamHistory \<Rightarrow> HistoryEntry option" where
  "peek h = entry_at 0 h"

section \<open>The list a ring stands for\<close>

definition history_inv :: "StreamHistory \<Rightarrow> bool" where
  "history_inv h \<longleftrightarrow>
     0 < depth h \<and> depth h \<le> length (entries h) \<and> head h < depth h \<and> len h \<le> depth h \<and>
     (\<forall>i < len h. entries h ! ((head h + i) mod depth h) \<noteq> None)"

definition backlog :: "StreamHistory \<Rightarrow> HistoryEntry list" where
  "backlog h = map (\<lambda>i. the (entries h ! ((head h + i) mod depth h))) [0..<len h]"

lemma length_backlog [simp]: "length (backlog h) = len h"
  by (simp add: backlog_def)

lemma backlog_nth: "i < len h \<Longrightarrow> backlog h ! i = the (entries h ! ((head h + i) mod depth h))"
  by (simp add: backlog_def)

lemma loss_updates [simp]:
  "history_inv (h\<lparr>lost := n\<rparr>) = history_inv h" "history_inv (h\<lparr>oldest_lost := n\<rparr>) = history_inv h"
  "backlog (h\<lparr>lost := n\<rparr>) = backlog h" "backlog (h\<lparr>oldest_lost := n\<rparr>) = backlog h"
  by (simp_all add: history_inv_def backlog_def)

lemma history_inv_new:
  "history_new d = Some h \<Longrightarrow>
   history_inv h \<and> backlog h = [] \<and> depth h = d \<and> lost h = 0 \<and> oldest_lost h = 0"
  by (auto simp: history_new_def history_inv_def backlog_def split: if_splits)

text \<open>Distinct offsets below the depth name distinct slots.\<close>

lemma ring_slot_inj:
  assumes "i < d" and "j < d" and "(h + i) mod d = (h + j) mod (d :: nat)"
  shows "i = j"
proof -
  have "i mod d = j mod d"
    using assms(3) by (simp add: nat_mod_eq_iff)
  then show ?thesis using assms(1,2) by simp
qed

lemma history_invD:
  assumes "history_inv h"
  shows "0 < depth h" "depth h \<le> length (entries h)" "head h < depth h" "len h \<le> depth h"
    "\<And>i. i < len h \<Longrightarrow> entries h ! ((head h + i) mod depth h) = Some (backlog h ! i)"
  using assms by (auto simp: history_inv_def backlog_nth)

lemma history_invI:
  assumes "0 < depth h" "depth h \<le> length (entries h)" "head h < depth h" "len h \<le> depth h"
    and "len h = length q" and "\<And>i. i < len h \<Longrightarrow> entries h ! ((head h + i) mod depth h) = Some (q ! i)"
  shows "history_inv h \<and> backlog h = q"
  using assms by (auto simp: history_inv_def backlog_def intro!: nth_equalityI)

lemma entry_at_backlog:
  "history_inv h \<Longrightarrow> entry_at i h = (if i < length (backlog h) then Some (backlog h ! i) else None)"
  by (simp add: entry_at_def history_invD(5))

lemma pop_backlog:
  assumes "history_inv h" and "backlog h = e # q"
  shows "fst (pop h) = Some e \<and> history_inv (snd (pop h)) \<and> backlog (snd (pop h)) = q"
proof -
  note inv = history_invD [OF assms(1)]
  have l: "len h = Suc (length q)" using length_backlog [of h] assms(2) by simp
  have "entries h ! head h = Some e" using inv(5) [of 0] inv(3) l assms(2) by simp
  then have "fst (pop h) = Some e" using l by (simp add: pop_def)
  moreover have "history_inv (snd (pop h)) \<and> backlog (snd (pop h)) = q"
  proof (rule history_invI)
    fix i
    assume "i < len (snd (pop h))"
    then have i: "Suc i < len h" using l by (simp add: pop_def)
    then have slot: "entries h ! ((head h + Suc i) mod depth h) = Some (q ! i)"
      using inv(5) [of "Suc i"] assms(2) by simp
    have "(head h + Suc i) mod depth h \<noteq> head h"
      using ring_slot_inj [of "Suc i" "depth h" 0 "head h"] i inv by auto
    then show "entries (snd (pop h)) ! ((head (snd (pop h)) + i) mod depth (snd (pop h))) = Some (q ! i)"
      using l slot by (simp add: pop_def mod_simps nth_list_update)
  qed (use inv l in \<open>auto simp: pop_def\<close>)
  ultimately show ?thesis by simp
qed

lemma append_backlog:
  assumes "history_inv h" and "len h < depth h"
    and h'_def: "h' = h\<lparr>entries := (entries h)[(head h + len h) mod depth h := Some e], len := len h + 1\<rparr>"
  shows "history_inv h' \<and> backlog h' = backlog h @ [e]"
proof (rule history_invI)
  note inv = history_invD [OF assms(1)]
  have slot: "(head h + len h) mod depth h < length (entries h)"
    using inv by (meson mod_less_divisor order_less_le_trans)
  fix i
  assume "i < len h'"
  then have "i < len h \<or> i = len h" by (auto simp: h'_def)
  then show "entries h' ! ((head h' + i) mod depth h') = Some ((backlog h @ [e]) ! i)"
  proof
    assume i: "i < len h"
    then have "(head h + i) mod depth h \<noteq> (head h + len h) mod depth h"
      using ring_slot_inj [of i "depth h" "len h" "head h"] assms(2) by auto
    then show ?thesis using i inv(5) [OF i] by (simp add: h'_def nth_append)
  next
    assume "i = len h"
    then show ?thesis using slot by (simp add: h'_def nth_append)
  qed
qed (use history_invD [OF assms(1)] assms(2) in \<open>auto simp: h'_def\<close>)

lemma drop_newest:
  "drop (length (drop (length xs - n) xs @ ys) - n) (drop (length xs - n) xs @ ys) =
   drop (length (xs @ ys) - n) (xs @ ys)"
proof (cases "length xs \<le> n")
  case False
  then obtain m where m: "length xs = n + m" by (metis le_add_diff_inverse nat_le_linear)
  have "drop m xs @ ys = drop m (xs @ ys)" using m by simp
  then show ?thesis using m by (simp only: length_append) (simp add: add.commute)
qed simp

section \<open>The contract of a KEEP_LAST history\<close>

text \<open>
  What a caller relies on: a queue of bounded depth where admitting to a full queue drops exactly
  its oldest element, and taking an element takes the oldest.
\<close>

locale keep_last =
  fixes admit :: "'e \<Rightarrow> 'h \<Rightarrow> 'e option \<times> 'h" and take_oldest :: "'h \<Rightarrow> 'e option \<times> 'h"
    and inv :: "'h \<Rightarrow> bool" and queued :: "'h \<Rightarrow> 'e list" and limit :: "'h \<Rightarrow> nat"
  assumes limit_pos: "inv h \<Longrightarrow> 0 < limit h"
    and within: "inv h \<Longrightarrow> length (queued h) \<le> limit h"
    and admit_law: "inv h \<Longrightarrow> admit e h = (r, h') \<Longrightarrow>
      inv h' \<and> limit h' = limit h \<and>
      (if length (queued h) < limit h then r = None \<and> queued h' = queued h @ [e]
       else r = Some (hd (queued h)) \<and> queued h' = tl (queued h) @ [e])"
    and take_law: "inv h \<Longrightarrow> take_oldest h = (r, h') \<Longrightarrow>
      inv h' \<and> limit h' = limit h \<and>
      (case queued h of [] \<Rightarrow> r = None \<and> queued h' = [] | e # q \<Rightarrow> r = Some e \<and> queued h' = q)"
begin

lemma admit_keeps_newest:
  assumes "inv h" and "admit e h = (r, h')"
  shows "queued h' = drop (length (queued h @ [e]) - limit h) (queued h @ [e])"
proof (cases "length (queued h) < limit h")
  case True
  then show ?thesis using admit_law [OF assms] by simp
next
  case False
  then have "length (queued h) = limit h" and "queued h \<noteq> []"
    using within [OF assms(1)] limit_pos [OF assms(1)] by auto
  then show ?thesis using admit_law [OF assms] by (cases "queued h") auto
qed

lemma admit_all:
  "inv h \<Longrightarrow>
   inv (fold (\<lambda>e h. snd (admit e h)) es h) \<and> limit (fold (\<lambda>e h. snd (admit e h)) es h) = limit h \<and>
   queued (fold (\<lambda>e h. snd (admit e h)) es h) =
     drop (length (queued h @ es) - limit h) (queued h @ es)"
proof (induction es arbitrary: h)
  case Nil
  then show ?case using within [of h] by simp
next
  case (Cons e es)
  obtain r h' where a: "admit e h = (r, h')" by fastforce
  have h': "inv h'" "limit h' = limit h" using admit_law [OF Cons.prems a] by auto
  note q = admit_keeps_newest [OF Cons.prems a]
  have "drop (length (queued h' @ es) - limit h) (queued h' @ es) =
      drop (length (queued h @ e # es) - limit h) (queued h @ e # es)"
    using drop_newest [of "queued h @ [e]" "limit h" es] by (simp only: q append_assoc append.simps)
  then show ?case using Cons.IH [OF h'(1)] h' a by simp
qed

end

lemma push_backlog:
  assumes inv: "history_inv h" and run: "push e h = (r, h')"
  shows "history_inv h' \<and> depth h' = depth h \<and>
    (if length (backlog h) < depth h
     then r = None \<and> backlog h' = backlog h @ [e] \<and> lost h' = lost h \<and> oldest_lost h' = oldest_lost h
     else r = Some (hd (backlog h)) \<and> backlog h' = tl (backlog h) @ [e] \<and>
       lost h' = saturating_add (lost h) 1 \<and>
       oldest_lost h' = (if lost h = 0 then sequence (hd (backlog h)) else oldest_lost h))"
proof (cases "len h < depth h")
  case True
  then show ?thesis
    using run append_backlog [OF inv True refl, of e] by (auto simp: push_def is_full_def Let_def)
next
  case False
  then have full: "len h = depth h" using history_invD(4) [OF inv] by simp
  then obtain old q where b: "backlog h = old # q"
    using history_invD(1) [OF inv] length_backlog [of h] by (cases "backlog h") auto
  obtain h1 where p: "pop h = (Some old, h1)" and h1: "history_inv h1" "backlog h1 = q"
    using pop_backlog [OF inv b] by (cases "pop h") auto
  have f: "depth h1 = depth h" "lost h1 = lost h" "oldest_lost h1 = oldest_lost h"
    using p by (auto simp: pop_def split: if_splits)
  let ?h2 = "(if lost h1 = 0 then h1\<lparr>oldest_lost := sequence old\<rparr> else h1)\<lparr>lost := saturating_add (lost h1) 1\<rparr>"
  have h2: "history_inv ?h2" "backlog ?h2 = q" by (simp_all add: h1)
  have "len h1 < depth h1"
    using full length_backlog [of h] length_backlog [of h1] b f h1 by simp
  then have room: "len ?h2 < depth ?h2" by simp
  have h': "r = Some old" "h' = ?h2\<lparr>entries := (entries ?h2)[(head ?h2 + len ?h2) mod depth ?h2 := Some e],
      len := len ?h2 + 1\<rparr>"
    using run full p by (simp_all add: push_def is_full_def Let_def)
  have "lost h' = saturating_add (lost h) 1"
    and "oldest_lost h' = (if lost h = 0 then sequence old else oldest_lost h)" and "depth h' = depth h"
    by (simp_all add: h'(2) f)
  moreover have "Suc (length q) = depth h" using length_backlog [of h] b full by simp
  ultimately show ?thesis
    using append_backlog [OF h2(1) room h'(2)] h2(2) h'(1) b by simp
qed

interpretation ring: keep_last push pop history_inv backlog depth
proof unfold_locales
  fix h r h'
  assume inv: "history_inv h" and run: "pop h = (r, h')"
  show "history_inv h' \<and> depth h' = depth h \<and>
    (case backlog h of [] \<Rightarrow> r = None \<and> backlog h' = [] | e # q \<Rightarrow> r = Some e \<and> backlog h' = q)"
  proof (cases "backlog h")
    case Nil
    then show ?thesis using inv run length_backlog [of h] by (auto simp: pop_def)
  next
    case (Cons e q)
    then show ?thesis using pop_backlog [OF inv Cons] run by (auto simp: pop_def split: if_splits)
  qed
next
  fix e h r h'
  assume "history_inv h" and "push e h = (r, h')"
  from push_backlog [OF this]
  show "history_inv h' \<and> depth h' = depth h \<and>
    (if length (backlog h) < depth h then r = None \<and> backlog h' = backlog h @ [e]
     else r = Some (hd (backlog h)) \<and> backlog h' = tl (backlog h) @ [e])"
    by (simp split: if_splits)
qed (simp_all add: history_inv_def)

section \<open>Observational equivalence with a bounded list\<close>

text \<open>The operations of a history as requests with an answer, on the ring and on a plain list.\<close>

datatype request =
    Push HistoryEntry
  | Pop
  | EntryAt nat
  | TakeLoss
  | NoteLoss u64 "(u64 \<times> u64) option"

datatype answer = Sample "HistoryEntry option" | Loss "(u64 \<times> u64) option" | Done

primrec serve :: "request \<Rightarrow> StreamHistory \<Rightarrow> answer \<times> StreamHistory" where
  "serve (Push e) h = map_prod Sample (\<lambda>h. h) (push e h)"
| "serve Pop h = map_prod Sample (\<lambda>h. h) (pop h)"
| "serve (EntryAt i) h = (Sample (entry_at i h), h)"
| "serve TakeLoss h = map_prod Loss (\<lambda>h. h) (take_loss h)"
| "serve (NoteLoss a i) h = (Done, note_loss a i h)"

record KeepLast =
  samples :: "HistoryEntry list"
  bound :: nat
  report :: "u64 \<times> u64"

text \<open>
  The specification: a list of at most \<open>bound\<close> samples and a loss report of a count and the
  sequence of the oldest loss.
\<close>

primrec spec :: "request \<Rightarrow> KeepLast \<Rightarrow> answer \<times> KeepLast" where
  "spec (Push e) k =
     (if length (samples k) < bound k then (Sample None, k\<lparr>samples := samples k @ [e]\<rparr>)
      else (Sample (Some (hd (samples k))),
            k\<lparr>samples := tl (samples k) @ [e],
              report := (saturating_add (fst (report k)) 1,
                if fst (report k) = 0 then sequence (hd (samples k)) else snd (report k))\<rparr>))"
| "spec Pop k =
     (case samples k of [] \<Rightarrow> (Sample None, k) | e # q \<Rightarrow> (Sample (Some e), k\<lparr>samples := q\<rparr>))"
| "spec (EntryAt i) k =
     (Sample (if i < length (samples k) then Some (samples k ! i) else None), k)"
| "spec TakeLoss k =
     (if fst (report k) = 0 then (Loss None, k) else (Loss (Some (report k)), k\<lparr>report := (0, 0)\<rparr>))"
| "spec (NoteLoss a i) k =
     (let (n, oldest) = report k;
          (n1, oldest1) = (case i of
              None \<Rightarrow> (n, oldest)
            | Some (c, s) \<Rightarrow> (saturating_add n c, if n = 0 \<or> s < oldest then s else oldest));
          newest = (case samples k of [] \<Rightarrow> 0 | e # q \<Rightarrow> sequence (last (e # q)))
      in (Done, if a = 0 then k\<lparr>report := (n1, oldest1)\<rparr>
          else k\<lparr>report := (saturating_add n1 a, if n1 = 0 then newest else oldest1)\<rparr>))"

fun answers :: "('q \<Rightarrow> 's \<Rightarrow> 'a \<times> 's) \<Rightarrow> 'q list \<Rightarrow> 's \<Rightarrow> 'a list" where
  "answers f [] s = []"
| "answers f (q # qs) s = (case f q s of (a, s') \<Rightarrow> a # answers f qs s')"

definition as_list :: "StreamHistory \<Rightarrow> KeepLast" where
  "as_list h = \<lparr>samples = backlog h, bound = depth h, report = (lost h, oldest_lost h)\<rparr>"

lemma newest_sample:
  assumes "history_inv h" and "len h \<noteq> 0"
  shows "entries h ! ((head h + len h - 1) mod depth h) = Some (last (backlog h))"
proof -
  have "last (backlog h) = backlog h ! (len h - 1)"
    using assms(2) by (subst last_conv_nth) (auto simp flip: length_0_conv)
  then show ?thesis using history_invD(5) [OF assms(1), of "len h - 1"] assms(2) by simp
qed

lemma note_loss_backlog:
  assumes "history_inv h"
  shows "history_inv (note_loss a i h) \<and> as_list (note_loss a i h) = snd (spec (NoteLoss a i) (as_list h))"
proof -
  have n: "(if len h = 0 then 0 else case entries h ! ((head h + len h - Suc 0) mod depth h) of
      None \<Rightarrow> 0 | Some e \<Rightarrow> sequence e) = (case backlog h of [] \<Rightarrow> 0 | e # q \<Rightarrow> sequence (last (e # q)))"
  proof (cases "backlog h")
    case Nil
    then show ?thesis using length_backlog [of h] by simp
  next
    case (Cons e q)
    then have "len h \<noteq> 0" using length_backlog [of h] by simp
    then show ?thesis using newest_sample [OF assms] Cons by simp
  qed
  show ?thesis
  proof (cases i)
    case None
    then show ?thesis
      using assms n by (cases "len h = 0") (simp_all add: note_loss_def as_list_def Let_def)
  next
    case (Some p)
    obtain c x where "p = (c, x)" by fastforce
    then show ?thesis
      using assms n Some by (cases "len h = 0") (simp_all add: note_loss_def as_list_def Let_def)
  qed
qed

lemma push_refines:
  assumes "history_inv h" and "push e h = (r, h')"
  shows "history_inv h' \<and> spec (Push e) (as_list h) = (Sample r, as_list h')"
  using push_backlog [OF assms] by (cases "length (backlog h) < depth h") (simp_all add: as_list_def)

lemma pop_refines:
  assumes "history_inv h"
  shows "history_inv (snd (pop h)) \<and> spec Pop (as_list h) = (Sample (fst (pop h)), as_list (snd (pop h)))"
proof (cases "backlog h")
  case Nil
  then have "pop h = (None, h)" using length_backlog [of h] by (simp add: pop_def)
  then show ?thesis using assms Nil by (simp add: as_list_def)
next
  case (Cons e q)
  have "depth (snd (pop h)) = depth h" "lost (snd (pop h)) = lost h"
    "oldest_lost (snd (pop h)) = oldest_lost h"
    by (simp_all add: pop_def)
  then show ?thesis using pop_backlog [OF assms Cons] Cons by (simp add: as_list_def)
qed

lemma take_loss_refines:
  "history_inv h \<Longrightarrow> history_inv (snd (take_loss h)) \<and>
   spec TakeLoss (as_list h) = (Loss (fst (take_loss h)), as_list (snd (take_loss h)))"
  by (simp add: take_loss_def as_list_def)

lemma fst_spec_NoteLoss: "fst (spec (NoteLoss a i) k) = Done"
  by (simp add: Let_def split: prod.split)

lemma serve_refines:
  assumes inv: "history_inv h" and run: "serve q h = (a, h')"
  shows "history_inv h' \<and> spec q (as_list h) = (a, as_list h')"
proof (cases q)
  case (Push e)
  then obtain r where "push e h = (r, h')" and "a = Sample r"
    using run by (auto simp: map_prod_def split: prod.splits)
  then show ?thesis using push_refines [OF inv] Push by simp
next
  case Pop
  then have "a = Sample (fst (pop h))" and "h' = snd (pop h)"
    using run by (auto simp: map_prod_def split: prod.splits)
  then show ?thesis using pop_refines [OF inv] Pop by simp
next
  case (EntryAt i)
  then have "a = Sample (entry_at i h)" and "h' = h" using run by auto
  then show ?thesis using inv EntryAt by (simp add: as_list_def entry_at_backlog)
next
  case TakeLoss
  then have "a = Loss (fst (take_loss h))" and "h' = snd (take_loss h)"
    using run by (auto simp: map_prod_def split: prod.splits)
  then show ?thesis using take_loss_refines [OF inv] TakeLoss by simp
next
  case (NoteLoss c i)
  then have "a = Done" and "h' = note_loss c i h" using run by auto
  then show ?thesis
    using note_loss_backlog [OF inv, of c i] fst_spec_NoteLoss [of c i "as_list h"] NoteLoss
    by (simp add: prod_eq_iff del: spec.simps)
qed

text \<open>
  C10: a history answers every sequence of requests exactly as a bounded list with a loss report
  would.  Nothing of the ring (its slots, its head, its wrap-around) can be observed.
\<close>

theorem history_refines_keep_last:
  assumes "history_new d = Some h"
  shows "answers serve qs h = answers spec qs \<lparr>samples = [], bound = d, report = (0, 0)\<rparr>"
proof -
  have "answers serve qs h = answers spec qs (as_list h)" if "history_inv h" for h
    using that
  proof (induction qs arbitrary: h)
    case (Cons q qs)
    obtain a h' where s: "serve q h = (a, h')" by fastforce
    show ?case
      using Cons.IH [of h'] serve_refines [OF Cons.prems s] by (simp add: s)
  qed simp
  moreover have "history_inv h" and "as_list h = \<lparr>samples = [], bound = d, report = (0, 0)\<rparr>"
    using history_inv_new [OF assms] by (simp_all add: as_list_def)
  ultimately show ?thesis by simp
qed

definition sample :: "u64 \<Rightarrow> HistoryEntry" where
  "sample n = \<lparr>sequence = n, publisher = 0, slot = 0, inline = True\<rparr>"

theorem history_refines_keep_last_witness:
  "\<exists>h. history_new 2 = Some h \<and>
     answers serve [Push (sample 1), Push (sample 2), Push (sample 3), EntryAt 1, TakeLoss, Pop] h =
       [Sample None, Sample None, Sample (Some (sample 1)), Sample (Some (sample 3)),
        Loss (Some (1, 1)), Sample (Some (sample 2))]"
proof -
  obtain h where h: "history_new 2 = Some h"
    by (simp add: history_new_def MAX_HISTORY_def LIMIT_HISTORY_DEPTH_def)
  have "saturating_add 0 1 = (1 :: u64)" by (simp add: saturating_add_def)
  then show ?thesis
    by (intro exI [of _ h] conjI h) (subst history_refines_keep_last [OF h], simp add: sample_def)
qed

text \<open>
  KEEP_LAST.  After any run of samples is pushed into a fresh history of depth \<open>d\<close> and none
  is taken, it holds exactly the last \<open>d\<close> of them, oldest first.
\<close>

theorem history_keeps_last:
  assumes "history_new d = Some h"
  shows "backlog (fold (\<lambda>e h. snd (push e h)) es h) = drop (length es - d) es"
  using history_inv_new [OF assms] ring.admit_all [of h es] by simp

theorem history_keeps_last_witness:
  "\<exists>h. history_new 2 = Some h \<and>
     backlog (fold (\<lambda>e h. snd (push e h)) [sample 1, sample 2, sample 3] h) = [sample 2, sample 3]"
proof -
  obtain h where h: "history_new 2 = Some h"
    by (simp add: history_new_def MAX_HISTORY_def LIMIT_HISTORY_DEPTH_def)
  then show ?thesis
    by (intro exI [of _ h] conjI) (assumption, subst history_keeps_last [OF h], simp)
qed

end
