(* ===== verification/WaitSet.thy ===== *)
theory WaitSet
  imports FixedArray
begin

text \<open>
  Wait sets: the generation resource that tells a waiter what each badge bit means
  (\<open>boot-contracts/src/wait_set/mod.rs\<close>) and the bounded state machine a component runs over it
  (\<open>boot-contracts/src/wait_set/dispatch.rs\<close>).  The decoder is shown to accept only ordered,
  bounded resources of single-bit badges; the registry keeps its sources ordered, cannot overflow
  its ready queue, and dispatches a wake in ascending badge order.
\<close>

section \<open>The resource format\<close>

definition FORMAT_VERSION :: u32 where "FORMAT_VERSION = 2"
definition HEADER_BYTES :: nat where "HEADER_BYTES = 32"
definition ENTRY_BYTES :: nat where "ENTRY_BYTES = 64"
definition MAX_ENTRIES :: nat where "MAX_ENTRIES = 48"
definition MAX_SOURCES_PER_WAITER :: nat where "MAX_SOURCES_PER_WAITER = 9"
definition MAX_CALLBACKS_PER_WAKE :: nat where "MAX_CALLBACKS_PER_WAKE = 9"
definition KIND_STREAM :: u32 where "KIND_STREAM = 1"
definition KIND_CALL :: u32 where "KIND_CALL = 2"
definition KIND_OPERATION :: u32 where "KIND_OPERATION = 3"
definition KIND_TIMER :: u32 where "KIND_TIMER = 4"
definition KIND_SUPERVISION :: u32 where "KIND_SUPERVISION = 5"
definition KIND_QOS_EVENT :: u32 where "KIND_QOS_EVENT = 6"
definition KIND_DEVICE :: u32 where "KIND_DEVICE = 7"
definition DRAIN_SLOT_ABSENT :: u32 where "DRAIN_SLOT_ABSENT = 4294967295"

text \<open>The bytes of \<open>SLIMEWS\<close> and a zero.\<close>

definition MAGIC :: bytes where
  "MAGIC = [83, 76, 73, 77, 69, 87, 83, 0]"

definition MAX_BYTES :: nat where
  "MAX_BYTES = HEADER_BYTES + MAX_ENTRIES * ENTRY_BYTES"

datatype DecodeError =
    Truncated | BadMagic | UnsupportedVersion | UnknownRequiredFlags | BadBounds | BadOrder
  | UnknownKind | BadBadge | BadDrainSlot | SourceLimitExceeded

datatype SourceKind =
    StreamSource | CallSource | OperationSource | TimerSource | SupervisionSource | QosEventSource
  | DeviceSource

primrec kind_id :: "SourceKind \<Rightarrow> u32" where
  "kind_id StreamSource = KIND_STREAM"
| "kind_id CallSource = KIND_CALL"
| "kind_id OperationSource = KIND_OPERATION"
| "kind_id TimerSource = KIND_TIMER"
| "kind_id SupervisionSource = KIND_SUPERVISION"
| "kind_id QosEventSource = KIND_QOS_EVENT"
| "kind_id DeviceSource = KIND_DEVICE"

definition kind_from_id :: "u32 \<Rightarrow> SourceKind option" where
  "kind_from_id i =
     (if i = KIND_STREAM then Some StreamSource
      else if i = KIND_CALL then Some CallSource
      else if i = KIND_OPERATION then Some OperationSource
      else if i = KIND_TIMER then Some TimerSource
      else if i = KIND_SUPERVISION then Some SupervisionSource
      else if i = KIND_QOS_EVENT then Some QosEventSource
      else if i = KIND_DEVICE then Some DeviceSource
      else None)"

definition drains :: "SourceKind \<Rightarrow> bool" where
  "drains k \<longleftrightarrow> \<not> (k = TimerSource \<or> k = DeviceSource)"

record SourceEntry =
  waiter_identity :: bytes
  entry_badge :: u64
  notification_grant_identity :: u64
  entry_kind :: SourceKind
  entry_drain_slot :: "u32 option"

record WaitSet =
  ws_bytes :: bytes
  entry_count :: nat

definition u32_at :: "bytes \<Rightarrow> nat \<Rightarrow> (DecodeError, u32) res" where
  "u32_at bytes offset = rbind (ok_or Truncated (get_range offset (offset + 4) bytes)) (\<lambda>b. Inr (from_le b))"

definition u64_at :: "bytes \<Rightarrow> nat \<Rightarrow> (DecodeError, u64) res" where
  "u64_at bytes offset = rbind (ok_or Truncated (get_range offset (offset + 8) bytes)) (\<lambda>b. Inr (from_le b))"

definition entry_bytes :: "bytes \<Rightarrow> nat \<Rightarrow> (DecodeError, bytes) res" where
  "entry_bytes bytes index =
     (let offset = HEADER_BYTES + index * ENTRY_BYTES
      in ok_or Truncated (get_range offset (offset + ENTRY_BYTES) bytes))"

text \<open>The body of \<open>decode_entry\<close> after the record is cut out of the resource.\<close>

definition decode_record :: "bytes \<Rightarrow> (DecodeError, SourceEntry) res" where
  "decode_record entry =
     rbind (u64_at entry 56) (\<lambda>flags.
     if flags \<noteq> 0 then Inl UnknownRequiredFlags else
     rbind (u64_at entry 32) (\<lambda>badge.
     if count_ones badge \<noteq> 1 then Inl BadBadge else
     rbind (rbind (u32_at entry 48) (\<lambda>i. ok_or UnknownKind (kind_from_id i))) (\<lambda>kind.
     rbind (u32_at entry 52) (\<lambda>slot.
     let declared = (if slot \<noteq> DRAIN_SLOT_ABSENT then Some slot else None)
     in if (declared \<noteq> None) \<noteq> drains kind then Inl BadDrainSlot else
     rbind (u64_at entry 40) (\<lambda>grant.
     Inr \<lparr>waiter_identity = slice 0 32 entry, entry_badge = badge,
          notification_grant_identity = grant, entry_kind = kind,
          entry_drain_slot = declared\<rparr>)))))"

definition decode_entry :: "bytes \<Rightarrow> nat \<Rightarrow> (DecodeError, SourceEntry) res" where
  "decode_entry bytes index = rbind (entry_bytes bytes index) decode_record"

definition ordered :: "bytes \<times> u64 \<Rightarrow> SourceEntry \<Rightarrow> bool" where
  "ordered lst e \<longleftrightarrow>
     bytes_less (fst lst) (waiter_identity e) \<or>
     waiter_identity e = fst lst \<and> snd lst < entry_badge e"

text \<open>The loop over the entries, with what it carries: the last key and the current run.\<close>

primrec decode_loop ::
  "bytes \<Rightarrow> nat list \<Rightarrow> (bytes \<times> u64) option \<Rightarrow> bytes \<Rightarrow> nat \<Rightarrow> (DecodeError, unit) res" where
  "decode_loop bytes [] previous run_identity run_sources = Inr ()"
| "decode_loop bytes (index # rest) previous run_identity run_sources =
     rbind (decode_entry bytes index) (\<lambda>e.
     if waiter_identity e = zeros 32 then Inl BadOrder
     else if (case previous of None \<Rightarrow> False | Some lst \<Rightarrow> \<not> ordered lst e) then Inl BadOrder
     else
       let run_sources' = (if waiter_identity e = run_identity then run_sources + 1 else 1)
       in if MAX_SOURCES_PER_WAITER < run_sources' then Inl SourceLimitExceeded
          else decode_loop bytes rest (Some (waiter_identity e, entry_badge e)) (waiter_identity e)
                 run_sources')"

definition wait_set_decode :: "bytes \<Rightarrow> (DecodeError, WaitSet) res" where
  "wait_set_decode bytes =
     (if length bytes < HEADER_BYTES \<or> MAX_BYTES < length bytes then Inl Truncated
      else if slice 0 8 bytes \<noteq> MAGIC then Inl BadMagic
      else rbind (u32_at bytes 8) (\<lambda>version. rbind (u32_at bytes 12) (\<lambda>header.
        if version \<noteq> FORMAT_VERSION \<or> unat header \<noteq> HEADER_BYTES then Inl UnsupportedVersion
        else rbind (u64_at bytes 16) (\<lambda>flags.
        if flags \<noteq> 0 then Inl UnknownRequiredFlags
        else rbind (u32_at bytes 24) (\<lambda>count. rbind (u32_at bytes 28) (\<lambda>total.
        if MAX_ENTRIES < unat count \<or> unat total \<noteq> HEADER_BYTES + unat count * ENTRY_BYTES
           \<or> unat total \<noteq> length bytes
        then Inl BadBounds
        else rbind (decode_loop bytes [0..<unat count] None (zeros 32) 0) (\<lambda>_.
          Inr \<lparr>ws_bytes = bytes, entry_count = unat count\<rparr>)))))))"

definition ws_entry :: "WaitSet \<Rightarrow> nat \<Rightarrow> SourceEntry option" where
  "ws_entry ws index =
     (if index < entry_count ws then
        (case decode_entry (ws_bytes ws) index of Inr e \<Rightarrow> Some e | Inl _ \<Rightarrow> None)
      else None)"

definition ws_entry_bytes :: "WaitSet \<Rightarrow> nat \<Rightarrow> bytes option" where
  "ws_entry_bytes ws index =
     (if index < entry_count ws then
        (case entry_bytes (ws_bytes ws) index of Inr b \<Rightarrow> Some b | Inl _ \<Rightarrow> None)
      else None)"

definition sources_for :: "WaitSet \<Rightarrow> bytes \<Rightarrow> SourceEntry list" where
  "sources_for ws waiter =
     filter (\<lambda>e. waiter_identity e = waiter) (List.map_filter (ws_entry ws) [0..<entry_count ws])"

definition source_count :: "WaitSet \<Rightarrow> bytes \<Rightarrow> nat" where
  "source_count ws waiter =
     length (filter (\<lambda>e. waiter_identity e = waiter)
       (List.map_filter (ws_entry ws) [0..<entry_count ws]))"

section \<open>The registry\<close>

definition MAX_SOURCES :: nat where "MAX_SOURCES = MAX_SOURCES_PER_WAITER"
definition MAX_READY :: nat where "MAX_READY = MAX_SOURCES"

datatype RegistryError = SourceLimit | UndeclaredSource | DuplicateSource | CallbackLimit

record Source =
  badge :: u64
  kind :: SourceKind
  drain_slot :: "u32 option"

record Ready =
  ready_badge :: u64
  ready_kind :: SourceKind
  ready_drain_slot :: "u32 option"

record Declared =
  sources :: "Source option list"
  declared_len :: nat

record Registry =
  declared :: Declared
  registered :: "Source option list"
  registered_len :: nat
  mask_word :: u64
  ready :: "Ready option list"
  ready_len :: nat

definition decode_source :: "bytes \<Rightarrow> Source option" where
  "decode_source record =
     (if length record < ENTRY_BYTES then None
      else Option.bind (get_range 32 40 record) (\<lambda>b.
           Option.bind (get_range 48 52 record) (\<lambda>k.
           Option.bind (kind_from_id (from_le k)) (\<lambda>knd.
           Option.bind (get_range 52 56 record) (\<lambda>d.
           let bdg = from_le b; slot = from_le d;
               drain = (if slot \<noteq> DRAIN_SLOT_ABSENT then Some slot else None)
           in if count_ones bdg \<noteq> 1 \<or> (drain \<noteq> None) \<noteq> drains knd then None
              else Some \<lparr>badge = bdg, kind = knd, drain_slot = drain\<rparr>)))))"

definition declared_empty :: Declared where
  "declared_empty = \<lparr>sources = replicate MAX_SOURCES None, declared_len = 0\<rparr>"

definition store_source :: "Source \<Rightarrow> (Declared, RegistryError, unit) sres" where
  "store_source src d =
     (case position (\<lambda>x. x = None) (sources d) of
        None \<Rightarrow> (Inl SourceLimit, d)
      | Some i \<Rightarrow>
          (Inr (), d\<lparr>sources := (sources d)[i := Some src], declared_len := declared_len d + 1\<rparr>))"

definition push_record :: "bytes \<Rightarrow> (Declared, RegistryError, Source) sres" where
  "push_record record =
     (case decode_source record of
        None \<Rightarrow> sfail UndeclaredSource
      | Some src \<Rightarrow> sbind (store_source src) (\<lambda>_. sreturn src))"

definition declared_push :: "Source \<Rightarrow> (Declared, RegistryError, unit) sres" where
  "declared_push src =
     (if count_ones (badge src) \<noteq> 1 \<or> (drain_slot src \<noteq> None) \<noteq> drains (kind src)
      then sfail UndeclaredSource else store_source src)"

definition declared_iter :: "Declared \<Rightarrow> Source list" where
  "declared_iter d = List.map_filter (\<lambda>x. x) (sources d)"

definition declared_source :: "Declared \<Rightarrow> u64 \<Rightarrow> Source option" where
  "declared_source d b = List.find (\<lambda>s. badge s = b) (declared_iter d)"

definition source_for_slot :: "Declared \<Rightarrow> SourceKind \<Rightarrow> u32 \<Rightarrow> Source option" where
  "source_for_slot d k slot = List.find (\<lambda>s. kind s = k \<and> drain_slot s = Some slot) (declared_iter d)"

definition declared_timer :: "Declared \<Rightarrow> Source option" where
  "declared_timer d = List.find (\<lambda>s. kind s = TimerSource) (declared_iter d)"

definition declared_device :: "Declared \<Rightarrow> Source option" where
  "declared_device d = List.find (\<lambda>s. kind s = DeviceSource) (declared_iter d)"

definition registry_new :: "Declared \<Rightarrow> Registry" where
  "registry_new d =
     \<lparr>declared = d, registered = replicate MAX_SOURCES None, registered_len = 0, mask_word = 0,
      ready = replicate MAX_READY None, ready_len = 0\<rparr>"

definition register :: "u64 \<Rightarrow> (Registry, RegistryError, Source) sres" where
  "register b r =
     (case declared_source (declared r) b of
        None \<Rightarrow> (Inl UndeclaredSource, r)
      | Some src \<Rightarrow>
          if count_ones (badge src) \<noteq> 1 then (Inl UndeclaredSource, r)
          else if mask_word r AND badge src \<noteq> 0 then (Inl DuplicateSource, r)
          else
            let pos = (case position
                  (\<lambda>slot. case slot of None \<Rightarrow> False | Some held \<Rightarrow> badge src < badge held)
                  (take (registered_len r) (registered r)) of
                None \<Rightarrow> registered_len r | Some i \<Rightarrow> i)
            in if registered_len r = MAX_SOURCES then (Inl SourceLimit, r)
               else (Inr src,
                 r\<lparr>registered := (copy_within pos (registered_len r) (pos + 1) (registered r))[pos := Some src],
                   registered_len := registered_len r + 1,
                   mask_word := mask_word r OR badge src\<rparr>))"

definition register_slot :: "SourceKind \<Rightarrow> u32 \<Rightarrow> (Registry, RegistryError, Source) sres" where
  "register_slot k slot r =
     (case source_for_slot (declared r) k slot of
        None \<Rightarrow> (Inl UndeclaredSource, r) | Some src \<Rightarrow> register (badge src) r)"

definition register_timer :: "(Registry, RegistryError, Source) sres" where
  "register_timer r =
     (case declared_timer (declared r) of
        None \<Rightarrow> (Inl UndeclaredSource, r) | Some src \<Rightarrow> register (badge src) r)"

definition register_device :: "(Registry, RegistryError, Source) sres" where
  "register_device r =
     (case declared_device (declared r) of
        None \<Rightarrow> (Inl UndeclaredSource, r) | Some src \<Rightarrow> register (badge src) r)"

text \<open>The loop of \<open>unregister\<close> that drops queued readiness of a retired source.\<close>

primrec retain :: "u64 \<Rightarrow> nat list \<Rightarrow> Ready option list \<Rightarrow> nat \<Rightarrow> Ready option list \<times> nat" where
  "retain b [] rdy kept = (rdy, kept)"
| "retain b (index # rest) rdy kept =
     (let e = rdy ! index; rdy1 = rdy[index := None]
      in if (case e of None \<Rightarrow> False | Some x \<Rightarrow> ready_badge x \<noteq> b)
         then retain b rest (rdy1[kept := e]) (kept + 1)
         else retain b rest rdy1 kept)"

definition unregister :: "u64 \<Rightarrow> Registry \<Rightarrow> bool \<times> Registry" where
  "unregister b r =
     (case position (\<lambda>slot. case slot of None \<Rightarrow> False | Some src \<Rightarrow> badge src = b)
        (take (registered_len r) (registered r)) of
        None \<Rightarrow> (False, r)
      | Some pos \<Rightarrow>
          let n = registered_len r - 1;
              regd = (copy_within (pos + 1) (registered_len r) pos (registered r))[n := None];
              (rdy, kept) = retain b [0..<ready_len r] (ready r) 0
          in (True, r\<lparr>registered := regd, registered_len := n, mask_word := mask_word r AND NOT b,
                      ready := rdy, ready_len := kept\<rparr>))"

definition to_ready :: "Source \<Rightarrow> Ready" where
  "to_ready src =
     \<lparr>ready_badge = badge src, ready_kind = kind src, ready_drain_slot = drain_slot src\<rparr>"

primrec queue_loop :: "u64 \<Rightarrow> nat list \<Rightarrow> Registry \<Rightarrow> nat \<Rightarrow> nat \<times> Registry" where
  "queue_loop b [] r queued = (queued, r)"
| "queue_loop b (index # rest) r queued =
     (case registered r ! index of
        None \<Rightarrow> queue_loop b rest r queued
      | Some src \<Rightarrow>
          if b AND badge src = 0 then queue_loop b rest r queued
          else if list_ex (\<lambda>e. ready_badge e = badge src) (live (ready r) (ready_len r))
          then queue_loop b rest r queued
          else queue_loop b rest
                 (r\<lparr>ready := (ready r)[ready_len r := Some (to_ready src)], ready_len := ready_len r + 1\<rparr>)
                 (queued + 1))"

definition queue :: "u64 \<Rightarrow> Registry \<Rightarrow> nat \<times> Registry" where
  "queue b r = queue_loop b [0..<registered_len r] r 0"

definition next_ready :: "Registry \<Rightarrow> Ready option \<times> Registry" where
  "next_ready r =
     (if ready_len r = 0 then (None, r)
      else (ready r ! 0,
            r\<lparr>ready := (copy_within 1 (ready_len r) 0 (ready r))[ready_len r - 1 := None],
              ready_len := ready_len r - 1\<rparr>))"

text \<open>The handler of a dispatch is observed through the sources it is called with, in order.\<close>

primrec dispatch_loop :: "nat \<Rightarrow> Registry \<Rightarrow> Ready list \<times> Registry" where
  "dispatch_loop 0 r = ([], r)"
| "dispatch_loop (Suc budget) r =
     (case next_ready r of
        (None, r') \<Rightarrow> ([], r')
      | (Some e, r') \<Rightarrow> (case dispatch_loop budget r' of (es, r'') \<Rightarrow> (e # es, r'')))"

definition dispatch_bounded :: "nat \<Rightarrow> Registry \<Rightarrow> (RegistryError, nat \<times> Ready list) res \<times> Registry" where
  "dispatch_bounded budget r =
     (if MAX_CALLBACKS_PER_WAKE < budget then (Inl CallbackLimit, r)
      else case dispatch_loop budget r of (es, r') \<Rightarrow> (Inr (length es, es), r'))"

definition dispatch :: "Registry \<Rightarrow> (RegistryError, nat \<times> Ready list) res \<times> Registry" where
  "dispatch r = dispatch_bounded MAX_CALLBACKS_PER_WAKE r"

section \<open>Accepted resources\<close>

definition key_less :: "SourceEntry \<Rightarrow> SourceEntry \<Rightarrow> bool" where
  "key_less a b \<longleftrightarrow> ordered (waiter_identity a, entry_badge a) b"

definition entry_ok :: "SourceEntry \<Rightarrow> bool" where
  "entry_ok e \<longleftrightarrow> waiter_identity e \<noteq> zeros 32 \<and> count_ones (entry_badge e) = 1 \<and>
     (entry_drain_slot e \<noteq> None) = drains (entry_kind e)"

lemma transp_key_less: "transp key_less"
  by (auto simp: transp_def key_less_def ordered_def intro: bytes_less_trans)

lemma decode_entry_ok:
  assumes "decode_entry bs i = Inr e"
  shows "count_ones (entry_badge e) = 1 \<and> (entry_drain_slot e \<noteq> None) = drains (entry_kind e)"
  using assms
  by (auto simp: decode_entry_def decode_record_def result_simps Let_def split: if_splits)

text \<open>What a successful loop has checked, given the key and the run it started from.\<close>

lemma decode_loop_ok:
  assumes "decode_loop bs idxs prev rid rs = Inr ()"
    and "case prev of None \<Rightarrow> rs = 0 | Some lst \<Rightarrow> fst lst = rid" and "rs \<le> MAX_SOURCES_PER_WAITER"
  shows "\<exists>es. map (decode_entry bs) idxs = map Inr es \<and> sorted_wrt key_less es \<and> list_all entry_ok es \<and>
    (\<forall>lst. prev = Some lst \<longrightarrow> list_all (ordered lst) es) \<and>
    (\<forall>w. length (filter (\<lambda>e. waiter_identity e = w) es) + (if w = rid then rs else 0)
       \<le> MAX_SOURCES_PER_WAITER)"
  using assms
proof (induction idxs arbitrary: prev rid rs)
  case (Cons i idxs)
  obtain e where e: "decode_entry bs i = Inr e"
    using Cons.prems(1) by (cases "decode_entry bs i") auto
  let ?rs = "if waiter_identity e = rid then rs + 1 else 1"
  have nz: "waiter_identity e \<noteq> zeros 32" and ord: "\<And>lst. prev = Some lst \<Longrightarrow> ordered lst e"
    and lim: "?rs \<le> MAX_SOURCES_PER_WAITER"
    and loop: "decode_loop bs idxs (Some (waiter_identity e, entry_badge e)) (waiter_identity e) ?rs = Inr ()"
    using Cons.prems(1) by (auto simp: e Let_def not_less split: if_splits option.splits)
  obtain es where es: "map (decode_entry bs) idxs = map Inr es" "sorted_wrt key_less es" "list_all entry_ok es"
    and after: "list_all (ordered (waiter_identity e, entry_badge e)) es"
    and cnt: "\<And>w. length (filter (\<lambda>x. waiter_identity x = w) es) + (if w = waiter_identity e then ?rs else 0)
       \<le> MAX_SOURCES_PER_WAITER"
    using Cons.IH [OF loop _ lim] by auto
  have gone: "length (filter (\<lambda>x. waiter_identity x = rid) es) = 0"
    if "waiter_identity e \<noteq> rid" "prev = Some lst" for lst
  proof -
    have "bytes_less rid (waiter_identity e)"
      using that ord [OF that(2)] Cons.prems(2) by (auto simp: ordered_def)
    then have "waiter_identity x \<noteq> rid" if "x \<in> set es" for x
      using that after bytes_less_irrefl bytes_less_trans [of "waiter_identity e" rid "waiter_identity e"]
      by (auto simp: list_all_iff ordered_def)
    then show ?thesis by (simp add: filter_empty_conv)
  qed
  have "length (filter (\<lambda>x. waiter_identity x = w) (e # es)) + (if w = rid then rs else 0)
      \<le> MAX_SOURCES_PER_WAITER" for w
    using cnt [of w] gone Cons.prems(2,3)
    by (cases prev; cases "w = waiter_identity e"; cases "w = rid") auto
  moreover have "list_all (ordered lst) (e # es)" if "prev = Some lst" for lst
    using ord [OF that] after by (auto simp: list_all_iff ordered_def intro: bytes_less_trans)
  moreover have "\<forall>x \<in> set es. key_less e x"
    using after by (simp add: list_all_iff key_less_def)
  moreover have "entry_ok e" using nz decode_entry_ok [OF e] by (simp add: entry_ok_def)
  ultimately show ?case
    using es e by (intro exI [of _ "e # es"]) auto
qed auto

text \<open>The entries of a resource in encoded order.\<close>

definition ws_sources :: "WaitSet \<Rightarrow> SourceEntry list" where
  "ws_sources ws = List.map_filter (ws_entry ws) [0..<entry_count ws]"

lemma wait_set_decode_entries:
  assumes "wait_set_decode bs = Inr ws"
  obtains es where "length es = entry_count ws" and "ws_sources ws = es"
    and "\<And>i. i < entry_count ws \<Longrightarrow> ws_entry ws i = Some (es ! i)"
    and "sorted_wrt key_less es" and "list_all entry_ok es"
    and "\<And>w. length (filter (\<lambda>e. waiter_identity e = w) es) \<le> MAX_SOURCES_PER_WAITER"
proof -
  obtain n where ws: "ws = \<lparr>ws_bytes = bs, entry_count = n\<rparr>"
    and loop: "decode_loop bs [0..<n] None (zeros 32) 0 = Inr ()"
    using assms by (auto simp: wait_set_decode_def result_simps split: if_splits)
  obtain es where es: "map (decode_entry bs) [0..<n] = map Inr es" "sorted_wrt key_less es" "list_all entry_ok es"
    and cnt: "\<And>w. length (filter (\<lambda>e. waiter_identity e = w) es) + (if w = zeros 32 then 0 else 0)
       \<le> MAX_SOURCES_PER_WAITER"
    using decode_loop_ok [OF loop] by auto
  have len: "length es = n" using arg_cong [OF es(1), of length] by simp
  have nth: "ws_entry ws i = Some (es ! i)" if "i < n" for i
    using that len arg_cong [OF es(1), of "\<lambda>xs. xs ! i"] by (simp add: ws_entry_def ws)
  have "List.map_filter (ws_entry ws) [0..<n] = map (\<lambda>i. es ! i) [0..<n]"
    using nth by (simp add: map_filter_def filter_id_conv map_eq_conv)
  then have "ws_sources ws = es"
    using len map_nth [of es] by (simp add: ws_sources_def ws)
  then show ?thesis using that es(2,3) cnt len nth by (simp add: ws)
qed

text \<open>
  C38: an accepted wait-set resource.  Every entry it counts can be read back; the entries are strictly
  ordered by waiter and badge; every badge is a single bit, every waiter identity is set and a drain
  slot is present exactly for the kinds that drain; no waiter has more than the declared number of
  sources, and each waiter's sources come in ascending badge order.
\<close>

theorem wait_set_decode_sound:
  assumes "wait_set_decode bs = Inr ws"
  shows "length (ws_sources ws) = entry_count ws \<and> sorted_wrt key_less (ws_sources ws) \<and>
    list_all entry_ok (ws_sources ws) \<and> source_count ws w \<le> MAX_SOURCES_PER_WAITER \<and>
    sorted_wrt (<) (map entry_badge (sources_for ws w))"
proof (rule wait_set_decode_entries [OF assms])
  fix es
  assume es: "length es = entry_count ws" "ws_sources ws = es" "sorted_wrt key_less es" "list_all entry_ok es"
    and cnt: "\<And>w. length (filter (\<lambda>e. waiter_identity e = w) es) \<le> MAX_SOURCES_PER_WAITER"
  have "sorted_wrt key_less (filter (\<lambda>e. waiter_identity e = w) es)"
    using es(3) by (rule sorted_wrt_filter)
  then have "sorted_wrt (\<lambda>x y. entry_badge x < entry_badge y) (filter (\<lambda>e. waiter_identity e = w) es)"
    by (rule sorted_wrt_mono_rel [rotated])
      (auto simp: key_less_def ordered_def bytes_less_irrefl)
  then show ?thesis
    using es cnt [of w]
    by (simp add: source_count_def sources_for_def ws_sources_def [symmetric] sorted_wrt_map)
qed

section \<open>Single-bit badges\<close>

lemma count_ones_one:
  fixes a :: "'a::len word"
  assumes "count_ones a = 1"
  obtains k where "k < LENGTH('a)" and "\<And>i. bit a i \<longleftrightarrow> i = k"
proof -
  obtain k where k: "filter (bit a) [0..<LENGTH('a)] = [k]"
    using assms by (auto simp: count_ones_def length_Suc_conv)
  have set: "{i. i < LENGTH('a) \<and> bit a i} = {k}"
    using arg_cong [OF k, of set] by (auto simp: set_eq_iff)
  then have "bit a i \<longleftrightarrow> i = k" for i
    using bit_imp_le_length [of a i] by (auto simp: set_eq_iff)
  moreover have "k < LENGTH('a)" using set by auto
  ultimately show ?thesis using that by blast
qed

lemma count_ones_exp:
  assumes "k < LENGTH('a::len)"
  shows "count_ones (2 ^ k :: 'a word) = 1"
proof -
  have "{i. i < LENGTH('a) \<and> bit (2 ^ k :: 'a word) ([0..<LENGTH('a)] ! i)} = {k}"
    using assms by (auto simp: bit_exp_iff possible_bit_word)
  then show ?thesis by (simp add: count_ones_def length_filter_conv_card)
qed

lemma meet_iff:
  fixes a b :: "'a::len word"
  shows "a AND b \<noteq> 0 \<longleftrightarrow> (\<exists>i. bit a i \<and> bit b i)"
proof -
  have "a AND b = 0" if "\<not> (\<exists>i. bit a i \<and> bit b i)"
    using that by (intro bit_word_eqI) (simp add: bit_and_iff)
  moreover have "\<not> (bit a i \<and> bit b i)" if "a AND b = 0" for i
    using arg_cong [OF that, of "\<lambda>w. bit w i"] by (simp add: bit_and_iff)
  ultimately show ?thesis by blast
qed

lemma single_bits_meet:
  fixes a b :: "'a::len word"
  assumes "count_ones a = 1" and "count_ones b = 1"
  shows "a AND b \<noteq> 0 \<longleftrightarrow> a = b"
proof -
  obtain k where k: "\<And>i. bit a i \<longleftrightarrow> i = k" using count_ones_one [OF assms(1)] by blast
  obtain l where l: "\<And>i. bit b i \<longleftrightarrow> i = l" using count_ones_one [OF assms(2)] by blast
  have "a AND b \<noteq> 0 \<longleftrightarrow> k = l" by (simp add: meet_iff k l)
  moreover have "a = b" if "k = l" using that by (intro bit_word_eqI) (simp add: k l)
  moreover have "k = l" if "a = b" using that k l by blast
  ultimately show ?thesis by blast
qed

section \<open>The invariant of the registry\<close>

definition regs :: "Registry \<Rightarrow> Source list" where
  "regs r = live (registered r) (registered_len r)"

definition readies :: "Registry \<Rightarrow> Ready list" where
  "readies r = live (ready r) (ready_len r)"

definition registry_inv :: "Registry \<Rightarrow> bool" where
  "registry_inv r \<longleftrightarrow>
     packed (registered r) (registered_len r) (regs r) \<and> length (registered r) = MAX_SOURCES \<and>
     packed (ready r) (ready_len r) (readies r) \<and> length (ready r) = MAX_READY \<and>
     sorted_wrt (\<lambda>a b. badge a < badge b) (regs r) \<and> list_all (\<lambda>s. count_ones (badge s) = 1) (regs r) \<and>
     (\<forall>i. bit (mask_word r) i \<longleftrightarrow> (\<exists>s \<in> set (regs r). bit (badge s) i)) \<and>
     distinct (map ready_badge (readies r)) \<and> ready_badge ` set (readies r) \<subseteq> badge ` set (regs r)"

lemma registry_inv_new: "registry_inv (registry_new d)"
  by (simp add: registry_inv_def registry_new_def regs_def readies_def live_def packed_empty
      List.map_filter_simps MAX_READY_def)

lemma mask_meets:
  assumes "registry_inv r" and "count_ones b = 1"
  shows "mask_word r AND b \<noteq> 0 \<longleftrightarrow> b \<in> badge ` set (regs r)"
proof -
  have "mask_word r AND b \<noteq> 0 \<longleftrightarrow> (\<exists>s \<in> set (regs r). badge s AND b \<noteq> 0)"
    using assms(1) by (auto simp: meet_iff registry_inv_def)
  also have "\<dots> \<longleftrightarrow> (\<exists>s \<in> set (regs r). badge s = b)"
    using assms single_bits_meet by (auto simp: registry_inv_def list_all_iff)
  finally show ?thesis by auto
qed

lemma position_packed:
  assumes "packed arr n q"
  shows "position (\<lambda>slot. case slot of None \<Rightarrow> False | Some x \<Rightarrow> P x) (take n arr) = position P q"
proof -
  have "take n arr = map Some q"
    using assms by (intro nth_equalityI) (auto simp: packed_nth)
  moreover have "position (\<lambda>slot. case slot of None \<Rightarrow> False | Some x \<Rightarrow> P x) (map Some q) = position P q"
    by (induction q) simp_all
  ultimately show ?thesis by simp
qed

lemma sorted_badges_distinct:
  "sorted_wrt (\<lambda>a b. badge a < badge b) q \<Longrightarrow> distinct (map badge q)"
  by (induction q) auto

lemma remove_by_badge:
  assumes "distinct (map badge q)" and "position (\<lambda>s. badge s = b) q = Some i"
  shows "remove_nth i q = filter (\<lambda>s. badge s \<noteq> b) q"
  using assms
proof (induction q arbitrary: i)
  case (Cons s q)
  show ?case
  proof (cases "badge s = b")
    case True
    have "badge x \<noteq> b" if "x \<in> set q" for x
      using Cons.prems(1) True imageI [OF that, of badge] by auto
    then have "filter (\<lambda>s. badge s \<noteq> b) q = q" by (simp add: filter_id_conv)
    then show ?thesis using True Cons.prems by simp
  next
    case False
    then obtain k where "position (\<lambda>s. badge s = b) q = Some k" and "i = Suc k"
      using Cons.prems(2) by (auto split: option.splits)
    then show ?thesis using Cons False by (simp add: remove_nth_def)
  qed
qed simp

text \<open>Clearing a registered badge in the mask leaves the bits of the other sources.\<close>

lemma unregister_mask:
  assumes "registry_inv r" and "count_ones b = 1"
  shows "bit (mask_word r AND NOT b) i \<longleftrightarrow> (\<exists>s \<in> set (regs r). badge s \<noteq> b \<and> bit (badge s) i)"
proof -
  have "bit (NOT b) i" if "s \<in> set (regs r)" "badge s \<noteq> b" "bit (badge s) i" for s
  proof -
    have "badge s AND b = 0"
      using single_bits_meet [of "badge s" b] assms that by (auto simp: registry_inv_def list_all_iff)
    then have "\<not> bit b i" using that(3) meet_iff [of "badge s" b] by blast
    then show ?thesis using bit_imp_le_length [OF that(3)] by (simp add: bit_not_iff possible_bit_word)
  qed
  moreover have "\<not> bit b i" if "bit (NOT b) i" using that by (simp add: bit_not_iff)
  ultimately show ?thesis
    using assms(1) by (auto simp: bit_and_iff registry_inv_def)
qed

lemma register_inv:
  assumes inv: "registry_inv r" and run: "register b r = (res, r')"
  shows "registry_inv r' \<and> declared r' = declared r"
proof (cases "\<exists>src. res = Inr src")
  case False
  then show ?thesis
    using run inv by (auto simp: register_def Let_def split: option.splits if_splits)
next
  case True
  then obtain src where src: "declared_source (declared r) b = Some src" "count_ones (badge src) = 1"
    "mask_word r AND badge src = 0" "registered_len r \<noteq> MAX_SOURCES" and res: "res = Inr src"
    using run by (auto simp: register_def Let_def split: option.splits if_splits)
  let ?k = "case position (\<lambda>held. badge src < badge held) (regs r) of None \<Rightarrow> length (regs r) | Some i \<Rightarrow> i"
  have p: "packed (registered r) (registered_len r) (regs r)" and n: "registered_len r = length (regs r)"
    using inv packed_length [of "registered r" "registered_len r" "regs r"] by (auto simp: registry_inv_def)
  have r': "r' = r\<lparr>registered := (copy_within ?k (registered_len r) (?k + 1) (registered r))[?k := Some src],
      registered_len := registered_len r + 1, mask_word := mask_word r OR badge src\<rparr>"
    using run src res position_packed [OF p, of "\<lambda>held. badge src < badge held"]
    by (simp add: register_def Let_def n cong: option.case_cong)
  have k: "?k \<le> registered_len r" by (auto simp: n position_Some split: option.split)
  have room: "registered_len r < length (registered r)"
    using inv src(4) packed_length [OF p] by (simp add: registry_inv_def)
  have "packed (registered r') (registered_len r') (insert_at ?k src (regs r))"
    using packed_copy_insert [OF p room k] by (simp add: r')
  then have p': "packed (registered r') (registered_len r') (regs r')"
    and q': "regs r' = insert_at ?k src (regs r)"
    by (simp_all add: regs_def packed_live)
  have fresh: "badge src \<notin> badge ` set (regs r)"
    using mask_meets [OF inv src(2)] src(3) by simp
  then have "badge src < badge y \<or> badge y < badge src" if "y \<in> set (regs r)" for y
    using that by (metis imageI linorder_neqE)
  moreover have "sorted_wrt (\<lambda>a b. badge a < badge b) (regs r)"
    using inv by (simp add: registry_inv_def)
  ultimately have "sorted_wrt (\<lambda>a b. badge a < badge b) (regs r')"
    unfolding q' by (intro sorted_wrt_insert_position) (auto simp: transp_def)
  moreover have "readies r' = readies r" by (simp add: r' readies_def)
  moreover have f: "mask_word r' = mask_word r OR badge src" "ready r' = ready r" "ready_len r' = ready_len r"
    "declared r' = declared r" "length (registered r') = length (registered r)"
    using room k by (simp_all add: r')
  moreover have "set (regs r') = insert src (set (regs r))" by (simp add: q')
  ultimately show ?thesis
    using inv p' src(2) by (simp add: registry_inv_def list_all_iff bit_or_iff) blast
qed

lemma retain_packed:
  assumes "i \<le> length q" and "length q \<le> length arr"
    and "kept = length (filter (\<lambda>x. ready_badge x \<noteq> b) (take i q))"
    and "\<And>k. k < length arr \<Longrightarrow> arr ! k =
      (if k < kept then Some (filter (\<lambda>x. ready_badge x \<noteq> b) (take i q) ! k)
       else if k < i then None else if k < length q then Some (q ! k) else None)"
  shows "packed (fst (retain b [i..<length q] arr kept)) (snd (retain b [i..<length q] arr kept))
      (filter (\<lambda>x. ready_badge x \<noteq> b) q) \<and>
    length (fst (retain b [i..<length q] arr kept)) = length arr"
  using assms
proof (induction "length q - i" arbitrary: i arr kept)
  case 0
  then show ?case by (auto simp: packed_nth intro: order_trans [OF length_filter_le])
next
  case (Suc n)
  let ?P = "\<lambda>x. ready_badge x \<noteq> b"
  have i: "i < length q" using Suc.hyps(2) by simp
  then have upt: "[i..<length q] = i # [Suc i..<length q]" by (simp add: upt_conv_Cons)
  have "kept \<le> i" using Suc.prems(1,3) length_filter_le [of ?P "take i q"] by simp
  then have e: "arr ! i = Some (q ! i)" using Suc.prems(2,4) i by simp
  have t: "take (Suc i) q = take i q @ [q ! i]" using i by (simp add: take_Suc_conv_app_nth)
  have n: "n = length q - Suc i" "Suc i \<le> length q" using Suc.hyps(2) i by simp_all
  show ?case
  proof (cases "?P (q ! i)")
    case True
    let ?arr = "(arr[i := None])[kept := Some (q ! i)]"
    have "?arr ! k = (if k < kept + 1 then Some (filter ?P (take (Suc i) q) ! k)
        else if k < Suc i then None else if k < length q then Some (q ! k) else None)"
      if "k < length ?arr" for k
      using that Suc.prems(4) [of k] Suc.prems(3) True \<open>kept \<le> i\<close> i Suc.prems(2)
      by (auto simp: t nth_append nth_list_update less_Suc_eq)
    then show ?thesis
      using Suc.hyps(1) [OF n, of ?arr "kept + 1"] Suc.prems(2,3) True by (simp add: upt e t Let_def)
  next
    case False
    have "(arr[i := None]) ! k = (if k < kept then Some (filter ?P (take (Suc i) q) ! k)
        else if k < Suc i then None else if k < length q then Some (q ! k) else None)"
      if "k < length (arr[i := None])" for k
      using that Suc.prems(4) [of k] False \<open>kept \<le> i\<close> i
      by (auto simp: t nth_list_update less_Suc_eq)
    then show ?thesis
      using Suc.hyps(1) [OF n, of "arr[i := None]" kept] Suc.prems(2,3) False by (simp add: upt e t Let_def)
  qed
qed

lemma unregister_inv:
  assumes inv: "registry_inv r" and run: "unregister b r = (res, r')"
  shows "registry_inv r' \<and> declared r' = declared r"
proof -
  have p: "packed (registered r) (registered_len r) (regs r)" and n: "registered_len r = length (regs r)"
    and pr: "packed (ready r) (ready_len r) (readies r)" and nr: "ready_len r = length (readies r)"
    and srt: "sorted_wrt (\<lambda>a b. badge a < badge b) (regs r)"
    using inv packed_length [of "registered r" "registered_len r" "regs r"]
      packed_length [of "ready r" "ready_len r" "readies r"] by (auto simp: registry_inv_def)
  show ?thesis
  proof (cases "position (\<lambda>src. badge src = b) (regs r)")
    case None
    then show ?thesis
      using run inv position_packed [OF p, of "\<lambda>src. badge src = b"] by (simp add: unregister_def)
  next
    case (Some k)
    then have k: "k < registered_len r" "badge (regs r ! k) = b" by (auto simp: position_Some n)
    obtain rdy kept where ret: "retain b [0..<ready_len r] (ready r) 0 = (rdy, kept)" by fastforce
    have rdy: "packed rdy kept (filter (\<lambda>x. ready_badge x \<noteq> b) (readies r))" "length rdy = length (ready r)"
      using retain_packed [of 0 "readies r" "ready r" 0 b] pr ret
      by (auto simp: packed_nth nr)
    let ?n = "registered_len r - 1"
    let ?regd = "(copy_within (k + 1) (registered_len r) k (registered r))[?n := None]"
    have r': "r' = r\<lparr>registered := ?regd, registered_len := ?n, mask_word := mask_word r AND NOT b,
        ready := rdy, ready_len := kept\<rparr>"
      using run position_packed [OF p, of "\<lambda>src. badge src = b"] Some ret
      by (simp add: unregister_def Let_def)
    have p': "packed ?regd ?n (remove_nth k (regs r))" using packed_copy_remove [OF p k(1)] .
    have q': "regs r' = remove_nth k (regs r)" and d': "readies r' = filter (\<lambda>x. ready_badge x \<noteq> b) (readies r)"
      using p' rdy(1) by (simp_all add: r' regs_def readies_def packed_live)
    have set': "set (regs r') = {s \<in> set (regs r). badge s \<noteq> b}"
      using remove_by_badge [OF sorted_badges_distinct [OF srt] Some] by (simp add: q')
    have one: "count_ones b = 1"
      using inv k n nth_mem [of k "regs r"] by (auto simp: registry_inv_def list_all_iff)
    have f: "mask_word r' = mask_word r AND NOT b" "registered r' = ?regd" "registered_len r' = ?n"
      "ready r' = rdy" "ready_len r' = kept" "declared r' = declared r"
      by (simp_all add: r')
    have "length ?regd = length (registered r)"
      using k(1) packed_length [OF p] by (subst length_list_update, intro length_copy_within) linarith+
    moreover have "distinct (map ready_badge (readies r'))"
      using inv by (simp add: d' registry_inv_def distinct_map_filter)
    moreover have "ready_badge ` set (readies r') \<subseteq> badge ` set (regs r')"
      using inv by (auto simp: d' set' registry_inv_def)
    ultimately show ?thesis
      using inv p' rdy sorted_wrt_remove_nth [OF srt, of k]
      unfolding registry_inv_def f by (auto simp: q' d' set' [unfolded q'] list_all_iff unregister_mask [OF inv one])
  qed
qed

lemma ready_badge_to_ready [simp]: "ready_badge (to_ready src) = badge src"
  by (simp add: to_ready_def)

text \<open>Queueing one registered source that is not queued yet; there is always room for it.\<close>

lemma ready_room:
  assumes inv: "registry_inv r" and src: "src \<in> set (regs r)"
    and new: "badge src \<notin> ready_badge ` set (readies r)"
  shows "ready_len r < MAX_READY"
proof -
  have "insert (badge src) (ready_badge ` set (readies r)) \<subseteq> badge ` set (regs r)"
    using inv src by (auto simp: registry_inv_def)
  then have "card (insert (badge src) (ready_badge ` set (readies r))) \<le> card (badge ` set (regs r))"
    by (intro card_mono) simp_all
  also have "\<dots> \<le> length (regs r)"
    by (metis card_length length_map set_map)
  also have "length (regs r) \<le> MAX_SOURCES"
    using inv packed_length [of "registered r" "registered_len r" "regs r"] by (simp add: registry_inv_def)
  finally have "Suc (card (ready_badge ` set (readies r))) \<le> MAX_SOURCES" using new by simp
  moreover have "card (ready_badge ` set (readies r)) = length (readies r)"
    using inv distinct_card [of "map ready_badge (readies r)"] by (simp add: registry_inv_def)
  ultimately show ?thesis
    using inv packed_length [of "ready r" "ready_len r" "readies r"]
    by (simp add: registry_inv_def MAX_READY_def)
qed

lemma ready_push_inv:
  assumes inv: "registry_inv r" and src: "src \<in> set (regs r)"
    and new: "badge src \<notin> ready_badge ` set (readies r)"
    and r': "r' = r\<lparr>ready := (ready r)[ready_len r := Some (to_ready src)], ready_len := ready_len r + 1\<rparr>"
  shows "registry_inv r' \<and> regs r' = regs r \<and> declared r' = declared r \<and>
    readies r' = readies r @ [to_ready src]"
proof -
  have p: "packed (ready r) (ready_len r) (readies r)" and l: "ready_len r < length (ready r)"
    using inv ready_room [OF inv src new] by (simp_all add: registry_inv_def)
  have p': "packed (ready r') (ready_len r') (readies r @ [to_ready src])"
    using packed_push [OF p l] by (simp add: r')
  then have q': "readies r' = readies r @ [to_ready src]" by (simp add: readies_def packed_live)
  moreover have "regs r' = regs r" by (simp add: r' regs_def)
  moreover have f: "registered r' = registered r" "registered_len r' = registered_len r"
    "mask_word r' = mask_word r" "declared r' = declared r" "length (ready r') = length (ready r)"
    by (simp_all add: r')
  ultimately show ?thesis
    using inv p' src new unfolding registry_inv_def by (auto simp: to_ready_def)
qed

lemma queue_loop_ready:
  assumes "registry_inv r" and "list_all (\<lambda>i. i < registered_len r) idxs"
    and "distinct (map badge (map (nth (regs r)) idxs))"
  shows "registry_inv (snd (queue_loop b idxs r n)) \<and> regs (snd (queue_loop b idxs r n)) = regs r \<and>
    declared (snd (queue_loop b idxs r n)) = declared r \<and>
    readies (snd (queue_loop b idxs r n)) = readies r @ map to_ready (filter
      (\<lambda>s. b AND badge s \<noteq> 0 \<and> badge s \<notin> ready_badge ` set (readies r)) (map (nth (regs r)) idxs))"
  using assms
proof (induction idxs arbitrary: r n)
  case (Cons i idxs)
  let ?s = "regs r ! i"
  have p: "packed (registered r) (registered_len r) (regs r)" and i: "i < length (regs r)"
    using Cons.prems(1,2) packed_length [of "registered r" "registered_len r" "regs r"]
    by (auto simp: registry_inv_def)
  have e: "registered r ! i = Some ?s" using packed_lookup [OF p] Cons.prems(2) by simp
  have ex: "list_ex (\<lambda>e. ready_badge e = badge ?s) (live (ready r) (ready_len r)) \<longleftrightarrow>
      badge ?s \<in> ready_badge ` set (readies r)"
    unfolding readies_def list_ex_iff image_iff by metis
  show ?case
  proof (cases "b AND badge ?s \<noteq> 0 \<and> badge ?s \<notin> ready_badge ` set (readies r)")
    case False
    then show ?thesis using Cons.IH [OF Cons.prems(1)] Cons.prems(2,3) by (auto simp: e ex)
  next
    case True
    let ?r = "r\<lparr>ready := (ready r)[ready_len r := Some (to_ready ?s)], ready_len := ready_len r + 1\<rparr>"
    have r1: "registry_inv ?r" "regs ?r = regs r" "declared ?r = declared r"
      "readies ?r = readies r @ [to_ready ?s]"
      using ready_push_inv [OF Cons.prems(1) nth_mem [OF i] _ refl] True by auto
    have rb: "ready_badge ` set (readies ?r) = insert (badge ?s) (ready_badge ` set (readies r))"
      unfolding r1(4) by simp
    have "filter (\<lambda>s. b AND badge s \<noteq> 0 \<and> badge s \<notin> ready_badge ` set (readies ?r)) (map (nth (regs r)) idxs) =
        filter (\<lambda>s. b AND badge s \<noteq> 0 \<and> badge s \<notin> ready_badge ` set (readies r)) (map (nth (regs r)) idxs)"
      using Cons.prems(3) rb by (intro filter_cong) (auto simp: image_iff)
    then show ?thesis
      using Cons.IH [OF r1(1)] Cons.prems(2,3) True r1 by (simp add: e ex)
  qed
qed simp

lemma queue_ready:
  assumes "registry_inv r"
  shows "registry_inv (snd (queue b r)) \<and> regs (snd (queue b r)) = regs r \<and>
    declared (snd (queue b r)) = declared r \<and>
    readies (snd (queue b r)) = readies r @ map to_ready
      (filter (\<lambda>s. b AND badge s \<noteq> 0 \<and> badge s \<notin> ready_badge ` set (readies r)) (regs r))"
proof -
  have n: "registered_len r = length (regs r)"
    using assms packed_length [of "registered r" "registered_len r" "regs r"] by (simp add: registry_inv_def)
  have "map (nth (regs r)) [0..<registered_len r] = regs r" by (simp add: n map_nth)
  moreover have "distinct (map badge (regs r))"
    using assms by (intro sorted_badges_distinct) (simp add: registry_inv_def)
  ultimately show ?thesis
    using queue_loop_ready [OF assms, of "[0..<registered_len r]" b 0]
    by (simp add: queue_def list_all_iff del: map_map)
qed

lemma next_ready_step:
  assumes "registry_inv r"
  shows "registry_inv (snd (next_ready r)) \<and> regs (snd (next_ready r)) = regs r \<and>
    declared (snd (next_ready r)) = declared r \<and> readies (snd (next_ready r)) = tl (readies r) \<and>
    fst (next_ready r) = (case readies r of [] \<Rightarrow> None | e # _ \<Rightarrow> Some e)"
proof (cases "readies r")
  case Nil
  then have "ready_len r = 0"
    using assms packed_length [of "ready r" "ready_len r" "readies r"] by (simp add: registry_inv_def)
  then show ?thesis using assms Nil by (simp add: next_ready_def)
next
  case (Cons e q)
  have p: "packed (ready r) (ready_len r) (readies r)" using assms by (simp add: registry_inv_def)
  have l: "0 < ready_len r" "ready_len r \<le> length (ready r)" using packed_length [OF p] Cons by auto
  have p': "packed (ready (snd (next_ready r))) (ready_len (snd (next_ready r))) (tl (readies r))"
    using packed_copy_remove [OF p l(1)] l by (simp add: next_ready_def)
  then have q': "readies (snd (next_ready r)) = tl (readies r)" by (simp add: readies_def packed_live)
  have f: "registered (snd (next_ready r)) = registered r" "mask_word (snd (next_ready r)) = mask_word r"
    "registered_len (snd (next_ready r)) = registered_len r" "declared (snd (next_ready r)) = declared r"
    "length (ready (snd (next_ready r))) = length (ready r)" "regs (snd (next_ready r)) = regs r"
    using l by (simp_all add: next_ready_def regs_def length_copy_within [of "ready_len r"])
  moreover have "registry_inv (snd (next_ready r))"
    using assms p' Cons unfolding registry_inv_def by (auto simp: q' f)
  moreover have "ready r ! 0 = Some e" using packed_lookup [OF p l(1)] Cons by simp
  ultimately show ?thesis using q' Cons l(1) by (simp add: next_ready_def)
qed

lemma dispatch_loop_ready:
  assumes "registry_inv r"
  shows "fst (dispatch_loop n r) = take n (readies r) \<and> registry_inv (snd (dispatch_loop n r)) \<and>
    readies (snd (dispatch_loop n r)) = drop n (readies r) \<and> regs (snd (dispatch_loop n r)) = regs r \<and>
    declared (snd (dispatch_loop n r)) = declared r"
  using assms
proof (induction n arbitrary: r)
  case (Suc n)
  obtain x r1 where x: "next_ready r = (x, r1)" by fastforce
  have s: "registry_inv r1" "regs r1 = regs r" "declared r1 = declared r" "readies r1 = tl (readies r)"
    "x = (case readies r of [] \<Rightarrow> None | e # _ \<Rightarrow> Some e)"
    using next_ready_step [OF Suc.prems] by (auto simp: x)
  show ?case
  proof (cases "readies r")
    case Nil
    then show ?thesis using s by (simp add: x)
  next
    case (Cons e q)
    then show ?thesis
      using s Suc.IH [OF s(1)] by (cases "dispatch_loop n r1") (auto simp: x)
  qed
qed simp

section \<open>Runs of a registry\<close>

inductive registry_run :: "Declared \<Rightarrow> Registry \<Rightarrow> bool" for d where
  start: "registry_run d (registry_new d)"
| register: "registry_run d r \<Longrightarrow> register b r = (x, r') \<Longrightarrow> registry_run d r'"
| unregister: "registry_run d r \<Longrightarrow> unregister b r = (y, r') \<Longrightarrow> registry_run d r'"
| queue: "registry_run d r \<Longrightarrow> queue b r = (n, r') \<Longrightarrow> registry_run d r'"
| next_ready: "registry_run d r \<Longrightarrow> next_ready r = (e, r') \<Longrightarrow> registry_run d r'"
| dispatch_bounded: "registry_run d r \<Longrightarrow> dispatch_bounded budget r = (z, r') \<Longrightarrow> registry_run d r'"

text \<open>The other registration calls are registrations of a declared badge.\<close>

lemma register_by_name_run:
  assumes "registry_run d r"
  shows "registry_run d (snd (register_slot k slot r))" "registry_run d (snd (register_timer r))"
    "registry_run d (snd (register_device r))"
proof -
  have "registry_run d (snd (register b r))" for b
    using registry_run.register [OF assms, of b "fst (register b r)"] by simp
  then show "registry_run d (snd (register_slot k slot r))" "registry_run d (snd (register_timer r))"
    "registry_run d (snd (register_device r))"
    using assms by (auto simp: register_slot_def register_timer_def register_device_def split: option.split)
qed

lemma registry_run_inv: "registry_run d r \<Longrightarrow> registry_inv r \<and> declared r = d"
proof (induction rule: registry_run.induct)
  case start
  then show ?case using registry_inv_new by (simp add: registry_new_def)
next
  case (register r b x r')
  then show ?case using register_inv [of r b x r'] by simp
next
  case (unregister r b y r')
  then show ?case using unregister_inv [of r b y r'] by simp
next
  case (queue r b n r')
  then show ?case using queue_ready [of r b] by simp
next
  case (next_ready r e r')
  then show ?case using next_ready_step [of r] by simp
next
  case (dispatch_bounded r budget z r')
  then show ?case
    using dispatch_loop_ready [of r budget]
    by (auto simp: dispatch_bounded_def split: if_splits prod.splits)
qed

text \<open>
  C12: the state of a registry is well formed in every run.  Neither array is ever written past its
  end; the registered sources are in strictly ascending badge order and each has a single-bit
  badge; the mask is the union of their badges; and each queued entry stands for a different
  registered source.
\<close>

theorem registry_well_formed:
  assumes "registry_run d r"
  shows "registered_len r = length (regs r) \<and> registered_len r \<le> MAX_SOURCES \<and>
    ready_len r = length (readies r) \<and> ready_len r \<le> MAX_READY \<and>
    sorted_wrt (\<lambda>a b. badge a < badge b) (regs r) \<and> list_all (\<lambda>s. count_ones (badge s) = 1) (regs r) \<and>
    mask_word r = foldr (OR) (map badge (regs r)) 0 \<and>
    distinct (map ready_badge (readies r)) \<and> ready_badge ` set (readies r) \<subseteq> badge ` set (regs r)"
proof -
  have inv: "registry_inv r" using registry_run_inv [OF assms] by simp
  have "bit (foldr (OR) (map badge q) 0) i \<longleftrightarrow> (\<exists>s \<in> set q. bit (badge s) i)"
    for q :: "Source list" and i
    by (induction q) (auto simp: bit_or_iff)
  then have "mask_word r = foldr (OR) (map badge (regs r)) 0"
    using inv by (intro bit_word_eqI) (simp add: registry_inv_def)
  then show ?thesis
    using inv packed_length [of "registered r" "registered_len r" "regs r"]
      packed_length [of "ready r" "ready_len r" "readies r"]
    by (simp add: registry_inv_def)
qed

text \<open>
  C16: one wake.  When nothing is queued, queueing a badge word and dispatching calls the handler on
  exactly the registered sources whose bit is set, once each and in ascending badge order, succeeds,
  and leaves nothing queued.
\<close>

theorem wake_dispatches_in_order:
  assumes "registry_run d r" and "readies r = []"
  shows "\<exists>r'. dispatch (snd (queue b r)) =
      (Inr (length (filter (\<lambda>s. b AND badge s \<noteq> 0) (regs r)),
            map to_ready (filter (\<lambda>s. b AND badge s \<noteq> 0) (regs r))), r') \<and>
    readies r' = [] \<and> regs r' = regs r \<and>
    sorted_wrt (<) (map badge (filter (\<lambda>s. b AND badge s \<noteq> 0) (regs r)))"
proof -
  have inv: "registry_inv r" using registry_run_inv [OF assms(1)] by simp
  let ?fs = "filter (\<lambda>s. b AND badge s \<noteq> 0) (regs r)"
  let ?q = "snd (queue b r)"
  have q: "registry_inv ?q" "regs ?q = regs r" "readies ?q = map to_ready ?fs"
    using queue_ready [OF inv, of b] assms(2) by simp_all
  have "length (readies ?q) \<le> MAX_CALLBACKS_PER_WAKE"
    using q(1) packed_length [of "ready ?q" "ready_len ?q" "readies ?q"]
    by (simp add: registry_inv_def MAX_READY_def MAX_SOURCES_def MAX_SOURCES_PER_WAITER_def
        MAX_CALLBACKS_PER_WAKE_def)
  then have "take MAX_CALLBACKS_PER_WAKE (readies ?q) = map to_ready ?fs"
    and "drop MAX_CALLBACKS_PER_WAKE (readies ?q) = []"
    by (simp_all add: q(3))
  moreover have "sorted_wrt (<) (map badge ?fs)"
    unfolding sorted_wrt_map using inv by (intro sorted_wrt_filter) (simp add: registry_inv_def)
  ultimately show ?thesis
    using dispatch_loop_ready [OF q(1), of MAX_CALLBACKS_PER_WAKE] q(2)
    by (cases "dispatch_loop MAX_CALLBACKS_PER_WAKE ?q")
      (auto simp: dispatch_def dispatch_bounded_def)
qed

text \<open>
  C39: the waiter's own reader of a served record and the decoder of the resource agree on a record of
  the right length exactly when its reserved flags are clear.  With a flag set the decoder refuses the
  record, while the waiter's reader goes on to accept it if the rest is in order.
\<close>

theorem served_record_agreement:
  assumes "length record = ENTRY_BYTES"
  shows "if read_u64 record 56 = 0
    then decode_source record = (case decode_record record of Inl _ \<Rightarrow> None
      | Inr e \<Rightarrow> Some \<lparr>badge = entry_badge e, kind = entry_kind e, drain_slot = entry_drain_slot e\<rparr>)
    else decode_record record = Inl UnknownRequiredFlags \<and>
      decode_source record = decode_source (splice 56 (zeros 8) record)"
proof (cases "read_u64 record 56 = 0")
  case True
  have u64: "u64_at record 56 = Inr 0" "u64_at record 32 = Inr (from_le (slice 32 40 record))"
    "u64_at record 40 = Inr (from_le (slice 40 48 record))"
    and u32: "u32_at record 48 = Inr (from_le (slice 48 52 record))"
    "u32_at record 52 = Inr (from_le (slice 52 56 record))"
    using assms True by (simp_all add: u64_at_def u32_at_def get_range_def read_u64_def ENTRY_BYTES_def)
  have g: "get_range 32 40 record = Some (slice 32 40 record)" "get_range 48 52 record = Some (slice 48 52 record)"
    "get_range 52 56 record = Some (slice 52 56 record)"
    using assms by (simp_all add: get_range_def ENTRY_BYTES_def)
  show ?thesis
    using True assms
    by (cases "kind_from_id (from_le (slice 48 52 record))")
      (simp_all add: decode_record_def decode_source_def u64 u32 g Let_def)
next
  case False
  have "decode_record record = Inl UnknownRequiredFlags"
    using assms False by (simp add: decode_record_def u64_at_def get_range_def read_u64_def ENTRY_BYTES_def)
  moreover have "get_range a c (splice 56 (zeros 8) record) = get_range a c record" if "c \<le> 56" for a c
    using that assms by (simp add: get_range_def slice_splice_before ENTRY_BYTES_def)
  ultimately show ?thesis using False assms by (simp add: decode_source_def ENTRY_BYTES_def)
qed

section \<open>A concrete resource and registry\<close>

definition record_fields :: "u64 \<Rightarrow> (nat \<times> bytes) list" where
  "record_fields flags =
     [(0, replicate 32 1), (32, to_le (2 ^ 2 :: u64)), (40, to_le (7 :: u64)), (48, to_le KIND_STREAM),
      (52, to_le (5 :: u32)), (56, to_le flags)]"

definition sample_record :: "u64 \<Rightarrow> bytes" where
  "sample_record flags = splices (record_fields flags) (zeros 64)"

definition resource_fields :: "(nat \<times> bytes) list" where
  "resource_fields =
     [(0, MAGIC), (8, to_le FORMAT_VERSION), (12, to_le (32 :: u32)), (16, zeros 8),
      (24, to_le (1 :: u32)), (28, to_le (96 :: u32)), (32, sample_record 0)]"

definition sample_resource :: bytes where
  "sample_resource = splices resource_fields (zeros 96)"

definition sample_entry :: SourceEntry where
  "sample_entry = \<lparr>waiter_identity = replicate 32 1, entry_badge = 2 ^ 2,
     notification_grant_identity = 7, entry_kind = StreamSource, entry_drain_slot = Some 5\<rparr>"

lemma length_sample_record [simp]: "length (sample_record flags) = 64"
  by (simp add: sample_record_def record_fields_def length_splices del: splices.simps)

lemma length_sample_resource [simp]: "length sample_resource = 96"
  by (simp add: sample_resource_def resource_fields_def length_splices MAGIC_def del: splices.simps)

lemma record_slices:
  "slice 0 32 (sample_record flags) = replicate 32 1"
  "slice 32 40 (sample_record flags) = to_le (2 ^ 2 :: u64)"
  "slice 40 48 (sample_record flags) = to_le (7 :: u64)"
  "slice 48 52 (sample_record flags) = to_le KIND_STREAM"
  "slice 52 56 (sample_record flags) = to_le (5 :: u32)"
  "slice 56 64 (sample_record flags) = to_le flags"
  by (simp_all add: sample_record_def record_fields_def slice_splices del: splices.simps)

lemma resource_slices:
  "slice 0 8 sample_resource = MAGIC"
  "slice 8 12 sample_resource = to_le FORMAT_VERSION"
  "slice 12 16 sample_resource = to_le (32 :: u32)"
  "slice 16 24 sample_resource = zeros 8"
  "slice 24 28 sample_resource = to_le (1 :: u32)"
  "slice 28 32 sample_resource = to_le (96 :: u32)"
  "slice 32 96 sample_resource = sample_record 0"
  by (simp_all add: sample_resource_def resource_fields_def slice_splices MAGIC_def del: splices.simps)

lemma kind_from_stream: "kind_from_id KIND_STREAM = Some StreamSource"
  by (simp add: kind_from_id_def)

lemma decode_sample_record: "decode_record (sample_record 0) = Inr sample_entry"
  using count_ones_exp [of 2, where 'a = 64]
  by (simp add: decode_record_def u64_at_def u32_at_def get_range_def record_slices kind_from_stream
      drains_def DRAIN_SLOT_ABSENT_def sample_entry_def Let_def del: power_numeral)

lemma decode_sample_resource:
  "wait_set_decode sample_resource = Inr \<lparr>ws_bytes = sample_resource, entry_count = 1\<rparr>"
proof -
  have z: "from_le (zeros 8) = (0 :: u64)" using from_le_to_le_u64 [of 0] by (simp add: to_le_zero)
  have d: "decode_entry sample_resource 0 = Inr sample_entry"
    by (simp add: decode_entry_def entry_bytes_def get_range_def HEADER_BYTES_def ENTRY_BYTES_def
        resource_slices decode_sample_record)
  have nz: "replicate 32 (1 :: u8) \<noteq> zeros 32" by (simp add: zeros_def)
  have "decode_loop sample_resource [0..<Suc 0] None (zeros 32) 0 = Inr ()"
    using nz by (simp add: d sample_entry_def MAX_SOURCES_PER_WAITER_def)
  then show ?thesis
    by (simp add: wait_set_decode_def u32_at_def u64_at_def get_range_def resource_slices z
        HEADER_BYTES_def MAX_BYTES_def MAX_ENTRIES_def ENTRY_BYTES_def)
qed

theorem wait_set_decode_sound_witness:
  "\<exists>ws. wait_set_decode sample_resource = Inr ws \<and> length (ws_sources ws) = 1 \<and>
     list_all entry_ok (ws_sources ws)"
  using wait_set_decode_sound [OF decode_sample_resource] decode_sample_resource by auto

theorem served_record_agreement_witness:
  "decode_source (sample_record 0) = Some \<lparr>badge = 2 ^ 2, kind = StreamSource, drain_slot = Some 5\<rparr> \<and>
   decode_record (sample_record 1) = Inl UnknownRequiredFlags \<and> decode_source (sample_record 1) \<noteq> None"
proof -
  have l: "length (sample_record f) = ENTRY_BYTES" for f by (simp add: ENTRY_BYTES_def)
  have f: "read_u64 (sample_record f) 56 = f" for f by (simp add: read_u64_def record_slices)
  have s: "decode_source (sample_record f) = Some \<lparr>badge = 2 ^ 2, kind = StreamSource, drain_slot = Some 5\<rparr>" for f
    using count_ones_exp [of 2, where 'a = 64]
    by (simp add: decode_source_def get_range_def record_slices kind_from_stream drains_def
        DRAIN_SLOT_ABSENT_def ENTRY_BYTES_def Let_def del: power_numeral)
  have "decode_record (sample_record 1) = Inl UnknownRequiredFlags"
    using served_record_agreement [OF l, of 1] f [of 1] by simp
  then show ?thesis using s by simp
qed

definition sample_source :: "nat \<Rightarrow> Source" where
  "sample_source k = \<lparr>badge = 2 ^ k, kind = TimerSource, drain_slot = None\<rparr>"

definition sample_declared :: Declared where
  "sample_declared = \<lparr>sources = [Some (sample_source 3), Some (sample_source 2)] @ replicate 7 None,
     declared_len = 2\<rparr>"

definition sample_registry :: Registry where
  "sample_registry = snd (register (2 ^ 2) (snd (register (2 ^ 3) (registry_new sample_declared))))"

lemma sample_registry_run: "registry_run sample_declared sample_registry"
proof -
  have "registry_run d (snd (register b r))" if "registry_run d r" for d b r
    using registry_run.register [OF that, of b "fst (register b r)"] by simp
  then show ?thesis unfolding sample_registry_def using registry_run.start by simp
qed

lemma replicate_9: "replicate 9 x = [x, x, x, x, x, x, x, x, x]" "replicate 7 x = [x, x, x, x, x, x, x]"
  by (simp_all add: numeral_eq_Suc)

lemma sample_declares:
  "declared_source sample_declared 8 = Some (sample_source 3)"
  "declared_source sample_declared 4 = Some (sample_source 2)"
  by (simp_all add: declared_source_def declared_iter_def sample_declared_def replicate_9
      List.map_filter_simps sample_source_def)

lemma sample_registry_state: "regs sample_registry = [sample_source 2, sample_source 3] \<and> readies sample_registry = []"
proof -
  have c: "count_ones (8 :: u64) = 1" "count_ones (4 :: u64) = 1"
    using count_ones_exp [of 3, where 'a = 64] count_ones_exp [of 2, where 'a = 64] by simp_all
  have b: "badge (sample_source 3) = 8" "badge (sample_source 2) = 4" by (simp_all add: sample_source_def)
  have r3: "snd (register 8 (registry_new sample_declared)) =
      (registry_new sample_declared)\<lparr>registered := Some (sample_source 3) # replicate 8 None,
        registered_len := 1, mask_word := 8\<rparr>"
    by (simp add: register_def registry_new_def sample_declares b c MAX_SOURCES_def
        MAX_SOURCES_PER_WAITER_def replicate_9 copy_within_def splice_def slice_def) (simp add: numeral_eq_Suc)
  show ?thesis
    by (simp add: sample_registry_def r3)
      (simp add: register_def registry_new_def sample_declares b c MAX_SOURCES_def MAX_READY_def
        MAX_SOURCES_PER_WAITER_def copy_within_def splice_def slice_def regs_def readies_def live_def
        List.map_filter_simps)
qed

theorem registry_well_formed_witness:
  "\<exists>d. registry_run d sample_registry \<and> ready_len sample_registry \<le> MAX_READY \<and>
     sorted_wrt (\<lambda>a b. badge a < badge b) (regs sample_registry)"
  using sample_registry_run registry_well_formed [OF sample_registry_run] by blast

theorem wake_dispatches_in_order_witness:
  "\<exists>r'. dispatch (snd (queue 12 sample_registry)) =
     (Inr (2, [to_ready (sample_source 2), to_ready (sample_source 3)]), r')"
proof -
  have "filter (\<lambda>s. (12 :: u64) AND badge s \<noteq> 0) (regs sample_registry) = [sample_source 2, sample_source 3]"
    by (simp add: sample_registry_state sample_source_def)
  then show ?thesis
    using wake_dispatches_in_order [OF sample_registry_run, of 12] sample_registry_state by auto
qed

end
