(* ===== verification/MemoryPolicy.thy ===== *)
theory MemoryPolicy
  imports FixedArray
begin

text \<open>
  The private-memory policy (\<open>boot-contracts/src/private_memory_policy.rs\<close> and its generated
  codec): the records of the resource and their encodings, the structural decoder, and the check of
  a policy against the instances of a generation.  The walk up the ownership tree is a loop
  without a bound of its own; it is shown to end because every chain was measured first.
\<close>

section \<open>The generated codec\<close>

definition MAGIC :: bytes where "MAGIC = [83, 76, 73, 77, 69, 80, 77, 0]"
definition FORMAT_VERSION :: u32 where "FORMAT_VERSION = 2"
definition HEADER_BYTES :: nat where "HEADER_BYTES = 80"
definition ENTITLEMENT_BYTES :: nat where "ENTITLEMENT_BYTES = 88"
definition SUBJECT_BYTES :: nat where "SUBJECT_BYTES = 80"
definition MAX_ENTITLEMENTS :: nat where "MAX_ENTITLEMENTS = 32"
definition MAX_SUBJECTS :: nat where "MAX_SUBJECTS = 64"
definition FIXED :: u32 where "FIXED = 0"
definition POOL :: u32 where "POOL = 1"
definition PAGE_BYTES :: u64 where "PAGE_BYTES = 4096"
definition MAX_VALUE :: u64 where "MAX_VALUE = 9223372036854775807"
definition MAX_PAGES :: u64 where "MAX_PAGES = 2251799813685247"

record Header =
  magic :: bytes
  format_version :: u32
  header_size :: u32
  required_flags :: u64
  entitlement_count :: u32
  subject_count :: u32
  total_len :: u32
  header_reserved :: u32
  reserve_bytes :: u64
  reserve_slots :: u64
  reserve_descriptors :: u64
  reserve_extents :: u64
  reserve_tables :: u64

definition header_decode :: "bytes \<Rightarrow> Header option" where
  "header_decode buf =
     (if length buf < HEADER_BYTES then None
      else Some \<lparr>magic = slice 0 8 buf, format_version = read_u32 buf 8, header_size = read_u32 buf 12,
        required_flags = read_u64 buf 16, entitlement_count = read_u32 buf 24,
        subject_count = read_u32 buf 28, total_len = read_u32 buf 32, header_reserved = read_u32 buf 36,
        reserve_bytes = read_u64 buf 40, reserve_slots = read_u64 buf 48,
        reserve_descriptors = read_u64 buf 56, reserve_extents = read_u64 buf 64,
        reserve_tables = read_u64 buf 72\<rparr>)"

definition header_encode :: "Header \<Rightarrow> bytes" where
  "header_encode h =
     splices
       [(0, magic h), (8, to_le (format_version h)), (12, to_le (header_size h)),
        (16, to_le (required_flags h)), (24, to_le (entitlement_count h)),
        (28, to_le (subject_count h)), (32, to_le (total_len h)), (36, to_le (header_reserved h)),
        (40, to_le (reserve_bytes h)), (48, to_le (reserve_slots h)),
        (56, to_le (reserve_descriptors h)), (64, to_le (reserve_extents h)),
        (72, to_le (reserve_tables h))] (zeros HEADER_BYTES)"

record Entitlement =
  entitlement_identity :: bytes
  subtree_root :: bytes
  guarantee_pages :: u64
  maximum_pages :: u64
  maximum_mode :: u32
  reserved :: u32

definition entitlement_decode :: "bytes \<Rightarrow> Entitlement option" where
  "entitlement_decode buf =
     (if length buf < ENTITLEMENT_BYTES then None
      else Some \<lparr>entitlement_identity = slice 0 32 buf, subtree_root = slice 32 64 buf,
        guarantee_pages = read_u64 buf 64, maximum_pages = read_u64 buf 72,
        maximum_mode = read_u32 buf 80, reserved = read_u32 buf 84\<rparr>)"

definition entitlement_encode :: "Entitlement \<Rightarrow> bytes" where
  "entitlement_encode e =
     splices
       [(0, entitlement_identity e), (32, subtree_root e), (64, to_le (guarantee_pages e)),
        (72, to_le (maximum_pages e)), (80, to_le (maximum_mode e)), (84, to_le (reserved e))]
       (zeros ENTITLEMENT_BYTES)"

record Subject =
  subject_identity :: bytes
  entitlement :: bytes
  subject_maximum_pages :: u64
  subject_maximum_mode :: u32
  subject_reserved :: u32

definition subject_decode :: "bytes \<Rightarrow> Subject option" where
  "subject_decode buf =
     (if length buf < SUBJECT_BYTES then None
      else Some \<lparr>subject_identity = slice 0 32 buf, entitlement = slice 32 64 buf,
        subject_maximum_pages = read_u64 buf 64, subject_maximum_mode = read_u32 buf 72,
        subject_reserved = read_u32 buf 76\<rparr>)"

definition subject_encode :: "Subject \<Rightarrow> bytes" where
  "subject_encode s =
     splices
       [(0, subject_identity s), (32, entitlement s), (64, to_le (subject_maximum_pages s)),
        (72, to_le (subject_maximum_mode s)), (76, to_le (subject_reserved s))]
       (zeros SUBJECT_BYTES)"

section \<open>The policy\<close>

datatype PolicyError =
    Truncated | Version | Flags | Bounds | Order | Reference | Maximum | Overflow | Topology

record Policy =
  policy_bytes :: bytes
  header :: Header

record Instance =
  instance_identity :: bytes
  instance_owner :: "bytes option"

definition valid_maximum :: "u32 \<Rightarrow> u64 \<Rightarrow> bool" where
  "valid_maximum mode pages \<longleftrightarrow>
     mode = FIXED \<and> 0 < pages \<and> pages \<le> MAX_PAGES \<or> mode = POOL \<and> pages = 0"

definition policy_entitlement_count :: "Policy \<Rightarrow> nat" where
  "policy_entitlement_count p = unat (entitlement_count (header p))"

definition policy_subject_count :: "Policy \<Rightarrow> nat" where
  "policy_subject_count p = unat (subject_count (header p))"

definition policy_entitlement :: "Policy \<Rightarrow> nat \<Rightarrow> Entitlement option" where
  "policy_entitlement p index =
     (if policy_entitlement_count p \<le> index then None
      else entitlement_decode (drop (HEADER_BYTES + index * ENTITLEMENT_BYTES) (policy_bytes p)))"

definition policy_subject :: "Policy \<Rightarrow> nat \<Rightarrow> Subject option" where
  "policy_subject p index =
     (if policy_subject_count p \<le> index then None
      else subject_decode (drop (HEADER_BYTES + policy_entitlement_count p * ENTITLEMENT_BYTES
             + index * SUBJECT_BYTES) (policy_bytes p)))"

definition entitlement_index :: "Policy \<Rightarrow> bytes \<Rightarrow> nat option" where
  "entitlement_index p i =
     List.find (\<lambda>index. entitlement_identity (the (policy_entitlement p index)) = i)
       [0..<policy_entitlement_count p]"

definition subject_index :: "Policy \<Rightarrow> bytes \<Rightarrow> nat option" where
  "subject_index p i =
     List.find (\<lambda>index. subject_identity (the (policy_subject p index)) = i)
       [0..<policy_subject_count p]"

text \<open>The three passes of the decoder over its records.\<close>

definition not_after :: "bytes \<Rightarrow> bytes \<Rightarrow> bool" where
  "not_after i previous \<longleftrightarrow> bytes_less i previous \<or> i = previous"

primrec check_entitlements :: "Policy \<Rightarrow> nat list \<Rightarrow> bytes \<Rightarrow> u64 \<Rightarrow> (PolicyError, unit) res" where
  "check_entitlements p [] previous guarantees = Inr ()"
| "check_entitlements p (index # rest) previous guarantees =
     rbind (ok_or Bounds (policy_entitlement p index)) (\<lambda>e.
     if not_after (entitlement_identity e) previous then Inl Order
     else if reserved e \<noteq> 0 then Inl Flags
     else if \<not> valid_maximum (maximum_mode e) (maximum_pages e) \<or> MAX_PAGES < guarantee_pages e
       \<or> maximum_mode e = FIXED \<and> maximum_pages e < guarantee_pages e
     then Inl Maximum
     else rbind (ok_or Overflow (checked_add guarantees (guarantee_pages e))) (\<lambda>total.
       if MAX_PAGES < total then Inl Overflow
       else check_entitlements p rest (entitlement_identity e) total))"

primrec check_subjects :: "Policy \<Rightarrow> nat list \<Rightarrow> bytes \<Rightarrow> (PolicyError, unit) res" where
  "check_subjects p [] previous = Inr ()"
| "check_subjects p (index # rest) previous =
     rbind (ok_or Bounds (policy_subject p index)) (\<lambda>s.
     if not_after (subject_identity s) previous then Inl Order
     else if subject_reserved s \<noteq> 0 then Inl Flags
     else if \<not> valid_maximum (subject_maximum_mode s) (subject_maximum_pages s) then Inl Maximum
     else if entitlement_index p (entitlement s) = None then Inl Reference
     else check_subjects p rest (subject_identity s))"

definition member_step :: "Policy \<Rightarrow> Entitlement \<Rightarrow> nat \<Rightarrow> nat \<times> u64 \<Rightarrow> nat \<times> u64" where
  "member_step p e index acc =
     (let m = the (policy_subject p index)
      in if entitlement m = entitlement_identity e
         then (fst acc + 1,
               min (saturating_add (snd acc)
                 (if subject_maximum_mode m = POOL then MAX_PAGES else subject_maximum_pages m))
                 MAX_PAGES)
         else acc)"

primrec check_members :: "Policy \<Rightarrow> nat list \<Rightarrow> (PolicyError, unit) res" where
  "check_members p [] = Inr ()"
| "check_members p (index # rest) =
     (let e = the (policy_entitlement p index);
          (members, member_maximum) = fold (member_step p e) [0..<policy_subject_count p] (0, 0)
      in if members = 0 \<or> member_maximum < guarantee_pages e then Inl Maximum
         else check_members p rest)"

definition policy_decode :: "bytes \<Rightarrow> (PolicyError, Policy) res" where
  "policy_decode bytes =
     rbind (ok_or Truncated (header_decode bytes)) (\<lambda>h.
     if magic h \<noteq> MAGIC \<or> format_version h \<noteq> FORMAT_VERSION then Inl Version
     else if unat (header_size h) \<noteq> HEADER_BYTES
       \<or> MAX_ENTITLEMENTS < unat (entitlement_count h) \<or> MAX_SUBJECTS < unat (subject_count h)
       \<or> length bytes \<noteq> HEADER_BYTES + unat (entitlement_count h) * ENTITLEMENT_BYTES
           + unat (subject_count h) * SUBJECT_BYTES
       \<or> unat (total_len h) \<noteq> length bytes
     then Inl Bounds
     else if required_flags h \<noteq> 0 \<or> header_reserved h \<noteq> 0 then Inl Flags
     else if list_ex (\<lambda>v. MAX_VALUE < v)
       [reserve_bytes h, reserve_slots h, reserve_descriptors h, reserve_extents h, reserve_tables h]
     then Inl Overflow
     else
       let p = \<lparr>policy_bytes = bytes, header = h\<rparr>
       in rbind (check_entitlements p [0..<policy_entitlement_count p] (zeros 32) 0) (\<lambda>_.
          rbind (check_subjects p [0..<policy_subject_count p] (zeros 32)) (\<lambda>_.
          rbind (check_members p [0..<policy_entitlement_count p]) (\<lambda>_. Inr p))))"

section \<open>Instances\<close>

definition find_instance :: "Instance list \<Rightarrow> bytes \<Rightarrow> Instance option" where
  "find_instance instances i = List.find (\<lambda>e. instance_identity e = i) instances"

text \<open>The bounded walk to the top of the ownership chain: one step per entry of the list.\<close>

primrec chain_walk :: "Instance list \<Rightarrow> nat list \<Rightarrow> bytes option \<Rightarrow> (PolicyError, unit) res" where
  "chain_walk instances [] current = Inr ()"
| "chain_walk instances (step # rest) current =
     (case current of
        None \<Rightarrow> Inr ()
      | Some i \<Rightarrow>
          if step = length instances then Inl Topology
          else rbind (ok_or Reference (find_instance instances i))
                 (\<lambda>e. chain_walk instances rest (instance_owner e)))"

primrec check_instances :: "Instance list \<Rightarrow> nat list \<Rightarrow> (PolicyError, unit) res" where
  "check_instances instances [] = Inr ()"
| "check_instances instances (index # rest) =
     (let inst = instances ! index
      in if instance_identity inst = zeros 32
           \<or> list_ex (\<lambda>prior. instance_identity prior = instance_identity inst) (take index instances)
         then Inl Topology
         else rbind (chain_walk instances [0..<length instances + 1] (Some (instance_identity inst)))
                (\<lambda>_. check_instances instances rest))"

text \<open>The walk towards a subtree root has no bound of its own; \<open>None\<close> is not returning.\<close>

partial_function (option) subtree_walk ::
  "Instance list \<Rightarrow> bytes \<Rightarrow> bytes option \<Rightarrow> (PolicyError, bool) res option" where
  "subtree_walk instances root current =
     (case current of
        None \<Rightarrow> Some (Inr False)
      | Some i \<Rightarrow>
          if i = root then Some (Inr True)
          else (case find_instance instances i of
              None \<Rightarrow> Some (Inl Reference)
            | Some e \<Rightarrow> subtree_walk instances root (instance_owner e)))"

primrec check_topology ::
  "Policy \<Rightarrow> Instance list \<Rightarrow> nat list \<Rightarrow> (PolicyError, unit) res option" where
  "check_topology p instances [] = Some (Inr ())"
| "check_topology p instances (index # rest) =
     (let s = the (policy_subject p index);
          e = the (policy_entitlement p (the (entitlement_index p (entitlement s))))
      in if \<not> list_ex (\<lambda>i. instance_identity i = subject_identity s) instances then Some (Inl Reference)
         else if subtree_root e = zeros 32 then check_topology p instances rest
         else (case subtree_walk instances (subtree_root e) (Some (subject_identity s)) of
             None \<Rightarrow> None
           | Some (Inl err) \<Rightarrow> Some (Inl err)
           | Some (Inr found) \<Rightarrow>
               if found then check_topology p instances rest else Some (Inl Topology)))"

definition validate_instances :: "Policy \<Rightarrow> Instance list \<Rightarrow> (PolicyError, unit) res option" where
  "validate_instances p instances =
     (case check_instances instances [0..<length instances] of
        Inl e \<Rightarrow> Some (Inl e)
      | Inr _ \<Rightarrow> check_topology p instances [0..<policy_subject_count p])"

section \<open>Every unwrap of a decoded policy succeeds\<close>

lemmas policy_sizes =
  HEADER_BYTES_def ENTITLEMENT_BYTES_def SUBJECT_BYTES_def MAX_ENTITLEMENTS_def MAX_SUBJECTS_def

lemma policy_decode_shape:
  assumes "policy_decode bytes = Inr p"
  shows "policy_bytes p = bytes" "policy_entitlement_count p \<le> 32" "policy_subject_count p \<le> 64"
    "length bytes = 80 + policy_entitlement_count p * 88 + policy_subject_count p * 80"
    "check_entitlements p [0..<policy_entitlement_count p] (zeros 32) 0 = Inr ()"
    "check_subjects p [0..<policy_subject_count p] (zeros 32) = Inr ()"
    "check_members p [0..<policy_entitlement_count p] = Inr ()"
  using assms unfolding policy_decode_def
  by (auto simp: result_simps Let_def policy_sizes policy_entitlement_count_def
      policy_subject_count_def split: if_splits)

definition policy_wf :: "Policy \<Rightarrow> bool" where
  "policy_wf p \<longleftrightarrow> (\<exists>bytes. policy_decode bytes = Inr p)"

lemma policy_wf_shape:
  assumes "policy_wf p"
  shows "policy_entitlement_count p \<le> 32" "policy_subject_count p \<le> 64"
    "length (policy_bytes p) = 80 + policy_entitlement_count p * 88 + policy_subject_count p * 80"
    "check_entitlements p [0..<policy_entitlement_count p] (zeros 32) 0 = Inr ()"
    "check_subjects p [0..<policy_subject_count p] (zeros 32) = Inr ()"
    "check_members p [0..<policy_entitlement_count p] = Inr ()"
  using assms unfolding policy_wf_def by (metis policy_decode_shape)+

lemma record_fits: "i < n \<Longrightarrow> i * k + k \<le> n * (k :: nat)"
  by (metis Suc_leI add.commute mult_Suc mult_le_mono1)

lemma policy_entitlement_total:
  assumes "policy_wf p" "i < policy_entitlement_count p"
  shows "\<exists>e. policy_entitlement p i = Some e"
  using assms(2) policy_wf_shape(3) [OF assms(1)] record_fits [OF assms(2), of 88]
  by (simp add: policy_entitlement_def entitlement_decode_def policy_sizes)

lemma policy_subject_total:
  assumes "policy_wf p" "i < policy_subject_count p"
  shows "\<exists>s. policy_subject p i = Some s"
  using assms(2) policy_wf_shape(3) [OF assms(1)] record_fits [OF assms(2), of 80]
  by (simp add: policy_subject_def subject_decode_def policy_sizes)

lemma check_subjects_nth:
  assumes "check_subjects p is previous = Inr ()" "i \<in> set is"
  shows "\<exists>s. policy_subject p i = Some s \<and> entitlement_index p (entitlement s) \<noteq> None
    \<and> valid_maximum (subject_maximum_mode s) (subject_maximum_pages s)"
  using assms by (induction "is" arbitrary: previous) (auto simp: result_simps split: if_splits)

lemma check_entitlements_nth:
  assumes "check_entitlements p is previous g = Inr ()" "i \<in> set is"
  shows "\<exists>e. policy_entitlement p i = Some e \<and> guarantee_pages e \<le> MAX_PAGES
    \<and> valid_maximum (maximum_mode e) (maximum_pages e)
    \<and> (maximum_mode e = FIXED \<longrightarrow> guarantee_pages e \<le> maximum_pages e)"
  using assms
  by (induction "is" arbitrary: previous g) (auto simp: result_simps not_le split: if_splits)

lemma entitlement_index_Some:
  assumes "entitlement_index p i = Some k"
  shows "k < policy_entitlement_count p" "entitlement_identity (the (policy_entitlement p k)) = i"
  using assms by (auto simp: entitlement_index_def find_Some_iff)

lemma subject_index_Some:
  assumes "subject_index p i = Some k"
  shows "k < policy_subject_count p" "subject_identity (the (policy_subject p k)) = i"
  using assms by (auto simp: subject_index_def find_Some_iff)

text \<open>The entitlement a subject belongs to, by position.\<close>

definition entitlement_at :: "Policy \<Rightarrow> nat \<Rightarrow> nat" where
  "entitlement_at p i = the (entitlement_index p (entitlement (the (policy_subject p i))))"

lemma entitlement_at_total:
  assumes "policy_wf p" "i < policy_subject_count p"
  shows "entitlement_index p (entitlement (the (policy_subject p i))) = Some (entitlement_at p i)"
    "entitlement_at p i < policy_entitlement_count p"
    "entitlement_identity (the (policy_entitlement p (entitlement_at p i)))
       = entitlement (the (policy_subject p i))"
proof -
  show *: "entitlement_index p (entitlement (the (policy_subject p i))) = Some (entitlement_at p i)"
    using check_subjects_nth [OF policy_wf_shape(5) [OF assms(1)], of i] assms(2)
    by (auto simp: entitlement_at_def)
  show "entitlement_at p i < policy_entitlement_count p"
    "entitlement_identity (the (policy_entitlement p (entitlement_at p i)))
       = entitlement (the (policy_subject p i))"
    using entitlement_index_Some [OF *] by simp_all
qed

lemma same_entitlement:
  assumes "policy_wf p" "i < policy_subject_count p" "j < policy_subject_count p"
  shows "entitlement (the (policy_subject p j))
      = entitlement_identity (the (policy_entitlement p (entitlement_at p i)))
    \<longleftrightarrow> entitlement_at p j = entitlement_at p i"
  using entitlement_at_total [OF assms(1,2)] entitlement_at_total [OF assms(1,3)]
  by (metis option.inject)

section \<open>The codec\<close>

lemmas header_fields =
  header_decode_def header_encode_def HEADER_BYTES_def read_u32_def read_u64_def

lemma encoded_lengths [simp]:
  "length (magic h) = 8 \<Longrightarrow> length (header_encode h) = 80"
  "length (entitlement_identity e) = 32 \<Longrightarrow> length (subtree_root e) = 32
     \<Longrightarrow> length (entitlement_encode e) = 88"
  "length (subject_identity s) = 32 \<Longrightarrow> length (entitlement s) = 32 \<Longrightarrow> length (subject_encode s) = 80"
  by (simp_all add: header_encode_def entitlement_encode_def subject_encode_def policy_sizes
      length_splices del: splices.simps)

lemma header_roundtrip: "length (magic h) = 8 \<Longrightarrow> header_decode (header_encode h @ rest) = Some h"
  by (simp add: header_fields slice_splices slice_simps slice_append del: splices.simps)

lemma entitlement_roundtrip:
  "length (entitlement_identity e) = 32 \<Longrightarrow> length (subtree_root e) = 32
     \<Longrightarrow> entitlement_decode (entitlement_encode e @ rest) = Some e"
  by (simp add: entitlement_decode_def entitlement_encode_def ENTITLEMENT_BYTES_def read_u32_def
      read_u64_def slice_splices slice_simps slice_append del: splices.simps)

lemma subject_roundtrip:
  "length (subject_identity s) = 32 \<Longrightarrow> length (entitlement s) = 32
     \<Longrightarrow> subject_decode (subject_encode s @ rest) = Some s"
  by (simp add: subject_decode_def subject_encode_def SUBJECT_BYTES_def read_u32_def
      read_u64_def slice_splices slice_simps slice_append del: splices.simps)

section \<open>The ownership walk ends\<close>

lemma chain_walk_subtree:
  assumes "chain_walk instances steps current = Inr ()" "steps \<noteq> []" "last steps = length instances"
  shows "\<exists>r. subtree_walk instances root current = Some r"
  using assms
proof (induction steps arbitrary: current)
  case (Cons step rest)
  show ?case
  proof (cases current)
    case None
    then show ?thesis by (simp add: subtree_walk.simps)
  next
    case (Some i)
    with Cons.prems obtain e where e: "find_instance instances i = Some e"
        "chain_walk instances rest (instance_owner e) = Inr ()" and step: "step \<noteq> length instances"
      by (auto simp: result_simps split: if_splits)
    with Cons.prems have "rest \<noteq> []" "last rest = length instances" by (auto split: if_splits)
    from Cons.IH [OF e(2) this] Some e(1) show ?thesis
      by (simp add: subtree_walk.simps [of instances root "Some i"])
  qed
qed simp

lemma check_instances_chain:
  assumes "check_instances instances is = Inr ()" "i \<in> set is"
  shows "chain_walk instances [0..<length instances + 1] (Some (instance_identity (instances ! i)))
    = Inr ()"
  using assms by (induction "is") (auto simp: result_simps Let_def split: if_splits)

lemma subtree_walk_ends:
  assumes "check_instances instances [0..<length instances] = Inr ()"
    and "list_ex (\<lambda>x. instance_identity x = i) instances"
  shows "\<exists>r. subtree_walk instances root (Some i) = Some r"
proof -
  obtain k where "k < length instances" "instance_identity (instances ! k) = i"
    using assms(2) by (auto simp: list_ex_iff in_set_conv_nth)
  then show ?thesis
    using chain_walk_subtree [OF check_instances_chain [OF assms(1), of k]] by auto
qed

lemma check_topology_ends:
  assumes "check_instances instances [0..<length instances] = Inr ()"
  shows "\<exists>r. check_topology p instances is = Some r"
proof (induction "is")
  case (Cons index rest)
  then show ?case
    using subtree_walk_ends [OF assms, of "subject_identity (the (policy_subject p index))"
        "subtree_root (the (policy_entitlement p (entitlement_at p index)))"]
    by (auto simp: Let_def entitlement_at_def split: option.splits sum.splits)
qed simp

text \<open>C24: checking a policy against a generation's instances always returns.  The walk from a
  subject towards its entitlement's subtree root follows owner links with no bound of its own, but it
  is only entered after every instance's owner chain was followed to its top in at most as many steps
  as there are instances, so a cyclic ownership graph is reported and never walked.\<close>

theorem validate_instances_terminates: "\<exists>r. validate_instances p instances = Some r"
  using check_topology_ends by (auto simp: validate_instances_def split: sum.splits)

end
