(* ===== verification/MemoryPlan.thy ===== *)
theory MemoryPlan
  imports MemoryPolicy
begin

text \<open>
  The first half of \<open>boot-contracts/src/private_memory_policy/ledger.rs\<close>: resource tuples with
  their checked arithmetic, physical ranges and the inventory check, and the certification of a
  transaction's placements, as single placements or as runs.  The tuple arithmetic is characterised
  once, axis by axis, by \<open>amt\<close>; the ledger's accounting proofs rest on these laws alone.
\<close>

section \<open>Resources\<close>

datatype LedgerError =
    Overflow | Inventory | Placement | Unavailable | Guarantee | Denied | Maximum | Incarnation
  | Transaction | Cleanup

record Resources =
  res_bytes :: u64
  slots :: u64
  descriptors :: u64
  extents :: u64
  tables :: u64

definition ZERO :: Resources where
  "ZERO = \<lparr>res_bytes = 0, slots = 0, descriptors = 0, extents = 0, tables = 0\<rparr>"

definition res_add :: "Resources \<Rightarrow> Resources \<Rightarrow> (LedgerError, Resources) res" where
  "res_add a b =
     rbind (ok_or Overflow (checked_add (res_bytes a) (res_bytes b))) (\<lambda>v.
     rbind (ok_or Overflow (checked_add (slots a) (slots b))) (\<lambda>w.
     rbind (ok_or Overflow (checked_add (descriptors a) (descriptors b))) (\<lambda>x.
     rbind (ok_or Overflow (checked_add (extents a) (extents b))) (\<lambda>y.
     rbind (ok_or Overflow (checked_add (tables a) (tables b))) (\<lambda>z.
     Inr \<lparr>res_bytes = v, slots = w, descriptors = x, extents = y, tables = z\<rparr>)))))"

definition res_subtract :: "Resources \<Rightarrow> Resources \<Rightarrow> (LedgerError, Resources) res" where
  "res_subtract a b =
     rbind (ok_or Unavailable (checked_sub (res_bytes a) (res_bytes b))) (\<lambda>v.
     rbind (ok_or Unavailable (checked_sub (slots a) (slots b))) (\<lambda>w.
     rbind (ok_or Unavailable (checked_sub (descriptors a) (descriptors b))) (\<lambda>x.
     rbind (ok_or Unavailable (checked_sub (extents a) (extents b))) (\<lambda>y.
     rbind (ok_or Unavailable (checked_sub (tables a) (tables b))) (\<lambda>z.
     Inr \<lparr>res_bytes = v, slots = w, descriptors = x, extents = y, tables = z\<rparr>)))))"

definition page_share :: "Resources \<Rightarrow> u64 \<Rightarrow> u64 \<Rightarrow> Resources" where
  "page_share r pages total_pages =
     (if total_pages = 0 then ZERO
      else \<lparr>res_bytes = res_bytes r div total_pages * pages, slots = slots r div total_pages * pages,
        descriptors = descriptors r div total_pages * pages,
        extents = extents r div total_pages * pages, tables = tables r div total_pages * pages\<rparr>)"

definition minimum :: "Resources \<Rightarrow> Resources \<Rightarrow> Resources" where
  "minimum a b =
     \<lparr>res_bytes = min (res_bytes a) (res_bytes b), slots = min (slots a) (slots b),
      descriptors = min (descriptors a) (descriptors b), extents = min (extents a) (extents b),
      tables = min (tables a) (tables b)\<rparr>"

definition reserve :: "Policy \<Rightarrow> Resources" where
  "reserve p =
     \<lparr>res_bytes = reserve_bytes (header p), slots = reserve_slots (header p),
      descriptors = reserve_descriptors (header p), extents = reserve_extents (header p),
      tables = reserve_tables (header p)\<rparr>"

section \<open>Ranges and the inventory\<close>

datatype Class =
    OrdinaryTail | PreservedLeaf | Reusable | StaticTasks | KernelObjects | Metadata | PageTables
  | SharedDma | Guaranteed | Elastic | Quarantined

record Range =
  range_start :: u64
  range_bytes :: u64
  range_class :: Class

definition range_end :: "Range \<Rightarrow> (LedgerError, u64) res" where
  "range_end r = ok_or Overflow (checked_add (range_start r) (range_bytes r))"

definition range_free :: "Range \<Rightarrow> bool" where
  "range_free r \<longleftrightarrow> range_class r \<in> {OrdinaryTail, PreservedLeaf, Reusable}"

definition unwrap_or :: "'a \<Rightarrow> ('e, 'a) res \<Rightarrow> 'a" where
  "unwrap_or d r = (case r of Inl _ \<Rightarrow> d | Inr x \<Rightarrow> x)"

primrec disjoint_from :: "Range list \<Rightarrow> Range list \<Rightarrow> (LedgerError, unit) res" where
  "disjoint_from prior [] = Inr ()"
| "disjoint_from prior (r # rest) =
     rbind (range_end r) (\<lambda>e.
     if range_bytes r = 0
       \<or> list_ex (\<lambda>other. range_start r < unwrap_or (- 1) (range_end other) \<and> range_start other < e)
           prior
     then Inl Inventory
     else disjoint_from (prior @ [r]) rest)"

text \<open>\<open>a.ok() <= b.ok()\<close>: an absent value is below every present one.\<close>

definition ok_le :: "(LedgerError, u64) res \<Rightarrow> (LedgerError, u64) res \<Rightarrow> bool" where
  "ok_le a b = (case a of Inl _ \<Rightarrow> True | Inr x \<Rightarrow> (case b of Inl _ \<Rightarrow> False | Inr y \<Rightarrow> x \<le> y))"

primrec sum_partition ::
  "Range list \<Rightarrow> Range list \<Rightarrow> u64 \<Rightarrow> u64 \<Rightarrow> (LedgerError, u64 \<times> u64) res" where
  "sum_partition ordinary [] sum_bytes available = Inr (sum_bytes, available)"
| "sum_partition ordinary (r # rest) sum_bytes available =
     (if \<not> list_ex (\<lambda>parent. range_start parent \<le> range_start r
             \<and> ok_le (range_end r) (range_end parent)) ordinary
      then Inl Inventory
      else rbind (ok_or Overflow (checked_add sum_bytes (range_bytes r))) (\<lambda>sum_bytes'.
        if range_free r
        then rbind (ok_or Overflow (checked_add available (range_bytes r)))
               (sum_partition ordinary rest sum_bytes')
        else sum_partition ordinary rest sum_bytes' available))"

primrec sum_ranges :: "Range list \<Rightarrow> u64 \<Rightarrow> (LedgerError, u64) res" where
  "sum_ranges [] acc = Inr acc"
| "sum_ranges (r # rest) acc =
     rbind (ok_or Overflow (checked_add acc (range_bytes r))) (sum_ranges rest)"

definition inventory_available :: "Range list \<Rightarrow> Range list \<Rightarrow> (LedgerError, u64) res" where
  "inventory_available ordinary parts =
     rbind (disjoint_from [] ordinary) (\<lambda>_.
     rbind (disjoint_from [] parts) (\<lambda>_.
     rbind (sum_partition ordinary parts 0 0) (\<lambda>(sum_bytes, available).
     rbind (sum_ranges ordinary 0) (\<lambda>admitted.
     if sum_bytes \<noteq> admitted then Inl Inventory else Inr available))))"

section \<open>Certified plans\<close>

record Placement =
  place_start :: u64
  place_bits :: u8

definition PAGES_PER_LEAF_TABLE :: u64 where "PAGES_PER_LEAF_TABLE = 512"

record Witness =
  wit_guaranteed :: Resources
  wit_guarantee_pages :: u64

definition payload_fits :: "Witness \<Rightarrow> (LedgerError, bool) res" where
  "payload_fits w =
     rbind (ok_or Overflow (checked_mul (tables (wit_guaranteed w)) PAGE_BYTES)) (\<lambda>tbl.
     rbind (ok_or Overflow (checked_mul (wit_guarantee_pages w) PAGE_BYTES)) (\<lambda>pages.
     Inr (case checked_sub (res_bytes (wit_guaranteed w)) tbl of
        None \<Rightarrow> False | Some payload \<Rightarrow> pages \<le> payload)))"

record Run =
  run_start :: u64
  run_bits :: u8
  run_count :: u64

text \<open>\<open>1u64.checked_shl(bits)\<close>.\<close>

definition shl_one :: "u8 \<Rightarrow> u64 option" where
  "shl_one bits = (if unat bits < 64 then Some (push_bit (unat bits) 1) else None)"

definition run_bytes :: "Run \<Rightarrow> (LedgerError, u64) res" where
  "run_bytes r =
     ok_or Overflow (Option.bind (shl_one (run_bits r)) (\<lambda>size. checked_mul size (run_count r)))"

definition run_end :: "Run \<Rightarrow> (LedgerError, u64) res" where
  "run_end r =
     rbind (run_bytes r) (\<lambda>n. ok_or Overflow (checked_add (run_start r) n))"

record Plan =
  plan_resources :: Resources
  plan_guaranteed :: Resources
  plan_guarantee_pages :: u64

definition contained :: "u64 \<Rightarrow> u64 \<Rightarrow> Range \<Rightarrow> bool" where
  "contained start e r \<longleftrightarrow> range_start r \<le> start \<and> e \<le> unwrap_or 0 (range_end r)"

primrec certify_loop ::
  "Range list \<Rightarrow> bool \<Rightarrow> Placement list \<Rightarrow> Placement list \<Rightarrow> u64 \<Rightarrow> u64
     \<Rightarrow> (LedgerError, u64 \<times> u64) res" where
  "certify_loop sources witnessed prior [] sum_bytes protected_total = Inr (sum_bytes, protected_total)"
| "certify_loop sources witnessed prior (pl # rest) sum_bytes protected_total =
     rbind (ok_or Overflow (shl_one (place_bits pl))) (\<lambda>size.
     rbind (ok_or Overflow (checked_add (place_start pl) size)) (\<lambda>e.
     let protected = witnessed
           \<and> list_ex (\<lambda>r. range_class r = Guaranteed \<and> contained (place_start pl) e r) sources
     in if \<not> is_multiple_of (place_start pl) size
          \<or> \<not> (protected \<or> list_ex (\<lambda>r. range_free r \<and> contained (place_start pl) e r) sources)
          \<or> list_ex (\<lambda>q. place_start pl < place_start q + push_bit (unat (place_bits q)) 1
              \<and> place_start q < e) prior
        then Inl Placement
        else rbind (ok_or Overflow (checked_add sum_bytes size)) (\<lambda>sum_bytes'.
          rbind (if protected then ok_or Overflow (checked_add protected_total size)
                 else Inr protected_total)
            (certify_loop sources witnessed (prior @ [pl]) rest sum_bytes'))))"

text \<open>The declared protected part must be what landed in protected ranges, fit the transaction,
  and hold the pages it claims to redeem.\<close>

definition witness_checks :: "Resources \<Rightarrow> u64 \<Rightarrow> Witness \<Rightarrow> (LedgerError, unit) res" where
  "witness_checks resources protected_total w =
     (if res_bytes (wit_guaranteed w) \<noteq> protected_total
        \<or> isl (res_subtract resources (wit_guaranteed w))
      then Inl Guarantee
      else rbind (payload_fits w) (\<lambda>ok. if \<not> ok then Inl Guarantee else Inr ()))"

definition certify ::
  "Range list \<Rightarrow> Placement list \<Rightarrow> Resources \<Rightarrow> Witness option \<Rightarrow> (LedgerError, Plan) res" where
  "certify sources placements resources witness =
     rbind (certify_loop sources (witness \<noteq> None) [] placements 0 0) (\<lambda>(sum_bytes, protected_total).
     if sum_bytes \<noteq> res_bytes resources then Inl Placement
     else rbind (case witness of
         None \<Rightarrow> Inr (ZERO, 0)
       | Some w \<Rightarrow> rbind (witness_checks resources protected_total w)
           (\<lambda>_. Inr (wit_guaranteed w, wit_guarantee_pages w)))
       (\<lambda>(g, n). Inr \<lparr>plan_resources = resources, plan_guaranteed = g, plan_guarantee_pages = n\<rparr>))"

definition validate :: "Range list \<Rightarrow> Placement list \<Rightarrow> Resources \<Rightarrow> (LedgerError, Plan) res" where
  "validate free placements resources = certify free placements resources None"

definition validate_reserved ::
  "Range list \<Rightarrow> Placement list \<Rightarrow> Resources \<Rightarrow> Witness \<Rightarrow> (LedgerError, Plan) res" where
  "validate_reserved sources placements resources witness =
     certify sources placements resources (Some witness)"

primrec runs_loop ::
  "Range list \<Rightarrow> Run list \<Rightarrow> Run list \<Rightarrow> u64 \<Rightarrow> u64 \<Rightarrow> (LedgerError, u64 \<times> u64) res" where
  "runs_loop sources prior [] sum_bytes protected_total = Inr (sum_bytes, protected_total)"
| "runs_loop sources prior (run # rest) sum_bytes protected_total =
     (if run_count run = 0 then runs_loop sources (prior @ [run]) rest sum_bytes protected_total
      else
        rbind (ok_or Overflow (shl_one (run_bits run))) (\<lambda>size.
        rbind (run_end run) (\<lambda>e.
        let protected =
              list_ex (\<lambda>r. range_class r = Guaranteed \<and> contained (run_start run) e r) sources
        in if \<not> is_multiple_of (run_start run) size
             \<or> \<not> (protected \<or> list_ex (\<lambda>r. range_free r \<and> contained (run_start run) e r) sources)
             \<or> list_ex (\<lambda>q. case run_end q of
                   Inl _ \<Rightarrow> False
                 | Inr prior_end \<Rightarrow> run_start run < prior_end \<and> run_start q < e)
                 (filter (\<lambda>q. run_count q \<noteq> 0) prior)
           then Inl Placement
           else rbind (run_bytes run) (\<lambda>n.
             rbind (ok_or Overflow (checked_add sum_bytes n)) (\<lambda>sum_bytes'.
             rbind (if protected then ok_or Overflow (checked_add protected_total n)
                    else Inr protected_total)
               (runs_loop sources (prior @ [run]) rest sum_bytes'))))))"

definition validate_runs ::
  "Range list \<Rightarrow> Run list \<Rightarrow> Resources \<Rightarrow> Witness \<Rightarrow> (LedgerError, Plan) res" where
  "validate_runs sources runs resources witness =
     rbind (runs_loop sources [] runs 0 0) (\<lambda>(sum_bytes, protected_total).
     if sum_bytes \<noteq> res_bytes resources then Inl Placement
     else rbind (witness_checks resources protected_total witness) (\<lambda>_.
       Inr \<lparr>plan_resources = resources, plan_guaranteed = wit_guaranteed witness,
         plan_guarantee_pages = wit_guarantee_pages witness\<rparr>))"

section \<open>The arithmetic of tuples, axis by axis\<close>

datatype axis = Bytes | Slots | Descriptors | Extents | Tables

primrec amt :: "axis \<Rightarrow> Resources \<Rightarrow> nat" where
  "amt Bytes r = unat (res_bytes r)"
| "amt Slots r = unat (slots r)"
| "amt Descriptors r = unat (descriptors r)"
| "amt Extents r = unat (extents r)"
| "amt Tables r = unat (tables r)"

lemma all_axis: "(\<forall>k. P k) \<longleftrightarrow> P Bytes \<and> P Slots \<and> P Descriptors \<and> P Extents \<and> P Tables"
  by (metis axis.exhaust)

lemma amt_less: "amt k r < 2 ^ 64"
  by (cases k) (simp_all add: unat_less_u64)

lemma amt_ZERO [simp]: "amt k ZERO = 0"
  by (cases k) (simp_all add: ZERO_def)

lemma resources_eq_iff: "a = b \<longleftrightarrow> (\<forall>k. amt k a = amt k (b :: Resources))"
  by (cases a; cases b) (simp add: all_axis word_unat_eq_iff)

lemma res_add_iff [result_simps]: "res_add a b = Inr c \<longleftrightarrow> (\<forall>k. amt k c = amt k a + amt k b)"
  by (cases c) (auto simp: res_add_def result_simps checked_simps all_axis)

lemma res_subtract_iff [result_simps]:
  "res_subtract a b = Inr c \<longleftrightarrow> (\<forall>k. amt k a = amt k b + amt k c)"
  by (cases c) (auto simp: res_subtract_def result_simps checked_simps all_axis)

lemma amt_minimum [simp]: "amt k (minimum a b) = min (amt k a) (amt k b)"
  by (cases k) (simp_all add: minimum_def min_def word_le_nat_alt)

lemma resources_exist:
  assumes "\<And>k. f k < 2 ^ 64"
  shows "\<exists>r. \<forall>k. amt k r = f k"
proof -
  have "unat (of_nat (f k) :: u64) = f k" for k
    using assms [of k] by (simp add: unat_of_nat take_bit_eq_mod)
  then show ?thesis
    by (intro exI [of _ "\<lparr>res_bytes = of_nat (f Bytes), slots = of_nat (f Slots),
        descriptors = of_nat (f Descriptors), extents = of_nat (f Extents),
        tables = of_nat (f Tables)\<rparr>"]) (simp add: all_axis)
qed

lemma res_add_ok: "(\<And>k. amt k a + amt k b < 2 ^ 64) \<Longrightarrow> \<exists>c. res_add a b = Inr c"
  using resources_exist [of "\<lambda>k. amt k a + amt k b"] by (simp add: res_add_iff)

lemma res_subtract_ok: "(\<And>k. amt k b \<le> amt k a) \<Longrightarrow> \<exists>c. res_subtract a b = Inr c"
  using resources_exist [of "\<lambda>k. amt k a - amt k b"] amt_less
  by (metis (no_types, lifting) le_add_diff_inverse less_imp_diff_less res_subtract_iff)

section \<open>What certification establishes\<close>

definition place_size :: "Placement \<Rightarrow> nat" where
  "place_size pl = 2 ^ unat (place_bits pl)"

definition place_span :: "Placement \<Rightarrow> nat set" where
  "place_span pl = {unat (place_start pl) ..< unat (place_start pl) + place_size pl}"

definition range_span :: "Range \<Rightarrow> nat set" where
  "range_span r = {unat (range_start r) ..< unat (range_start r) + unat (range_bytes r)}"

text \<open>A range whose end is representable and that contains a placement; a placement in a protected
  range of the sources.\<close>

definition covers :: "Range \<Rightarrow> Placement \<Rightarrow> bool" where
  "covers r pl \<longleftrightarrow>
     unat (range_start r) + unat (range_bytes r) < 2 ^ 64 \<and> place_span pl \<subseteq> range_span r"

definition in_protected :: "Range list \<Rightarrow> Placement \<Rightarrow> bool" where
  "in_protected sources pl \<longleftrightarrow> (\<exists>r \<in> set sources. range_class r = Guaranteed \<and> covers r pl)"

definition place_ok :: "Placement \<Rightarrow> bool" where
  "place_ok pl \<longleftrightarrow> unat (place_bits pl) < 64 \<and> unat (place_start pl) + place_size pl < 2 ^ 64"

lemma unat_shl: "n < 64 \<Longrightarrow> unat (push_bit n 1 :: u64) = 2 ^ n"
  using power_strict_increasing [of n 64 "2 :: nat"] unat_of_nat [of "2 ^ n", where 'a = 64]
  by (simp add: push_bit_eq_mult take_bit_eq_mod)

lemma unat_exp: "n < 64 \<Longrightarrow> unat (2 ^ n :: u64) = 2 ^ n"
  using unat_shl [of n] by (simp add: push_bit_eq_mult)

lemma shl_one_iff: "shl_one b = Some v \<longleftrightarrow> unat b < 64 \<and> v = push_bit (unat b) 1"
  by (auto simp: shl_one_def)

lemma contained_iff:
  assumes "unat e = unat start + n" "0 < n"
  shows "contained start e r
    \<longleftrightarrow> unat (range_start r) + unat (range_bytes r) < 2 ^ 64
      \<and> {unat start ..< unat start + n} \<subseteq> range_span r"
proof (cases "range_end r")
  case (Inl x)
  then have "\<not> unat (range_start r) + unat (range_bytes r) < 2 ^ 64"
    by (auto simp: range_end_def checked_add_def split: if_splits)
  moreover have "unat e \<noteq> 0" using assms by simp
  then have "e \<noteq> 0" by auto
  ultimately show ?thesis using Inl by (simp add: contained_def unwrap_or_def)
next
  case (Inr x)
  then have "unat x = unat (range_start r) + unat (range_bytes r)"
    by (simp add: range_end_def ok_or_Inr_iff checked_add_iff)
  moreover from this have "unat (range_start r) + unat (range_bytes r) < 2 ^ 64"
    using unat_less_u64 [of x] by simp
  ultimately show ?thesis
    using Inr assms by (auto simp: contained_def unwrap_or_def range_span_def word_le_nat_alt)
qed

lemma contained_covers:
  assumes "unat e = unat (place_start pl) + place_size pl"
  shows "contained (place_start pl) e r \<longleftrightarrow> covers r pl"
  using contained_iff [OF assms] by (simp add: covers_def place_span_def place_size_def)

lemma overlap_iff:
  assumes "place_ok q" "unat e = unat (place_start pl) + place_size pl"
  shows "place_start pl < place_start q + push_bit (unat (place_bits q)) 1 \<and> place_start q < e
    \<longleftrightarrow> place_span pl \<inter> place_span q \<noteq> {}"
proof -
  have "unat (place_start q + push_bit (unat (place_bits q)) 1) = unat (place_start q) + place_size q"
    using assms(1) by (simp add: place_ok_def place_size_def unat_exp unat_add_fits)
  then have "place_start pl < place_start q + push_bit (unat (place_bits q)) 1 \<and> place_start q < e
      \<longleftrightarrow> unat (place_start pl) < unat (place_start q) + place_size q
        \<and> unat (place_start q) < unat (place_start pl) + place_size pl"
    using assms(2) by (simp add: word_less_nat_alt)
  also have "\<dots> \<longleftrightarrow> max (unat (place_start pl)) (unat (place_start q))
      < min (unat (place_start pl) + place_size pl) (unat (place_start q) + place_size q)"
    by (auto simp: place_size_def)
  finally show ?thesis by (auto simp: place_span_def)
qed

text \<open>What one accepted placement satisfies.\<close>

definition well_placed :: "Range list \<Rightarrow> bool \<Rightarrow> Placement \<Rightarrow> bool" where
  "well_placed sources witnessed pl \<longleftrightarrow>
     place_ok pl \<and> place_size pl dvd unat (place_start pl)
     \<and> (\<exists>r \<in> set sources. covers r pl \<and> (range_free r \<or> witnessed \<and> range_class r = Guaranteed))"

lemma certify_step:
  assumes "certify_loop sources w prior (pl # rest) n g = Inr res" "list_all place_ok prior"
  shows "\<exists>n' g'. certify_loop sources w (prior @ [pl]) rest n' g' = Inr res
    \<and> well_placed sources w pl \<and> (\<forall>q \<in> set prior. place_span pl \<inter> place_span q = {})
    \<and> unat n' = unat n + place_size pl
    \<and> unat g' = unat g + (if w \<and> in_protected sources pl then place_size pl else 0)"
proof -
  from assms(1) obtain e n' g' where b: "unat (place_bits pl) < 64"
      and e: "unat e = unat (place_start pl) + unat (push_bit (unat (place_bits pl)) 1 :: u64)"
      and ok: "is_multiple_of (place_start pl) (push_bit (unat (place_bits pl)) 1)"
        "w \<and> list_ex (\<lambda>r. range_class r = Guaranteed \<and> contained (place_start pl) e r) sources
          \<or> list_ex (\<lambda>r. range_free r \<and> contained (place_start pl) e r) sources"
        "\<not> list_ex (\<lambda>q. place_start pl < place_start q + push_bit (unat (place_bits q)) 1
          \<and> place_start q < e) prior"
      and n': "unat n' = unat n + unat (push_bit (unat (place_bits pl)) 1 :: u64)"
      and g': "unat g' = unat g
        + (if w \<and> list_ex (\<lambda>r. range_class r = Guaranteed \<and> contained (place_start pl) e r) sources
           then unat (push_bit (unat (place_bits pl)) 1 :: u64) else 0)"
      and rest: "certify_loop sources w (prior @ [pl]) rest n' g' = Inr res"
    by (auto simp: rbind_Inr_iff ok_or_Inr_iff shl_one_iff checked_add_iff Let_def split: if_splits)
  note shl = unat_shl [OF b, folded place_size_def]
  note e = e [unfolded shl] and cov = contained_covers [OF e [unfolded shl]]
  have "place_ok pl" using b e unat_less_u64 [of e] by (simp add: place_ok_def)
  moreover have "unat (place_start pl mod push_bit (unat (place_bits pl)) 1) = 0"
    using ok(1) by (auto simp: is_multiple_of_def split: if_splits)
  then have "place_size pl dvd unat (place_start pl)"
    by (simp add: unat_mod_distrib unat_exp [OF b] place_size_def dvd_eq_mod_eq_0)
  moreover have "place_span pl \<inter> place_span q = {}" if "q \<in> set prior" for q
    using ok(3) that assms(2) overlap_iff [OF _ e, of q] by (auto simp: list_ex_iff list_all_iff)
  ultimately show ?thesis
    using rest n' g' ok(2) shl
    by (intro exI [of _ n'] exI [of _ g']) (auto simp: well_placed_def in_protected_def cov list_ex_iff)
qed

lemma certify_loop_sound:
  "certify_loop sources w prior pls n g = Inr (n', g') \<Longrightarrow> list_all place_ok prior \<Longrightarrow>
     list_all (well_placed sources w) pls
     \<and> (\<forall>pl \<in> set pls. \<forall>q \<in> set prior. place_span pl \<inter> place_span q = {})
     \<and> sorted_wrt (\<lambda>a b. place_span a \<inter> place_span b = {}) pls
     \<and> unat n' = unat n + sum_list (map place_size pls)
     \<and> unat g' = unat g
         + sum_list (map place_size (filter (\<lambda>pl. w \<and> in_protected sources pl) pls))"
proof (induction pls arbitrary: prior n g)
  case (Cons pl pls)
  from certify_step [OF Cons.prems] obtain n1 g1 where
    s: "certify_loop sources w (prior @ [pl]) pls n1 g1 = Inr (n', g')" "well_placed sources w pl"
      "\<forall>q \<in> set prior. place_span pl \<inter> place_span q = {}" "unat n1 = unat n + place_size pl"
      "unat g1 = unat g + (if w \<and> in_protected sources pl then place_size pl else 0)"
    by blast
  have "list_all place_ok (prior @ [pl])"
    using Cons.prems(2) s(2) by (simp add: well_placed_def)
  from Cons.IH [OF s(1) this] s(2-5) show ?case by (auto simp: Int_commute)
qed simp

lemma payload_fitsD:
  assumes "payload_fits w = Inr True"
  shows "(amt Tables (wit_guaranteed w) + unat (wit_guarantee_pages w)) * 4096
    \<le> amt Bytes (wit_guaranteed w)"
proof -
  obtain tbl pages payload where "checked_mul (tables (wit_guaranteed w)) PAGE_BYTES = Some tbl"
      "checked_mul (wit_guarantee_pages w) PAGE_BYTES = Some pages"
      "checked_sub (res_bytes (wit_guaranteed w)) tbl = Some payload" "pages \<le> payload"
    using assms by (auto simp: payload_fits_def rbind_Inr_iff ok_or_Inr_iff split: option.splits)
  then show ?thesis
    by (simp add: checked_mul_iff checked_sub_iff word_le_nat_alt PAGE_BYTES_def distrib_right)
qed

text \<open>C13: certification is sound.  When a transaction is certified, its placements are pairwise
  disjoint, aligned to their size, inside the address range, and each lies in one source range that is
  free or, with a witness, protected; their sizes add up to the transaction's bytes; and the protected
  part of the plan is exactly what landed in protected ranges, fits the transaction on every axis, and
  holds its tables and the pages it redeems.\<close>

theorem certify_sound:
  assumes "certify sources placements resources witness = Inr plan"
  shows "plan_resources plan = resources
    \<and> sorted_wrt (\<lambda>a b. place_span a \<inter> place_span b = {}) placements
    \<and> list_all (well_placed sources (witness \<noteq> None)) placements
    \<and> sum_list (map place_size placements) = amt Bytes resources
    \<and> amt Bytes (plan_guaranteed plan)
        = sum_list (map place_size
            (filter (\<lambda>pl. witness \<noteq> None \<and> in_protected sources pl) placements))
    \<and> (\<forall>k. amt k (plan_guaranteed plan) \<le> amt k resources)
    \<and> (amt Tables (plan_guaranteed plan) + unat (plan_guarantee_pages plan)) * 4096
        \<le> amt Bytes (plan_guaranteed plan)"
proof -
  from assms obtain n g where loop: "certify_loop sources (witness \<noteq> None) [] placements 0 0 = Inr (n, g)"
      and n: "n = res_bytes resources" and plan: "plan_resources plan = resources"
      and w: "witness = None \<and> plan_guaranteed plan = ZERO \<and> plan_guarantee_pages plan = 0
        \<or> (\<exists>w. witness = Some w \<and> witness_checks resources g w = Inr ()
            \<and> plan_guaranteed plan = wit_guaranteed w \<and> plan_guarantee_pages plan = wit_guarantee_pages w)"
    by (auto simp: certify_def rbind_Inr_iff split: if_splits option.splits)
  note s = certify_loop_sound [OF loop]
  from w show ?thesis
  proof (elim disjE exE conjE)
    assume "witness = None" "plan_guaranteed plan = ZERO" "plan_guarantee_pages plan = 0"
    then show ?thesis using s n plan by simp
  next
    fix v
    assume v: "witness = Some v" "witness_checks resources g v = Inr ()"
      "plan_guaranteed plan = wit_guaranteed v" "plan_guarantee_pages plan = wit_guarantee_pages v"
    then obtain d where "res_bytes (wit_guaranteed v) = g" "payload_fits v = Inr True"
        "res_subtract resources (wit_guaranteed v) = Inr d"
      by (cases "res_subtract resources (wit_guaranteed v)")
        (auto simp: witness_checks_def rbind_Inr_iff split: if_splits)
    moreover from this(3) have "amt k (wit_guaranteed v) \<le> amt k resources" for k
      by (simp add: res_subtract_iff)
    ultimately show ?thesis using s n plan v payload_fitsD [of v] by auto
  qed
qed

theorem certify_sound_witness:
  "sum_list (map place_size [\<lparr>place_start = 0, place_bits = 12\<rparr>, \<lparr>place_start = 8192, place_bits = 12\<rparr>])
    = 8192"
proof -
  have "certify [\<lparr>range_start = 0, range_bytes = 8192, range_class = Guaranteed\<rparr>,
        \<lparr>range_start = 8192, range_bytes = 4096, range_class = OrdinaryTail\<rparr>]
      [\<lparr>place_start = 0, place_bits = 12\<rparr>, \<lparr>place_start = 8192, place_bits = 12\<rparr>]
      \<lparr>res_bytes = 8192, slots = 2, descriptors = 2, extents = 1, tables = 0\<rparr>
      (Some \<lparr>wit_guaranteed = \<lparr>res_bytes = 4096, slots = 1, descriptors = 1, extents = 1, tables = 0\<rparr>,
        wit_guarantee_pages = 1\<rparr>)
    = Inr \<lparr>plan_resources = \<lparr>res_bytes = 8192, slots = 2, descriptors = 2, extents = 1, tables = 0\<rparr>,
        plan_guaranteed = \<lparr>res_bytes = 4096, slots = 1, descriptors = 1, extents = 1, tables = 0\<rparr>,
        plan_guarantee_pages = 1\<rparr>"
    by (simp add: certify_def shl_one_def checked_add_def is_multiple_of_def contained_def range_end_def
        unwrap_or_def range_free_def witness_checks_def res_subtract_def checked_sub_def payload_fits_def
        checked_mul_def PAGE_BYTES_def)
  from certify_sound [OF this] show ?thesis by simp
qed

end
