(* ===== verification/MemoryLedger.thy ===== *)
theory MemoryLedger
  imports MemoryPlan
begin

text \<open>
  The ownership ledger (\<open>Ledger\<close> of \<open>boot-contracts/src/private_memory_policy/ledger.rs\<close>):
  admission, binding, holder transactions, root funding, reconciliation and retirement.  Every
  operation returns its result with the state it leaves, so that what an error leaves behind is part
  of the model.  The lemmas show that along every run nothing is created or lost: the common pool and
  every guarantee add up to what was admitted, no maximum is exceeded, and a live incarnation can
  always be retired.
\<close>

section \<open>State\<close>

record Member =
  epoch :: u64
  member_live :: bool
  quarantined :: bool
  member_pages :: u64
  held_payload_pages :: u64
  member_guarantee_pages :: u64
  guaranteed :: Resources
  elastic :: Resources

definition member_default :: Member where
  "member_default =
     \<lparr>epoch = 0, member_live = False, quarantined = False, member_pages = 0, held_payload_pages = 0,
      member_guarantee_pages = 0, guaranteed = ZERO, elastic = ZERO\<rparr>"

record Incarnation =
  inc_subject :: nat
  inc_epoch :: u64

record Binding =
  token :: Incarnation
  binding_maximum_pages :: u64

record Pending =
  pending_member :: Incarnation
  pending_pages :: u64
  pending_guarantee_pages :: u64
  pending_guaranteed :: Resources
  pending_elastic :: Resources

record Ledger =
  policy :: Policy
  free :: Resources
  root_owned :: Resources
  system_owned :: Resources
  operational_spent :: Resources
  root_pending :: "Resources option"
  pool_pages :: u64
  guarantee_total :: "Resources list"
  guarantee_free :: "Resources list"
  members :: "Member list"
  pending :: "Pending option"

text \<open>A method that computes everything first and only then assigns: an error leaves the state.\<close>

definition atomically :: "('s \<Rightarrow> ('e, 'a \<times> 's) res) \<Rightarrow> ('s, 'e, 'a) sres" where
  "atomically f s = (case f s of Inl e \<Rightarrow> (Inl e, s) | Inr (x, t) \<Rightarrow> (Inr x, t))"

section \<open>Admission\<close>

primrec admit_guarantees ::
  "Policy \<Rightarrow> (nat \<times> Resources) list \<Rightarrow> Resources \<Rightarrow> Resources list
     \<Rightarrow> (LedgerError, Resources \<times> Resources list) res" where
  "admit_guarantees p [] avail totals = Inr (avail, totals)"
| "admit_guarantees p (entry # rest) avail totals =
     (let (index, resources) = entry; n = guarantee_pages (the (policy_entitlement p index))
      in rbind (ok_or Overflow (checked_mul n PAGE_BYTES)) (\<lambda>least.
         if res_bytes resources < least \<or> slots resources < n \<or> descriptors resources < n
           \<or> n \<noteq> 0 \<and> extents resources = 0
           \<or> tables resources < n
           \<or> n = 0 \<and> resources \<noteq> ZERO
         then Inl Guarantee
         else rbind (res_subtract avail resources)
                (\<lambda>left. admit_guarantees p rest left (totals[index := resources]))))"

definition admit ::
  "Policy \<Rightarrow> Instance list \<Rightarrow> Resources \<Rightarrow> Resources list \<Rightarrow> (LedgerError, Ledger) res option" where
  "admit p instances available guarantees =
     map_option (\<lambda>checked.
       rbind (map_err (\<lambda>_. Denied) checked) (\<lambda>_.
       if length guarantees \<noteq> policy_entitlement_count p then Inl Guarantee
       else rbind (res_subtract available (reserve p)) (\<lambda>avail.
         rbind (admit_guarantees p (List.enumerate 0 guarantees) avail (replicate MAX_ENTITLEMENTS ZERO))
           (\<lambda>(left, totals). Inr
             \<lparr>policy = p, free = left, root_owned = ZERO, system_owned = ZERO,
              operational_spent = ZERO, root_pending = None,
              pool_pages = min (res_bytes avail div PAGE_BYTES) MAX_PAGES,
              guarantee_total = totals, guarantee_free = totals,
              members = replicate MAX_SUBJECTS member_default, pending = None\<rparr>))))
       (validate_instances p instances)"

section \<open>Queries\<close>

definition can_fund_common :: "Ledger \<Rightarrow> Resources \<Rightarrow> (LedgerError, unit) res" where
  "can_fund_common l resources = rbind (res_subtract (free l) resources) (\<lambda>_. Inr ())"

definition operational_reserve :: "Ledger \<Rightarrow> Resources" where
  "operational_reserve l = reserve (policy l)"

text \<open>\<open>None\<close> is the panic of the \<open>expect\<close> in the two methods below.\<close>

definition remaining_operational_reserve :: "Ledger \<Rightarrow> Resources option" where
  "remaining_operational_reserve l =
     (case res_subtract (reserve (policy l)) (operational_spent l) of Inl _ \<Rightarrow> None | Inr r \<Rightarrow> Some r)"

primrec add_all :: "Resources list \<Rightarrow> Resources \<Rightarrow> Resources option" where
  "add_all [] held = Some held"
| "add_all (r # rest) held = (case res_add held r of Inl _ \<Rightarrow> None | Inr held' \<Rightarrow> add_all rest held')"

definition common_held :: "Ledger \<Rightarrow> Resources option" where
  "common_held l =
     add_all (map elastic (members l)
       @ (case pending l of None \<Rightarrow> [] | Some q \<Rightarrow> [pending_elastic q])) ZERO"

definition refund_common :: "Ledger \<Rightarrow> Resources \<Rightarrow> (LedgerError, Resources \<times> Resources) res" where
  "refund_common l resources =
     (let repaid = minimum resources (operational_spent l)
      in rbind (res_subtract resources repaid) (\<lambda>rest.
         rbind (res_add (free l) rest) (\<lambda>f.
         rbind (res_subtract (operational_spent l) repaid) (\<lambda>spent. Inr (f, spent)))))"

definition guaranteed_available :: "Ledger \<Rightarrow> bytes \<Rightarrow> (LedgerError, Resources) res" where
  "guaranteed_available l i =
     rbind (ok_or Denied (entitlement_index (policy l) i)) (\<lambda>k. Inr (guarantee_free l ! k))"

definition member :: "Ledger \<Rightarrow> Incarnation \<Rightarrow> (LedgerError, Member) res" where
  "member l tok =
     (if inc_subject tok < length (members l)
        \<and> member_live (members l ! inc_subject tok)
        \<and> epoch (members l ! inc_subject tok) = inc_epoch tok
      then Inr (members l ! inc_subject tok) else Inl Incarnation)"

definition ledger_entitlement :: "Ledger \<Rightarrow> Incarnation \<Rightarrow> nat" where
  "ledger_entitlement l tok =
     the (entitlement_index (policy l) (entitlement (the (policy_subject (policy l) (inc_subject tok)))))"

definition ensure_growable :: "Ledger \<Rightarrow> Incarnation \<Rightarrow> (LedgerError, unit) res" where
  "ensure_growable l tok =
     rbind (member l tok) (\<lambda>m. if quarantined m then Inl Cleanup else Inr ())"

definition ledger_pages :: "Ledger \<Rightarrow> Incarnation \<Rightarrow> (LedgerError, u64) res" where
  "ledger_pages l tok = rbind (member l tok) (\<lambda>m. Inr (member_pages m))"

definition cohort :: "Ledger \<Rightarrow> Entitlement \<Rightarrow> nat list" where
  "cohort l e =
     filter (\<lambda>pos. case policy_subject (policy l) pos of
         None \<Rightarrow> False | Some s \<Rightarrow> entitlement s = entitlement_identity e)
       [0..<policy_subject_count (policy l)]"

definition entitlement_pages :: "Ledger \<Rightarrow> nat \<Rightarrow> u64" where
  "entitlement_pages l index =
     (case policy_entitlement (policy l) index of
        None \<Rightarrow> 0
      | Some e \<Rightarrow>
          sum_list (map (\<lambda>pos. saturating_add (member_pages (members l ! pos))
            (held_payload_pages (members l ! pos))) (cohort l e)))"

definition redeemable_guarantee :: "Ledger \<Rightarrow> Incarnation \<Rightarrow> (LedgerError, u64) res" where
  "redeemable_guarantee l tok =
     rbind (member l tok) (\<lambda>_.
     rbind (ok_or Denied (policy_entitlement (policy l) (ledger_entitlement l tok))) (\<lambda>e.
     let redeemed = sum_list (map (\<lambda>pos. member_guarantee_pages (members l ! pos)) (cohort l e))
     in Inr (saturating_sub (guarantee_pages e) redeemed)))"

definition guaranteed_held :: "Ledger \<Rightarrow> Incarnation \<Rightarrow> (LedgerError, Resources) res" where
  "guaranteed_held l tok = rbind (member l tok) (\<lambda>m. Inr (guaranteed m))"

definition entitlement_of :: "Ledger \<Rightarrow> Incarnation \<Rightarrow> (LedgerError, nat) res" where
  "entitlement_of l tok = rbind (member l tok) (\<lambda>_. Inr (ledger_entitlement l tok))"

definition page_limit :: "Ledger \<Rightarrow> Incarnation \<Rightarrow> u64" where
  "page_limit l tok =
     (let s = the (policy_subject (policy l) (inc_subject tok))
      in if subject_maximum_mode s = FIXED then subject_maximum_pages s else pool_pages l)"

section \<open>Root and system ownership\<close>

definition set_member :: "nat \<Rightarrow> (Member \<Rightarrow> Member) \<Rightarrow> Ledger \<Rightarrow> Ledger" where
  "set_member i f l = l\<lparr>members := (members l)[i := f (members l ! i)]\<rparr>"

definition retain_unbegun :: "Incarnation \<Rightarrow> Resources \<Rightarrow> (Ledger, LedgerError, unit) sres" where
  "retain_unbegun tok resources = atomically (\<lambda>l.
     if pending l \<noteq> None then Inl Transaction
     else rbind (member l tok) (\<lambda>old.
       if quarantined old then Inl Cleanup
       else rbind (res_subtract (free l) resources) (\<lambda>f.
         rbind (res_add (elastic old) resources) (\<lambda>e.
         Inr ((), set_member (inc_subject tok) (\<lambda>m. m\<lparr>elastic := e, quarantined := True\<rparr>)
           (l\<lparr>free := f\<rparr>))))))"

definition reconcile_ownership :: "Resources \<Rightarrow> Resources \<Rightarrow> (Ledger, LedgerError, unit) sres" where
  "reconcile_ownership root system = atomically (\<lambda>l.
     if root_pending l \<noteq> None \<or> pending l \<noteq> None then Inl Transaction
     else rbind (res_subtract root (root_owned l)) (\<lambda>_.
       rbind (res_add (free l) (root_owned l)) (\<lambda>a.
       rbind (res_add a (system_owned l)) (\<lambda>b.
       rbind (res_subtract (reserve (policy l)) (operational_spent l)) (\<lambda>unspent.
       rbind (res_add b unspent) (\<lambda>whole.
       rbind (res_subtract whole root) (\<lambda>c.
       rbind (res_subtract c system) (\<lambda>left.
       let remaining = minimum (reserve (policy l)) left
       in rbind (res_subtract left remaining) (\<lambda>f.
          rbind (res_subtract (reserve (policy l)) remaining) (\<lambda>spent.
          Inr ((), l\<lparr>free := f, operational_spent := spent, root_owned := root,
            system_owned := system\<rparr>)))))))))))"

definition reconcile_system :: "Resources \<Rightarrow> (Ledger, LedgerError, unit) sres" where
  "reconcile_system resources l = reconcile_ownership (root_owned l) resources l"

definition reserve_root :: "Resources \<Rightarrow> (Ledger, LedgerError, unit) sres" where
  "reserve_root resources = atomically (\<lambda>l.
     if root_pending l \<noteq> None then Inl Transaction
     else rbind (res_subtract (free l) resources) (\<lambda>f.
       rbind (res_add (root_owned l) resources) (\<lambda>_.
       Inr ((), l\<lparr>free := f, root_pending := Some resources\<rparr>))))"

definition settle_root :: "Resources \<Rightarrow> (Ledger, LedgerError, unit) sres" where
  "settle_root used = atomically (\<lambda>l.
     rbind (ok_or Transaction (root_pending l)) (\<lambda>reserved.
     rbind (res_subtract reserved used) (\<lambda>unused.
     rbind (res_add (root_owned l) used) (\<lambda>owned.
     rbind (refund_common l unused) (\<lambda>(f, spent).
     Inr ((), l\<lparr>root_owned := owned, free := f, operational_spent := spent,
       root_pending := None\<rparr>))))))"

section \<open>Incarnations\<close>

definition bind_with_maximum :: "bytes \<Rightarrow> (Ledger, LedgerError, Binding) sres" where
  "bind_with_maximum i = atomically (\<lambda>l.
     rbind (ok_or Denied (subject_index (policy l) i)) (\<lambda>index.
     rbind (ok_or Denied (policy_subject (policy l) index)) (\<lambda>s.
     let maximum = (if subject_maximum_mode s = FIXED then subject_maximum_pages s else pool_pages l)
     in if member_live (members l ! index) then Inl Incarnation
        else rbind (ok_or Overflow (checked_add (epoch (members l ! index)) 1)) (\<lambda>e.
          Inr (\<lparr>token = \<lparr>inc_subject = index, inc_epoch = e\<rparr>, binding_maximum_pages = maximum\<rparr>,
            set_member index (\<lambda>m. m\<lparr>epoch := e, member_live := True\<rparr>) l)))))"

definition ledger_bind :: "bytes \<Rightarrow> (Ledger, LedgerError, Incarnation) sres" where
  "ledger_bind i = sbind (bind_with_maximum i) (\<lambda>b. sreturn (token b))"

definition quarantine :: "Incarnation \<Rightarrow> (Ledger, LedgerError, unit) sres" where
  "quarantine tok = atomically (\<lambda>l.
     rbind (member l tok) (\<lambda>_.
     Inr ((), set_member (inc_subject tok) (\<lambda>m. m\<lparr>quarantined := True\<rparr>) l)))"

section \<open>Holder transactions\<close>

primrec begin_totals ::
  "Ledger \<Rightarrow> Entitlement \<Rightarrow> nat list \<Rightarrow> u64 \<Rightarrow> u64 \<Rightarrow> (LedgerError, u64 \<times> u64) res" where
  "begin_totals l e [] held redeemed = Inr (held, redeemed)"
| "begin_totals l e (pos # rest) held redeemed =
     (if entitlement (the (policy_subject (policy l) pos)) = entitlement_identity e
      then
        rbind (ok_or Overflow (Option.bind (checked_add held (member_pages (members l ! pos)))
            (\<lambda>h. checked_add h (held_payload_pages (members l ! pos))))) (\<lambda>held'.
        rbind (ok_or Overflow (checked_add redeemed (member_guarantee_pages (members l ! pos))))
          (begin_totals l e rest held'))
      else begin_totals l e rest held redeemed)"

text \<open>What the transaction draws from the guarantee: the certified share, or the estimate.\<close>

definition draw_guarantee ::
  "Ledger \<Rightarrow> nat \<Rightarrow> Entitlement \<Rightarrow> u64 \<Rightarrow> u64 \<Rightarrow> Plan \<Rightarrow> (LedgerError, u64 \<times> Resources) res" where
  "draw_guarantee l index e redeemed pages plan =
     (let rest = saturating_sub (guarantee_pages e) redeemed
      in if plan_guaranteed plan = ZERO
         then let n = min pages rest
              in Inr (n, minimum (minimum (plan_resources plan)
                   (page_share (guarantee_total l ! index) n (guarantee_pages e)))
                   (guarantee_free l ! index))
         else if pages < plan_guarantee_pages plan \<or> rest < plan_guarantee_pages plan
         then Inl Guarantee
         else Inr (plan_guarantee_pages plan, plan_guaranteed plan))"

definition ledger_begin :: "Incarnation \<Rightarrow> u64 \<Rightarrow> Plan \<Rightarrow> (Ledger, LedgerError, unit) sres" where
  "ledger_begin tok pages plan = atomically (\<lambda>l.
     if pending l \<noteq> None then Inl Transaction
     else rbind (member l tok) (\<lambda>m.
       if quarantined m then Inl Cleanup
       else
         let index = ledger_entitlement l tok; e = the (policy_entitlement (policy l) index)
         in rbind (ok_or Overflow (Option.bind (checked_add (member_pages m) (held_payload_pages m))
                (\<lambda>held. checked_add held pages))) (\<lambda>requested.
            let entitlement_limit =
                  (if maximum_mode e = FIXED then maximum_pages e else pool_pages l)
            in rbind (begin_totals l e [0..<policy_subject_count (policy l)] pages 0) (\<lambda>(held, redeemed).
               if page_limit l tok < requested \<or> entitlement_limit < held then Inl Maximum
               else rbind (ok_or Overflow (checked_mul pages PAGE_BYTES)) (\<lambda>least.
                 if res_bytes (plan_resources plan) < least then Inl Placement
                 else if pages = 0 \<and> plan_resources plan \<noteq> ZERO then Inl Placement
                 else rbind (draw_guarantee l index e redeemed pages plan) (\<lambda>(n, g).
                   rbind (res_subtract (plan_resources plan) g) (\<lambda>el.
                   rbind (res_subtract (free l) el) (\<lambda>f.
                   rbind (res_subtract (guarantee_free l ! index) g) (\<lambda>gf.
                   rbind (res_add (guaranteed m) g) (\<lambda>_.
                   rbind (res_add (elastic m) el) (\<lambda>_.
                   Inr ((), l\<lparr>free := f, guarantee_free := (guarantee_free l)[index := gf],
                     pending := Some \<lparr>pending_member = tok, pending_pages = pages,
                       pending_guarantee_pages = n, pending_guaranteed = g, pending_elastic = el\<rparr>\<rparr>))))))))))))"

definition pending_of :: "Ledger \<Rightarrow> Incarnation \<Rightarrow> (LedgerError, Pending) res" where
  "pending_of l tok =
     (case pending l of
        None \<Rightarrow> Inl Transaction
      | Some q \<Rightarrow> if pending_member q = tok then Inr q else Inl Transaction)"

definition ledger_commit :: "Incarnation \<Rightarrow> (Ledger, LedgerError, unit) sres" where
  "ledger_commit tok = atomically (\<lambda>l.
     rbind (pending_of l tok) (\<lambda>q.
     rbind (member l tok) (\<lambda>old.
     if quarantined old then Inl Cleanup
     else rbind (res_add (guaranteed old) (pending_guaranteed q)) (\<lambda>g.
       rbind (res_add (elastic old) (pending_elastic q)) (\<lambda>el.
       rbind (ok_or Overflow (checked_add (member_pages old) (pending_pages q))) (\<lambda>pages.
       rbind (ok_or Overflow (checked_add (member_guarantee_pages old) (pending_guarantee_pages q)))
         (\<lambda>n.
       Inr ((), set_member (inc_subject tok)
         (\<lambda>m. m\<lparr>guaranteed := g, elastic := el, member_pages := pages, member_guarantee_pages := n\<rparr>)
         (l\<lparr>pending := None\<rparr>)))))))))"

definition div_ceil :: "u64 \<Rightarrow> u64 \<Rightarrow> u64" where
  "div_ceil a b = (if a mod b = 0 then a div b else a div b + 1)"

text \<open>What an abort keeps charged.\<close>

definition kept ::
  "Ledger \<Rightarrow> Incarnation \<Rightarrow> Pending \<Rightarrow> Member \<Rightarrow> Resources \<Rightarrow> bool
     \<Rightarrow> (LedgerError, Resources \<times> Resources) res" where
  "kept l tok q old retained cleanup_succeeded =
     (if cleanup_succeeded then
        rbind (if extents retained \<noteq> 0 then Inl Cleanup
               else rbind (ok_or Overflow (checked_mul (tables retained) PAGE_BYTES)) (\<lambda>table_bytes.
                 if res_bytes retained \<noteq> table_bytes \<or> tables retained < slots retained
                   \<or> tables retained < descriptors retained
                 then Inl Cleanup else Inr ())) (\<lambda>_.
        let table_bound = div_ceil (page_limit l tok) PAGES_PER_LEAF_TABLE
        in rbind (ok_or Overflow (Option.bind
               (checked_add (tables (guaranteed old)) (tables (elastic old)))
               (\<lambda>n. checked_add n (tables retained)))) (\<lambda>retained_tables.
           if table_bound < retained_tables then Inl Cleanup
           else rbind (map_err (\<lambda>_. Cleanup) (res_subtract (pending_elastic q) retained)) (\<lambda>_.
             Inr (ZERO, retained))))
      else Inr (pending_guaranteed q, pending_elastic q))"

definition ledger_abort ::
  "Incarnation \<Rightarrow> Resources \<Rightarrow> bool \<Rightarrow> (Ledger, LedgerError, unit) sres" where
  "ledger_abort tok retained cleanup_succeeded = atomically (\<lambda>l.
     rbind (pending_of l tok) (\<lambda>q.
     rbind (member l tok) (\<lambda>old.
     rbind (kept l tok q old retained cleanup_succeeded) (\<lambda>(kept_guarantee, kept_elastic).
     let index = ledger_entitlement l tok
     in rbind (res_subtract (pending_guaranteed q) kept_guarantee) (\<lambda>back.
        rbind (res_add (guarantee_free l ! index) back) (\<lambda>gf.
        rbind (res_subtract (pending_elastic q) kept_elastic) (\<lambda>refund.
        rbind (refund_common l refund) (\<lambda>(f, spent).
        rbind (res_add (guaranteed old) kept_guarantee) (\<lambda>g.
        rbind (res_add (elastic old) kept_elastic) (\<lambda>el.
        rbind (ok_or Overflow (checked_add (held_payload_pages old)
            (if cleanup_succeeded then 0 else pending_pages q))) (\<lambda>held.
        rbind (ok_or Overflow (checked_add (member_guarantee_pages old)
            (if cleanup_succeeded then 0 else pending_guarantee_pages q))) (\<lambda>n.
        Inr ((), set_member (inc_subject tok)
          (\<lambda>m. m\<lparr>guaranteed := g, elastic := el,
             quarantined := quarantined old \<or> \<not> cleanup_succeeded,
             held_payload_pages := held, member_guarantee_pages := n\<rparr>)
          (l\<lparr>guarantee_free := (guarantee_free l)[index := gf], free := f,
             operational_spent := spent, pending := None\<rparr>))))))))))))))"

definition retire :: "Incarnation \<Rightarrow> bool \<Rightarrow> (Ledger, LedgerError, unit) sres" where
  "retire tok revoked l =
     (case member l tok of
        Inl e \<Rightarrow> (Inl e, l)
      | Inr old \<Rightarrow>
          if (case pending l of None \<Rightarrow> False | Some q \<Rightarrow> pending_member q = tok)
          then (Inl Transaction, l)
          else if \<not> revoked
          then (Inl Cleanup, set_member (inc_subject tok) (\<lambda>m. m\<lparr>quarantined := True\<rparr>) l)
          else atomically (\<lambda>l.
            let index = ledger_entitlement l tok
            in rbind (res_add (guarantee_free l ! index) (guaranteed old)) (\<lambda>gf.
               rbind (res_subtract (guarantee_total l ! index) gf) (\<lambda>_.
               rbind (refund_common l (elastic old)) (\<lambda>(f, spent).
               Inr ((), set_member (inc_subject tok) (\<lambda>_. member_default\<lparr>epoch := epoch old\<rparr>)
                 (l\<lparr>guarantee_free := (guarantee_free l)[index := gf], free := f,
                    operational_spent := spent\<rparr>)))))) l)"

section \<open>Runs\<close>

text \<open>Any operation, with any arguments, whether it succeeds or fails.\<close>

inductive ledger_step :: "Ledger \<Rightarrow> Ledger \<Rightarrow> bool" where
  step_retain: "ledger_step l (snd (retain_unbegun tok r l))"
| step_reconcile: "ledger_step l (snd (reconcile_ownership root system l))"
| step_reconcile_system: "ledger_step l (snd (reconcile_system system l))"
| step_reserve_root: "ledger_step l (snd (reserve_root r l))"
| step_settle_root: "ledger_step l (snd (settle_root r l))"
| step_bind: "ledger_step l (snd (bind_with_maximum i l))"
| step_quarantine: "ledger_step l (snd (quarantine tok l))"
| step_begin: "ledger_step l (snd (ledger_begin tok n plan l))"
| step_commit: "ledger_step l (snd (ledger_commit tok l))"
| step_abort: "ledger_step l (snd (ledger_abort tok r ok l))"
| step_retire: "ledger_step l (snd (retire tok revoked l))"

inductive_cases ledger_stepE: "ledger_step l t"

lemma atomically_keeps:
  "R l l \<Longrightarrow> (\<And>x t. f l = Inr (x, t) \<Longrightarrow> R l t) \<Longrightarrow> R l (snd (atomically f l))"
  by (auto simp: atomically_def split: sum.split prod.split)

lemma set_member_fields [simp]:
  "policy (set_member i f l) = policy l" "free (set_member i f l) = free l"
  "root_owned (set_member i f l) = root_owned l" "system_owned (set_member i f l) = system_owned l"
  "operational_spent (set_member i f l) = operational_spent l"
  "root_pending (set_member i f l) = root_pending l" "pool_pages (set_member i f l) = pool_pages l"
  "guarantee_total (set_member i f l) = guarantee_total l"
  "guarantee_free (set_member i f l) = guarantee_free l" "pending (set_member i f l) = pending l"
  "length (members (set_member i f l)) = length (members l)"
  by (simp_all add: set_member_def)

lemma set_member_nth:
  "i < length (members l)
     \<Longrightarrow> members (set_member i f l) ! j = (if j = i then f (members l ! i) else members l ! j)"
  by (simp add: set_member_def)

section \<open>What members and the open transaction hold\<close>

text \<open>A quantity summed over a set of members, the open transaction included.\<close>

definition held :: "nat set \<Rightarrow> (Member \<Rightarrow> nat) \<Rightarrow> (Pending \<Rightarrow> nat) \<Rightarrow> Ledger \<Rightarrow> nat" where
  "held S f g l =
     (\<Sum>j\<in>S. f (members l ! j))
     + (case pending l of None \<Rightarrow> 0 | Some q \<Rightarrow> if inc_subject (pending_member q) \<in> S then g q else 0)"

lemma held_fields [simp]:
  "held S f g (l\<lparr>free := a\<rparr>) = held S f g l" "held S f g (l\<lparr>root_owned := a\<rparr>) = held S f g l"
  "held S f g (l\<lparr>system_owned := a\<rparr>) = held S f g l"
  "held S f g (l\<lparr>operational_spent := a\<rparr>) = held S f g l"
  "held S f g (l\<lparr>root_pending := b\<rparr>) = held S f g l"
  "held S f g (l\<lparr>guarantee_free := c\<rparr>) = held S f g l"
  by (simp_all add: held_def)

text \<open>The share of the open transaction that is charged to subject \<open>i\<close>.\<close>

definition pend :: "nat \<Rightarrow> (Pending \<Rightarrow> nat) \<Rightarrow> Ledger \<Rightarrow> nat" where
  "pend i g l =
     (case pending l of None \<Rightarrow> 0 | Some q \<Rightarrow> if inc_subject (pending_member q) = i then g q else 0)"

text \<open>Only subject \<open>i\<close> and its transaction change.\<close>

definition only_at :: "nat \<Rightarrow> Ledger \<Rightarrow> Ledger \<Rightarrow> bool" where
  "only_at i l t \<longleftrightarrow>
     i < length (members l) \<and> members t = (members l)[i := members t ! i]
     \<and> (\<forall>q. pending t \<noteq> pending l \<and> (pending l = Some q \<or> pending t = Some q)
          \<longrightarrow> inc_subject (pending_member q) = i)"

lemma held_at:
  assumes "only_at i l t" "finite S"
  shows "held S f g t + (if i \<in> S then f (members l ! i) + pend i g l else 0)
    = held S f g l + (if i \<in> S then f (members t ! i) + pend i g t else 0)"
proof -
  note at = assms(1) [unfolded only_at_def]
  have nth: "members t ! j = members l ! j" if "j \<noteq> i" for j
    using at that by (metis nth_list_update_neq)
  have other: "(\<Sum>j\<in>S - {i}. f (members t ! j)) = (\<Sum>j\<in>S - {i}. f (members l ! j))"
    by (rule sum.cong) (simp_all add: nth)
  have split: "(\<Sum>j\<in>S. f (members l ! j))
      = (\<Sum>j\<in>S - {i}. f (members l ! j)) + (if i \<in> S then f (members l ! i) else 0)" for l
    using sum.remove [OF assms(2), of i "\<lambda>j. f (members l ! j)"] by auto
  show ?thesis
    using at by (cases "pending t = pending l")
      (auto simp: held_def split [of l] split [of t] other pend_def split: option.splits)
qed

lemma held_ge:
  "finite S \<Longrightarrow> i \<in> S \<Longrightarrow> f (members l ! i) \<le> held S f g l"
  using member_le_sum [of i S "\<lambda>j. f (members l ! j)"] by (simp add: held_def trans_le_add1)

section \<open>The accounts\<close>

abbreviation elastic_held :: "axis \<Rightarrow> Ledger \<Rightarrow> nat" where
  "elastic_held k \<equiv> held {..<64} (\<lambda>m. amt k (elastic m)) (\<lambda>q. amt k (pending_elastic q))"

abbreviation guaranteed_of :: "axis \<Rightarrow> nat set \<Rightarrow> Ledger \<Rightarrow> nat" where
  "guaranteed_of k S \<equiv> held S (\<lambda>m. amt k (guaranteed m)) (\<lambda>q. amt k (pending_guaranteed q))"

definition cohort_of :: "Policy \<Rightarrow> nat \<Rightarrow> nat set" where
  "cohort_of p e = {j. j < policy_subject_count p \<and> entitlement_at p j = e}"

lemma finite_cohort_of [simp]: "finite (cohort_of p e)"
  by (simp add: cohort_of_def)

text \<open>The common pool: free, owned by root or system, kept back as unspent reserve, funding root,
  or charged to a holder.\<close>

definition common :: "axis \<Rightarrow> Ledger \<Rightarrow> nat" where
  "common k l =
     amt k (free l) + amt k (root_owned l) + amt k (system_owned l)
     + (amt k (reserve (policy l)) - amt k (operational_spent l))
     + (case root_pending l of None \<Rightarrow> 0 | Some r \<Rightarrow> amt k r) + elastic_held k l"

text \<open>A guarantee: still free, or drawn by a member of its cohort.\<close>

definition protected :: "axis \<Rightarrow> nat \<Rightarrow> Ledger \<Rightarrow> nat" where
  "protected k e l = amt k (guarantee_free l ! e) + guaranteed_of k (cohort_of (policy l) e) l"

definition accounts :: "Ledger \<Rightarrow> bool" where
  "accounts l \<longleftrightarrow>
     policy_wf (policy l) \<and> length (members l) = 64 \<and> length (guarantee_free l) = 32
     \<and> (\<forall>k. amt k (operational_spent l) \<le> amt k (reserve (policy l)))
     \<and> (\<forall>k. common k l < 2 ^ 64)
     \<and> (\<forall>k e. e < policy_entitlement_count (policy l)
          \<longrightarrow> protected k e l = amt k (guarantee_total l ! e))"

text \<open>Only subjects of the policy are live, the dead hold nothing, and an open transaction belongs
  to a live incarnation.\<close>

definition roster :: "Ledger \<Rightarrow> bool" where
  "roster l \<longleftrightarrow>
     (\<forall>j. j < 64 \<longrightarrow> member_live (members l ! j) \<longrightarrow> j < policy_subject_count (policy l))
     \<and> (\<forall>j. j < 64 \<longrightarrow> \<not> member_live (members l ! j)
          \<longrightarrow> members l ! j = member_default\<lparr>epoch := epoch (members l ! j)\<rparr>)
     \<and> (\<forall>q. pending l = Some q \<longrightarrow> (\<exists>m. member l (pending_member q) = Inr m))"

definition fixed_part :: "Ledger \<Rightarrow> Policy \<times> u64 \<times> Resources list" where
  "fixed_part l = (policy l, pool_pages l, guarantee_total l)"

definition balanced :: "Ledger \<Rightarrow> Ledger \<Rightarrow> bool" where
  "balanced l t \<longleftrightarrow> (accounts l \<and> roster l \<longrightarrow>
     accounts t \<and> roster t \<and> fixed_part t = fixed_part l \<and> (\<forall>k. common k t = common k l))"

lemma balanced_refl [simp]: "balanced l l"
  by (simp add: balanced_def)

lemma balancedI:
  assumes "accounts l \<Longrightarrow> roster l \<Longrightarrow>
      fixed_part t = fixed_part l \<and> length (members t) = length (members l)
      \<and> length (guarantee_free t) = length (guarantee_free l) \<and> roster t
      \<and> (\<forall>k. amt k (operational_spent t) \<le> amt k (reserve (policy l)))
      \<and> (\<forall>k. common k t = common k l)
      \<and> (\<forall>k e. e < policy_entitlement_count (policy l) \<longrightarrow> protected k e t = protected k e l)"
  shows "balanced l t"
  using assms unfolding balanced_def accounts_def by (auto simp: fixed_part_def)

lemma accountsD:
  assumes "accounts l"
  shows "policy_wf (policy l)" "length (members l) = 64" "length (guarantee_free l) = 32"
    "amt k (operational_spent l) \<le> amt k (reserve (policy l))" "common k l < 2 ^ 64"
    "e < policy_entitlement_count (policy l) \<Longrightarrow> protected k e l = amt k (guarantee_total l ! e)"
  using assms by (simp_all add: accounts_def)

lemma member_Inr_iff [result_simps]:
  "member l tok = Inr m \<longleftrightarrow>
     inc_subject tok < length (members l) \<and> m = members l ! inc_subject tok
     \<and> member_live m \<and> epoch m = inc_epoch tok"
  by (auto simp: member_def)

lemma pending_of_Inr_iff [result_simps]:
  "pending_of l tok = Inr q \<longleftrightarrow> pending l = Some q \<and> pending_member q = tok"
  by (auto simp: pending_of_def split: option.split)

lemma refund_common_Inr:
  assumes "refund_common l r = Inr (f, spent)"
  shows "amt k f = amt k (free l) + (amt k r - amt k (operational_spent l))"
    "amt k spent = amt k (operational_spent l) - amt k r"
proof -
  obtain rest where "\<forall>k. amt k r = min (amt k r) (amt k (operational_spent l)) + amt k rest"
      "\<forall>k. amt k f = amt k (free l) + amt k rest"
      "\<forall>k. amt k (operational_spent l) = min (amt k r) (amt k (operational_spent l)) + amt k spent"
    using assms by (auto simp: refund_common_def Let_def result_simps)
  from this [THEN spec [of _ k]]
  show "amt k f = amt k (free l) + (amt k r - amt k (operational_spent l))"
    "amt k spent = amt k (operational_spent l) - amt k r"
    by (simp_all add: min_def split: if_splits)
qed

lemma refund_common_ok:
  assumes "\<And>k. amt k (free l) + amt k r < 2 ^ 64"
  shows "\<exists>f spent. refund_common l r = Inr (f, spent)"
proof -
  let ?repaid = "minimum r (operational_spent l)"
  obtain rest where rest: "res_subtract r ?repaid = Inr rest"
    using res_subtract_ok [of ?repaid r] by auto
  then have "amt k rest \<le> amt k r" for k
    using res_subtract_iff [of r ?repaid rest] by (metis le_add2)
  then have "amt k (free l) + amt k rest < 2 ^ 64" for k
    using assms [of k] by (meson add_left_mono le_less_trans)
  then obtain f where "res_add (free l) rest = Inr f" using res_add_ok by blast
  moreover obtain s where "res_subtract (operational_spent l) ?repaid = Inr s"
    using res_subtract_ok [of ?repaid "operational_spent l"] by auto
  ultimately show ?thesis using rest by (simp add: refund_common_def Let_def)
qed

lemma member_index:
  assumes "accounts l" "roster l" "member l tok = Inr m"
  shows "inc_subject tok < 64" "inc_subject tok < policy_subject_count (policy l)"
    "members l ! inc_subject tok = m"
    "ledger_entitlement l tok = entitlement_at (policy l) (inc_subject tok)"
    "ledger_entitlement l tok < policy_entitlement_count (policy l)" "ledger_entitlement l tok < 32"
    "inc_subject tok \<in> cohort_of (policy l) e \<longleftrightarrow> e = ledger_entitlement l tok"
proof -
  note m = assms(3) [unfolded member_Inr_iff]
  show i: "inc_subject tok < 64" using m accountsD(2) [OF assms(1)] by simp
  then show j: "inc_subject tok < policy_subject_count (policy l)"
    using assms(2) m by (auto simp: roster_def)
  show "members l ! inc_subject tok = m" using m by simp
  show e: "ledger_entitlement l tok = entitlement_at (policy l) (inc_subject tok)"
    by (simp add: ledger_entitlement_def entitlement_at_def)
  show "ledger_entitlement l tok < policy_entitlement_count (policy l)"
    using entitlement_at_total(2) [OF accountsD(1) [OF assms(1)] j] by (simp add: e)
  then show "ledger_entitlement l tok < 32"
    using policy_wf_shape(1) [OF accountsD(1) [OF assms(1)]] by simp
  show "inc_subject tok \<in> cohort_of (policy l) e \<longleftrightarrow> e = ledger_entitlement l tok"
    using j by (auto simp: cohort_of_def e)
qed

section \<open>Every operation balances\<close>

text \<open>The part of the common pool that no holder is charged for.\<close>

definition unheld :: "axis \<Rightarrow> Ledger \<Rightarrow> nat" where
  "unheld k l =
     amt k (free l) + amt k (root_owned l) + amt k (system_owned l)
     + (amt k (reserve (policy l)) - amt k (operational_spent l))
     + (case root_pending l of None \<Rightarrow> 0 | Some r \<Rightarrow> amt k r)"

abbreviation elastic_at :: "axis \<Rightarrow> nat \<Rightarrow> Ledger \<Rightarrow> nat" where
  "elastic_at k i l \<equiv> amt k (elastic (members l ! i)) + pend i (\<lambda>q. amt k (pending_elastic q)) l"

abbreviation guaranteed_at :: "axis \<Rightarrow> nat \<Rightarrow> Ledger \<Rightarrow> nat" where
  "guaranteed_at k i l \<equiv>
     amt k (guaranteed (members l ! i)) + pend i (\<lambda>q. amt k (pending_guaranteed q)) l"

text \<open>An operation on one subject balances when its own accounts do.\<close>

definition settles :: "nat \<Rightarrow> nat \<Rightarrow> Ledger \<Rightarrow> Ledger \<Rightarrow> bool" where
  "settles i e l t \<longleftrightarrow>
     only_at i l t \<and> fixed_part t = fixed_part l
     \<and> (\<exists>g. guarantee_free t = (guarantee_free l)[e := g])
     \<and> (\<forall>k. amt k (operational_spent t) \<le> amt k (reserve (policy l)))
     \<and> (\<forall>k. unheld k t + elastic_at k i t = unheld k l + elastic_at k i l)
     \<and> (\<forall>k. amt k (guarantee_free t ! e) + guaranteed_at k i t
          = amt k (guarantee_free l ! e) + guaranteed_at k i l)"

lemma common_eq: "common k l = unheld k l + elastic_held k l"
  by (simp add: common_def unheld_def)

lemma settles_balances:
  assumes "settles i e l t" "i < 64" "\<And>e'. i \<in> cohort_of (policy l) e' \<longleftrightarrow> e' = e"
  shows "common k t = common k l" "protected k e' t = protected k e' l"
proof -
  note s = assms(1) [unfolded settles_def]
  have at: "only_at i l t" and p: "policy t = policy l" using s by (auto simp: fixed_part_def)
  have "unheld k t + elastic_at k i t = unheld k l + elastic_at k i l" using s by blast
  moreover have "elastic_held k t + elastic_at k i l = elastic_held k l + elastic_at k i t"
    using held_at [OF at, of "{..<64}" "\<lambda>m. amt k (elastic m)" "\<lambda>q. amt k (pending_elastic q)"]
      assms(2) by simp
  ultimately show "common k t = common k l" unfolding common_eq by linarith
  have "guaranteed_of k (cohort_of (policy l) e') t + (if e' = e then guaranteed_at k i l else 0)
      = guaranteed_of k (cohort_of (policy l) e') l + (if e' = e then guaranteed_at k i t else 0)"
    using held_at [OF at finite_cohort_of [of "policy l" e'], of "\<lambda>m. amt k (guaranteed m)"
        "\<lambda>q. amt k (pending_guaranteed q)"] by (simp only: assms(3))
  moreover have "amt k (guarantee_free t ! e) + guaranteed_at k i t
      = amt k (guarantee_free l ! e) + guaranteed_at k i l" using s by blast
  moreover have "e' \<noteq> e \<Longrightarrow> guarantee_free t ! e' = guarantee_free l ! e'" using s by auto
  ultimately show "protected k e' t = protected k e' l"
    unfolding protected_def p by (cases "e' = e") simp_all
qed

lemma settles_balanced:
  assumes "accounts l" "roster l" "i < policy_subject_count (policy l)"
    and "settles i (entitlement_at (policy l) i) l t" "roster t"
  shows "balanced l t"
proof (rule balancedI)
  note s = assms(4) [unfolded settles_def]
  have i: "i < 64" "\<And>e'. i \<in> cohort_of (policy l) e' \<longleftrightarrow> e' = entitlement_at (policy l) i"
    using assms(3) policy_wf_shape(2) [OF accountsD(1) [OF assms(1)]] by (auto simp: cohort_of_def)
  have "length (members t) = length (members l)"
    using s unfolding only_at_def by (metis length_list_update)
  moreover have "length (guarantee_free t) = length (guarantee_free l)"
    using s by auto
  ultimately show "fixed_part t = fixed_part l \<and> length (members t) = length (members l)
      \<and> length (guarantee_free t) = length (guarantee_free l) \<and> roster t
      \<and> (\<forall>k. amt k (operational_spent t) \<le> amt k (reserve (policy l)))
      \<and> (\<forall>k. common k t = common k l)
      \<and> (\<forall>k e. e < policy_entitlement_count (policy l) \<longrightarrow> protected k e t = protected k e l)"
    using s assms(5) settles_balances [OF assms(4) i] by blast
qed

lemma roster_at:
  assumes "roster l" "length (members l) = 64" "only_at i l t" "policy t = policy l"
    and "i < policy_subject_count (policy l)"
    and "\<not> member_live (members t ! i)
      \<Longrightarrow> members t ! i = member_default\<lparr>epoch := epoch (members t ! i)\<rparr>"
    and "\<And>q. pending t = Some q \<Longrightarrow> inc_subject (pending_member q) = i
      \<Longrightarrow> \<exists>m. member t (pending_member q) = Inr m"
  shows "roster t"
proof -
  note at = assms(3) [unfolded only_at_def]
  have nth: "members t ! j = members l ! j" if "j \<noteq> i" for j
    using at that by (metis nth_list_update_neq)
  have len: "length (members t) = length (members l)" using at by (metis length_list_update)
  have "\<exists>m. member t (pending_member q) = Inr m" if "pending t = Some q" for q
  proof (cases "inc_subject (pending_member q) = i")
    case False
    then have "pending l = Some q" using at that by metis
    then show ?thesis using assms(1) False by (auto simp: roster_def member_Inr_iff nth len)
  qed (use assms(7) that in blast)
  moreover have "j < 64 \<Longrightarrow> member_live (members t ! j) \<Longrightarrow> j < policy_subject_count (policy t)"
      "j < 64 \<Longrightarrow> \<not> member_live (members t ! j)
        \<Longrightarrow> members t ! j = member_default\<lparr>epoch := epoch (members t ! j)\<rparr>" for j
    using assms(1,5,6) by (cases "j = i"; auto simp: roster_def nth assms(4))+
  ultimately show ?thesis by (simp add: roster_def)
qed

text \<open>What an operation on one subject does, as one relation: the accounts settle, and the pages
  charged to the subject do not grow.\<close>

abbreviation pages_of :: "Member \<Rightarrow> nat" where
  "pages_of m \<equiv> unat (member_pages m) + unat (held_payload_pages m)"

definition lighter :: "nat \<Rightarrow> Ledger \<Rightarrow> Ledger \<Rightarrow> bool" where
  "lighter i l t \<longleftrightarrow>
     only_at i l t \<and> fixed_part t = fixed_part l
     \<and> pages_of (members t ! i) + pend i (\<lambda>q. unat (pending_pages q)) t
         \<le> pages_of (members l ! i) + pend i (\<lambda>q. unat (pending_pages q)) l
     \<and> unat (member_guarantee_pages (members t ! i)) + pend i (\<lambda>q. unat (pending_guarantee_pages q)) t
         \<le> unat (member_guarantee_pages (members l ! i))
            + pend i (\<lambda>q. unat (pending_guarantee_pages q)) l"

definition moves :: "nat \<Rightarrow> Ledger \<Rightarrow> Ledger \<Rightarrow> bool" where
  "moves i l t \<longleftrightarrow>
     i < policy_subject_count (policy l) \<and> settles i (entitlement_at (policy l) i) l t \<and> roster t"

text \<open>The shape all holder operations share: the member named by a valid token is replaced, the
  open transaction is kept, opened or closed by the same token, and one guarantee is touched.\<close>

definition acts_on :: "Incarnation \<Rightarrow> Member \<Rightarrow> Member \<Rightarrow> Ledger \<Rightarrow> Ledger \<Rightarrow> bool" where
  "acts_on tok m m' l t \<longleftrightarrow>
     member l tok = Inr m \<and> members t = (members l)[inc_subject tok := m'] \<and> epoch m' = epoch m
     \<and> fixed_part t = fixed_part l
     \<and> (pending t = pending l
        \<or> (pending l = None \<or> pending_member (the (pending l)) = tok)
           \<and> (pending t = None \<or> pending_member (the (pending t)) = tok))
     \<and> (member_live m' \<or> m' = member_default\<lparr>epoch := epoch m\<rparr> \<and> pend (inc_subject tok) (\<lambda>_. 1) t = 0)"

lemma acts_on_at:
  assumes "accounts l" "roster l" "acts_on tok m m' l t"
  shows "only_at (inc_subject tok) l t" "members t ! inc_subject tok = m'" "roster t"
    "members l ! inc_subject tok = m"
proof -
  note a = assms(3) [unfolded acts_on_def]
  have m: "member l tok = Inr m" using a by blast
  note i = member_index [OF assms(1,2) m] and len = accountsD(2) [OF assms(1)]
  show nth: "members t ! inc_subject tok = m'" using a i(1) len by simp
  show "members l ! inc_subject tok = m" by (rule i(3))
  show at: "only_at (inc_subject tok) l t"
    using a i(1) len unfolding only_at_def nth by auto
  have "\<exists>m. member t (pending_member q) = Inr m"
    if q: "pending t = Some q" "inc_subject (pending_member q) = inc_subject tok" for q
  proof -
    have "member_live m'" using a q by (auto simp: pend_def)
    moreover have "inc_epoch (pending_member q) = epoch m"
    proof (cases "pending t = pending l")
      case True
      then obtain n where "member l (pending_member q) = Inr n"
        using assms(2) q unfolding roster_def by metis
      then show ?thesis using q i(3) by (auto simp: member_Inr_iff)
    qed (use a q m in \<open>auto simp: member_Inr_iff\<close>)
    ultimately show ?thesis
      using q nth a i(1) len by (auto simp: member_Inr_iff)
  qed
  moreover have "policy t = policy l" using a by (simp add: fixed_part_def)
  moreover have "\<not> member_live m' \<Longrightarrow> m' = member_default\<lparr>epoch := epoch m'\<rparr>" using a by auto
  ultimately show "roster t" using roster_at [OF assms(2) len at _ i(2), unfolded nth] by blast
qed

lemma acts_on_moves:
  assumes "accounts l" "roster l" "acts_on tok m m' l t"
    and "guarantee_free t = (guarantee_free l)[ledger_entitlement l tok := gf]"
    and "\<forall>k. amt k (operational_spent t) \<le> amt k (reserve (policy l))"
    and "\<forall>k. unheld k t + (amt k (elastic m') + pend (inc_subject tok) (\<lambda>q. amt k (pending_elastic q)) t)
      = unheld k l + (amt k (elastic m) + pend (inc_subject tok) (\<lambda>q. amt k (pending_elastic q)) l)"
    and "\<forall>k. amt k gf + (amt k (guaranteed m') + pend (inc_subject tok) (\<lambda>q. amt k (pending_guaranteed q)) t)
      = amt k (guarantee_free l ! ledger_entitlement l tok)
        + (amt k (guaranteed m) + pend (inc_subject tok) (\<lambda>q. amt k (pending_guaranteed q)) l)"
  shows "moves (inc_subject tok) l t"
proof -
  note at = acts_on_at [OF assms(1-3)] and a = assms(3) [unfolded acts_on_def]
  have m: "member l tok = Inr m" using a by blast
  note i = member_index [OF assms(1,2) m]
  have "guarantee_free t ! ledger_entitlement l tok = gf"
    using i(6) accountsD(3) [OF assms(1)] by (simp add: assms(4))
  then show ?thesis
    unfolding moves_def settles_def at(2,4) i(4) [symmetric]
    using at(1,3) a assms(4-7) i(2) by auto
qed

lemma acts_on_lighter:
  assumes "accounts l" "roster l" "acts_on tok m m' l t"
    and "pages_of m' + pend (inc_subject tok) (\<lambda>q. unat (pending_pages q)) t
         \<le> pages_of m + pend (inc_subject tok) (\<lambda>q. unat (pending_pages q)) l"
    and "unat (member_guarantee_pages m') + pend (inc_subject tok) (\<lambda>q. unat (pending_guarantee_pages q)) t
         \<le> unat (member_guarantee_pages m) + pend (inc_subject tok) (\<lambda>q. unat (pending_guarantee_pages q)) l"
  shows "lighter (inc_subject tok) l t"
  using acts_on_at [OF assms(1-3)] assms(3-5) by (simp add: lighter_def acts_on_def)

lemma atomically_Inr_iff [result_simps]: "atomically f s = (Inr x, t) \<longleftrightarrow> f s = Inr (x, t)"
  by (auto simp: atomically_def split: sum.split prod.split)

lemma atomically_Inl_iff: "atomically f s = (Inl e, t) \<longleftrightarrow> f s = Inl e \<and> t = s"
  by (auto simp: atomically_def split: sum.split prod.split)

lemmas ledger_results =
  atomically_Inr_iff rbind_Inr_iff ok_or_Inr_iff res_add_iff res_subtract_iff checked_add_iff
  pending_of_Inr_iff

lemma quarantine_acts:
  assumes ok: "accounts l" "roster l" and m: "member l tok = Inr m"
    and t: "t = set_member (inc_subject tok) (\<lambda>m. m\<lparr>quarantined := True\<rparr>) l"
  shows "moves (inc_subject tok) l t" "lighter (inc_subject tok) l t"
proof -
  note i = member_index [OF ok m]
  have a: "acts_on tok m (m\<lparr>quarantined := True\<rparr>) l t"
    using m i(3) by (simp add: acts_on_def t set_member_def fixed_part_def member_Inr_iff)
  have sp: "\<forall>k. amt k (operational_spent t) \<le> amt k (reserve (policy l))"
    by (simp add: t accountsD(4) [OF ok(1)])
  show "moves (inc_subject tok) l t"
    by (rule acts_on_moves [OF ok a _ sp, where gf = "guarantee_free l ! ledger_entitlement l tok"])
      (simp_all add: t unheld_def pend_def)
  show "lighter (inc_subject tok) l t"
    by (rule acts_on_lighter [OF ok a]) (simp_all add: t pend_def)
qed

lemma retain_acts:
  assumes ok: "accounts l" "roster l" and "retain_unbegun tok r l = (Inr x, t)"
  shows "moves (inc_subject tok) l t" "lighter (inc_subject tok) l t"
proof -
  from assms(3) obtain m f e where m: "member l tok = Inr m"
      and f: "\<forall>k. amt k (free l) = amt k r + amt k f"
      and e: "\<forall>k. amt k e = amt k (elastic m) + amt k r"
      and t: "t = set_member (inc_subject tok) (\<lambda>m. m\<lparr>elastic := e, quarantined := True\<rparr>)
        (l\<lparr>free := f\<rparr>)"
    by (auto simp: retain_unbegun_def ledger_results split: if_splits)
  note i = member_index [OF ok m]
  have a: "acts_on tok m (m\<lparr>elastic := e, quarantined := True\<rparr>) l t"
    using m i(3) by (simp add: acts_on_def t set_member_def fixed_part_def member_Inr_iff)
  have sp: "\<forall>k. amt k (operational_spent t) \<le> amt k (reserve (policy l))"
    by (simp add: t accountsD(4) [OF ok(1)])
  show "moves (inc_subject tok) l t"
    by (rule acts_on_moves [OF ok a _ sp, where gf = "guarantee_free l ! ledger_entitlement l tok"])
      (simp_all add: t unheld_def pend_def f e)
  show "lighter (inc_subject tok) l t"
    by (rule acts_on_lighter [OF ok a]) (simp_all add: t pend_def)
qed

lemma commit_acts:
  assumes ok: "accounts l" "roster l" and "ledger_commit tok l = (Inr x, t)"
  shows "moves (inc_subject tok) l t" "lighter (inc_subject tok) l t"
proof -
  from assms(3) obtain q m g el n n' where q: "pending l = Some q" "pending_member q = tok"
      and m: "member l tok = Inr m"
      and g: "\<forall>k. amt k g = amt k (guaranteed m) + amt k (pending_guaranteed q)"
      and el: "\<forall>k. amt k el = amt k (elastic m) + amt k (pending_elastic q)"
      and n: "unat n = unat (member_pages m) + unat (pending_pages q)"
      and n': "unat n' = unat (member_guarantee_pages m) + unat (pending_guarantee_pages q)"
      and t: "t = set_member (inc_subject tok)
         (\<lambda>m. m\<lparr>guaranteed := g, elastic := el, member_pages := n, member_guarantee_pages := n'\<rparr>)
         (l\<lparr>pending := None\<rparr>)"
    by (auto simp: ledger_commit_def ledger_results split: if_splits)
  note i = member_index [OF ok m]
  have a: "acts_on tok m
      (m\<lparr>guaranteed := g, elastic := el, member_pages := n, member_guarantee_pages := n'\<rparr>) l t"
    using m i(3) q by (simp add: acts_on_def t set_member_def fixed_part_def member_Inr_iff)
  have sp: "\<forall>k. amt k (operational_spent t) \<le> amt k (reserve (policy l))"
    by (simp add: t accountsD(4) [OF ok(1)])
  show "moves (inc_subject tok) l t"
    by (rule acts_on_moves [OF ok a _ sp, where gf = "guarantee_free l ! ledger_entitlement l tok"])
      (simp_all add: t unheld_def pend_def g el q)
  show "lighter (inc_subject tok) l t"
    by (rule acts_on_lighter [OF ok a]) (simp_all add: t pend_def q n n')
qed

lemma retire_acts:
  assumes ok: "accounts l" "roster l" and "retire tok revoked l = (Inr x, t)"
  shows "moves (inc_subject tok) l t" "lighter (inc_subject tok) l t"
proof -
  from assms(3) obtain m gf f spent where m: "member l tok = Inr m"
      and q: "\<forall>q. pending l = Some q \<longrightarrow> pending_member q \<noteq> tok"
      and g: "\<forall>k. amt k gf = amt k (guarantee_free l ! ledger_entitlement l tok) + amt k (guaranteed m)"
      and r: "refund_common l (elastic m) = Inr (f, spent)"
      and t: "t = set_member (inc_subject tok) (\<lambda>_. member_default\<lparr>epoch := epoch m\<rparr>)
        (l\<lparr>guarantee_free := (guarantee_free l)[ledger_entitlement l tok := gf], free := f,
           operational_spent := spent\<rparr>)"
    by (auto simp: retire_def ledger_results Let_def split: if_splits sum.splits option.splits)
  note i = member_index [OF ok m] and sp = accountsD(4) [OF ok(1)] and rf = refund_common_Inr [OF r]
  have p: "pend (inc_subject tok) h l = 0" for h
  proof -
    have "\<exists>n. member l (pending_member q) = Inr n" if "pending l = Some q" for q
      using ok(2) that unfolding roster_def by metis
    then have "inc_subject (pending_member q) \<noteq> inc_subject tok" if "pending l = Some q" for q
      using q that m by (metis Incarnation.equality member_Inr_iff old.unit.exhaust)
    then show ?thesis by (auto simp: pend_def split: option.split)
  qed
  then have a: "acts_on tok m (member_default\<lparr>epoch := epoch m\<rparr>) l t"
    using m i(3) by (simp add: acts_on_def t set_member_def fixed_part_def pend_def)
  have pt: "pend j h t = pend j h l" for j h by (simp add: t pend_def)
  have z: "elastic (member_default\<lparr>epoch := epoch m\<rparr>) = ZERO"
    "guaranteed (member_default\<lparr>epoch := epoch m\<rparr>) = ZERO" by (simp_all add: member_default_def)
  have u: "unheld k t = unheld k l + amt k (elastic m)" for k
    using sp [of k] by (simp add: unheld_def t rf)
  have st: "\<forall>k. amt k (operational_spent t) \<le> amt k (reserve (policy l))"
    using sp by (simp add: t rf le_diff_conv trans_le_add1)
  have gt: "guarantee_free t = (guarantee_free l)[ledger_entitlement l tok := gf]"
    by (simp add: t)
  show "moves (inc_subject tok) l t"
    by (rule acts_on_moves [OF ok a gt st]) (simp_all add: pt p u z g)
  show "lighter (inc_subject tok) l t"
    by (rule acts_on_lighter [OF ok a]) (simp_all add: pt p member_default_def)
qed

lemma abort_acts:
  assumes ok: "accounts l" "roster l" and "ledger_abort tok retained cleaned l = (Inr x, t)"
  shows "moves (inc_subject tok) l t" "lighter (inc_subject tok) l t"
proof -
  define n where "n = (\<lambda>q :: Pending. if cleaned then 0 else pending_pages q)"
  define n' where "n' = (\<lambda>q :: Pending. if cleaned then 0 else pending_guarantee_pages q)"
  from assms(3) obtain q m kg ke ret gf refund f spent g el held v
    where q: "pending l = Some q" "pending_member q = tok" and m: "member l tok = Inr m"
      and ret: "\<forall>k. amt k (pending_guaranteed q) = amt k kg + amt k ret"
      and gf: "\<forall>k. amt k gf = amt k (guarantee_free l ! ledger_entitlement l tok) + amt k ret"
      and refund: "\<forall>k. amt k (pending_elastic q) = amt k ke + amt k refund"
      and r: "refund_common l refund = Inr (f, spent)"
      and g: "\<forall>k. amt k g = amt k (guaranteed m) + amt k kg"
      and el: "\<forall>k. amt k el = amt k (elastic m) + amt k ke"
      and h: "unat held = unat (held_payload_pages m) + unat (n q)"
      and v: "unat v = unat (member_guarantee_pages m) + unat (n' q)"
      and t: "t = set_member (inc_subject tok)
        (\<lambda>m'. m'\<lparr>guaranteed := g, elastic := el, quarantined := quarantined m \<or> \<not> cleaned,
          held_payload_pages := held, member_guarantee_pages := v\<rparr>)
        (l\<lparr>guarantee_free := (guarantee_free l)[ledger_entitlement l tok := gf], free := f,
           operational_spent := spent, pending := None\<rparr>)"
    unfolding ledger_abort_def Let_def n_def n'_def by (clarsimp simp: ledger_results) blast
  note i = member_index [OF ok m] and rf = refund_common_Inr [OF r] and sp = accountsD(4) [OF ok(1)]
  have le: "unat (n q) \<le> unat (pending_pages q)" "unat (n' q) \<le> unat (pending_guarantee_pages q)"
    by (simp_all add: n_def n'_def)
  let ?m = "m\<lparr>guaranteed := g, elastic := el, quarantined := quarantined m \<or> \<not> cleaned,
    held_payload_pages := held, member_guarantee_pages := v\<rparr>"
  have a: "acts_on tok m ?m l t"
    using m i(3) q by (simp add: acts_on_def t set_member_def fixed_part_def member_Inr_iff)
  have u: "unheld k t = unheld k l + amt k refund" for k
    using sp [of k] by (simp add: unheld_def t rf)
  have st: "\<forall>k. amt k (operational_spent t) \<le> amt k (reserve (policy l))"
    using sp by (simp add: t rf le_diff_conv trans_le_add1)
  have gt: "guarantee_free t = (guarantee_free l)[ledger_entitlement l tok := gf]"
    by (simp add: t)
  have p: "pend j w t = 0" "pend (inc_subject tok) w l = w q" for j w
    by (simp_all add: t pend_def q)
  show "moves (inc_subject tok) l t"
    by (rule acts_on_moves [OF ok a gt st]) (simp_all add: p u ret gf refund g el)
  show "lighter (inc_subject tok) l t"
    by (rule acts_on_lighter [OF ok a]) (simp_all add: p h v le)
qed

lemma bind_acts:
  assumes ok: "accounts l" "roster l" and "bind_with_maximum s l = (Inr x, t)"
  shows "\<exists>i. moves i l t \<and> lighter i l t"
proof -
  from assms(3) obtain i e where i: "subject_index (policy l) s = Some i"
      and dead: "\<not> member_live (members l ! i)"
      and t: "t = set_member i (\<lambda>m. m\<lparr>epoch := e, member_live := True\<rparr>) l"
    by (auto simp: bind_with_maximum_def ledger_results Let_def split: if_splits)
  note sp = accountsD(4) [OF ok(1)] and len = accountsD(2) [OF ok(1)]
  have c: "i < policy_subject_count (policy l)" using subject_index_Some [OF i] by simp
  then have "i < 64" using policy_wf_shape(2) [OF accountsD(1) [OF ok(1)]] by simp
  then have at: "only_at i l t" and nth: "members t ! i = (members l ! i)\<lparr>epoch := e, member_live := True\<rparr>"
    by (simp_all add: only_at_def t set_member_def len)
  have none: "inc_subject (pending_member q) \<noteq> i" if "pending l = Some q" for q
    using ok(2) that dead unfolding roster_def by (metis member_Inr_iff)
  have pt: "pend j w t = pend j w l" for j w by (simp add: t pend_def)
  have "roster t"
    by (rule roster_at [OF ok(2) len at]) (use none c in \<open>simp_all add: t nth set_member_nth len \<open>i < 64\<close>\<close>)
  moreover have "settles i (entitlement_at (policy l) i) l t"
    using at sp unfolding settles_def
    by (simp add: nth pt unheld_def) (simp add: t fixed_part_def, metis list_update_id)
  ultimately have "moves i l t" using c by (simp add: moves_def)
  moreover have "lighter i l t"
    using at unfolding lighter_def by (simp add: nth pt) (simp add: t fixed_part_def)
  ultimately show ?thesis by blast
qed

section \<open>Maxima\<close>

definition subject_limit :: "Ledger \<Rightarrow> nat \<Rightarrow> nat" where
  "subject_limit l j = unat (page_limit l \<lparr>inc_subject = j, inc_epoch = 0\<rparr>)"

definition entitlement_limit :: "Ledger \<Rightarrow> nat \<Rightarrow> nat" where
  "entitlement_limit l e =
     (let en = the (policy_entitlement (policy l) e)
      in if maximum_mode en = FIXED then unat (maximum_pages en) else unat (pool_pages l))"

abbreviation pages_held :: "nat set \<Rightarrow> Ledger \<Rightarrow> nat" where
  "pages_held S \<equiv> held S pages_of (\<lambda>q. unat (pending_pages q))"

abbreviation redeemed_held :: "nat set \<Rightarrow> Ledger \<Rightarrow> nat" where
  "redeemed_held S \<equiv>
     held S (\<lambda>m. unat (member_guarantee_pages m)) (\<lambda>q. unat (pending_guarantee_pages q))"

definition limits :: "Ledger \<Rightarrow> bool" where
  "limits l \<longleftrightarrow>
     (\<forall>j < policy_subject_count (policy l). pages_held {j} l \<le> subject_limit l j)
     \<and> (\<forall>e < policy_entitlement_count (policy l).
          pages_held (cohort_of (policy l) e) l \<le> entitlement_limit l e
          \<and> redeemed_held (cohort_of (policy l) e) l
              \<le> unat (guarantee_pages (the (policy_entitlement (policy l) e))))"

lemma fixed_limits:
  assumes "fixed_part t = fixed_part l"
  shows "policy t = policy l" "subject_limit t j = subject_limit l j"
    "entitlement_limit t e = entitlement_limit l e"
  using assms by (simp_all add: fixed_part_def subject_limit_def entitlement_limit_def page_limit_def
      Let_def)

lemma lighter_held:
  assumes "lighter i l t" "finite S"
  shows "pages_held S t \<le> pages_held S l" "redeemed_held S t \<le> redeemed_held S l"
proof -
  have at: "only_at i l t" using assms(1) by (simp add: lighter_def)
  show "pages_held S t \<le> pages_held S l"
    using held_at [OF at assms(2), of pages_of "\<lambda>q. unat (pending_pages q)"] assms(1)
    unfolding lighter_def by (auto split: if_splits)
  show "redeemed_held S t \<le> redeemed_held S l"
    using held_at [OF at assms(2), of "\<lambda>m. unat (member_guarantee_pages m)"
        "\<lambda>q. unat (pending_guarantee_pages q)"] assms(1)
    unfolding lighter_def by (auto split: if_splits)
qed

lemma lighter_limits:
  assumes "lighter i l t" "limits l"
  shows "limits t"
proof -
  have f: "fixed_part t = fixed_part l" using assms(1) by (simp add: lighter_def)
  show ?thesis
    using assms(2) lighter_held [OF assms(1)] unfolding limits_def fixed_limits [OF f]
    by (meson finite.emptyI finite.insertI finite_cohort_of order_trans)
qed

lemma begin_totals_spec:
  "begin_totals l e is h r = Inr (h', r') \<Longrightarrow>
     unat h' = unat h + sum_list (map (\<lambda>j. pages_of (members l ! j))
       (filter (\<lambda>j. entitlement (the (policy_subject (policy l) j)) = entitlement_identity e) is))
     \<and> unat r' = unat r + sum_list (map (\<lambda>j. unat (member_guarantee_pages (members l ! j)))
       (filter (\<lambda>j. entitlement (the (policy_subject (policy l) j)) = entitlement_identity e) is))"
proof (induction "is" arbitrary: h r)
  case (Cons j rest)
  show ?case
  proof (cases "entitlement (the (policy_subject (policy l) j)) = entitlement_identity e")
    case True
    with Cons.prems obtain h2 r1 where
        "unat h2 = unat h + pages_of (members l ! j)"
        "unat r1 = unat r + unat (member_guarantee_pages (members l ! j))"
        "begin_totals l e rest h2 r1 = Inr (h', r')"
      by (auto simp: rbind_Inr_iff ok_or_Inr_iff checked_add_iff bind_eq_Some_conv add.assoc)
    with Cons.IH [of h2 r1] True show ?thesis by simp
  qed (use Cons in simp)
qed simp

lemma cohort_sum:
  assumes "policy_wf (policy l)" "i < policy_subject_count (policy l)"
  shows "sum_list (map f (filter (\<lambda>j. entitlement (the (policy_subject (policy l) j))
        = entitlement_identity (the (policy_entitlement (policy l) (entitlement_at (policy l) i))))
      [0..<policy_subject_count (policy l)]))
    = sum f (cohort_of (policy l) (entitlement_at (policy l) i))"
proof -
  have "sum_list (map f (filter P [0..<n])) = sum f {j. j < n \<and> P j}" for P n
    by (subst sum_list_distinct_conv_sum_set) (simp_all add: Collect_conj_eq lessThan_def atLeast0LessThan Int_commute)
  moreover have "{j. j < policy_subject_count (policy l) \<and> entitlement (the (policy_subject (policy l) j))
        = entitlement_identity (the (policy_entitlement (policy l) (entitlement_at (policy l) i)))}
      = cohort_of (policy l) (entitlement_at (policy l) i)"
    using same_entitlement [OF assms] by (auto simp: cohort_of_def)
  ultimately show ?thesis by simp
qed

lemma draw_guarantee_bound:
  assumes "draw_guarantee l index e redeemed pages plan = Inr (n, g)"
    and "unat redeemed \<le> unat (guarantee_pages e)"
  shows "unat redeemed + unat n \<le> unat (guarantee_pages e)"
proof -
  have "n \<le> saturating_sub (guarantee_pages e) redeemed"
    using assms(1) by (auto simp: draw_guarantee_def Let_def split: if_splits)
  then show ?thesis using assms(2) by (simp add: word_le_nat_alt unat_saturating_sub)
qed

lemma begin_result:
  assumes "ledger_begin tok pages plan l = (Inr x, t)"
  obtains m requested cohort_pages redeemed n g el f gf where
    "pending l = None" "member l tok = Inr m"
    "unat requested = pages_of m + unat pages" "requested \<le> page_limit l tok"
    "begin_totals l (the (policy_entitlement (policy l) (ledger_entitlement l tok)))
       [0..<policy_subject_count (policy l)] pages 0 = Inr (cohort_pages, redeemed)"
    "unat cohort_pages \<le> entitlement_limit l (ledger_entitlement l tok)"
    "draw_guarantee l (ledger_entitlement l tok)
       (the (policy_entitlement (policy l) (ledger_entitlement l tok))) redeemed pages plan = Inr (n, g)"
    "\<forall>k. amt k (plan_resources plan) = amt k g + amt k el"
    "\<forall>k. amt k (free l) = amt k el + amt k f"
    "\<forall>k. amt k (guarantee_free l ! ledger_entitlement l tok) = amt k g + amt k gf"
    "t = l\<lparr>free := f, guarantee_free := (guarantee_free l)[ledger_entitlement l tok := gf],
       pending := Some \<lparr>pending_member = tok, pending_pages = pages,
         pending_guarantee_pages = n, pending_guaranteed = g, pending_elastic = el\<rparr>\<rparr>"
  using assms unfolding ledger_begin_def Let_def entitlement_limit_def
  by (clarsimp simp: ledger_results bind_eq_Some_conv not_less word_le_nat_alt split: if_splits) blast+

lemma begin_moves:
  assumes ok: "accounts l" "roster l" and "ledger_begin tok pages plan l = (Inr x, t)"
  shows "moves (inc_subject tok) l t"
proof -
  from assms(3) obtain m n g el f gf where b: "pending l = None" "member l tok = Inr m"
      "\<forall>k. amt k (free l) = amt k el + amt k f"
      "\<forall>k. amt k (guarantee_free l ! ledger_entitlement l tok) = amt k g + amt k gf"
    and t: "t = l\<lparr>free := f, guarantee_free := (guarantee_free l)[ledger_entitlement l tok := gf],
       pending := Some \<lparr>pending_member = tok, pending_pages = pages,
         pending_guarantee_pages = n, pending_guaranteed = g, pending_elastic = el\<rparr>\<rparr>"
    by (rule begin_result)
  have a: "acts_on tok m m l t"
    using b(1,2) member_index(3) [OF ok b(2)] by (auto simp: acts_on_def t fixed_part_def member_Inr_iff)
  have gt: "guarantee_free t = (guarantee_free l)[ledger_entitlement l tok := gf]"
    and st: "\<forall>k. amt k (operational_spent t) \<le> amt k (reserve (policy l))"
    by (simp_all add: t accountsD(4) [OF ok(1)])
  have u: "unheld k t + amt k el = unheld k l" for k
    using b(3) by (simp add: unheld_def t)
  show ?thesis
    by (rule acts_on_moves [OF ok a gt st])
      (simp_all add: u [symmetric] b(4), simp_all add: t pend_def b(1))
qed

text \<open>A transaction that opens fits the maximum of its subject, the maximum of its entitlement and
  what is left of the guarantee.\<close>

lemma begin_opens:
  assumes ok: "accounts l" "roster l" and "ledger_begin tok pages plan l = (Inr x, t)" and "limits l"
  shows "\<exists>m q. acts_on tok m m l t \<and> pending l = None \<and> pending t = Some q \<and> pending_member q = tok
    \<and> pages_of m + unat (pending_pages q) \<le> subject_limit l (inc_subject tok)
    \<and> pages_held (cohort_of (policy l) (ledger_entitlement l tok)) l + unat (pending_pages q)
        \<le> entitlement_limit l (ledger_entitlement l tok)
    \<and> redeemed_held (cohort_of (policy l) (ledger_entitlement l tok)) l
          + unat (pending_guarantee_pages q)
        \<le> unat (guarantee_pages (the (policy_entitlement (policy l) (ledger_entitlement l tok))))"
proof -
  from assms(3) obtain m requested cohort_pages redeemed n g el f gf where
    b: "pending l = None" "member l tok = Inr m"
      "unat requested = pages_of m + unat pages" "requested \<le> page_limit l tok"
      "begin_totals l (the (policy_entitlement (policy l) (ledger_entitlement l tok)))
         [0..<policy_subject_count (policy l)] pages 0 = Inr (cohort_pages, redeemed)"
      "unat cohort_pages \<le> entitlement_limit l (ledger_entitlement l tok)"
      "draw_guarantee l (ledger_entitlement l tok)
         (the (policy_entitlement (policy l) (ledger_entitlement l tok))) redeemed pages plan = Inr (n, g)"
    and t: "t = l\<lparr>free := f, guarantee_free := (guarantee_free l)[ledger_entitlement l tok := gf],
       pending := Some \<lparr>pending_member = tok, pending_pages = pages,
         pending_guarantee_pages = n, pending_guaranteed = g, pending_elastic = el\<rparr>\<rparr>"
    by (rule begin_result)
  note i = member_index [OF ok b(2)]
  have "acts_on tok m m l t"
    using b(1,2) i(3) by (auto simp: acts_on_def t fixed_part_def member_Inr_iff)
  moreover have "unat cohort_pages
        = unat pages + pages_held (cohort_of (policy l) (ledger_entitlement l tok)) l"
      "unat redeemed = redeemed_held (cohort_of (policy l) (ledger_entitlement l tok)) l"
    using begin_totals_spec [OF b(5)]
    by (simp_all add: held_def b(1) i(4) cohort_sum [OF accountsD(1) [OF ok(1)] i(2)])
  moreover have "page_limit l tok = page_limit l \<lparr>inc_subject = inc_subject tok, inc_epoch = 0\<rparr>"
    by (simp add: page_limit_def)
  moreover have "redeemed_held (cohort_of (policy l) (ledger_entitlement l tok)) l
      \<le> unat (guarantee_pages (the (policy_entitlement (policy l) (ledger_entitlement l tok))))"
    using assms(4) i(5) by (simp add: limits_def)
  ultimately show ?thesis
    using b(1,3,4,6) draw_guarantee_bound [OF b(7)]
    by (intro exI [of _ m] exI [of _ "the (pending t)"])
      (simp add: t subject_limit_def word_le_nat_alt)
qed

lemma begin_limits:
  assumes ok: "accounts l" "roster l" and "ledger_begin tok pages plan l = (Inr x, t)" and "limits l"
  shows "limits t"
proof -
  from begin_opens [OF assms] obtain m q where a: "acts_on tok m m l t"
      and q: "pending l = None" "pending t = Some q" "pending_member q = tok"
      and le: "pages_of m + unat (pending_pages q) \<le> subject_limit l (inc_subject tok)"
        "pages_held (cohort_of (policy l) (ledger_entitlement l tok)) l + unat (pending_pages q)
          \<le> entitlement_limit l (ledger_entitlement l tok)"
        "redeemed_held (cohort_of (policy l) (ledger_entitlement l tok)) l
          + unat (pending_guarantee_pages q)
          \<le> unat (guarantee_pages (the (policy_entitlement (policy l) (ledger_entitlement l tok))))"
    by blast
  note at = acts_on_at [OF ok a] and m = a [unfolded acts_on_def, THEN conjunct1]
  note i = member_index [OF ok m]
  have fx: "fixed_part t = fixed_part l" using a by (simp add: acts_on_def)
  have step: "held S w v t = held S w v l + (if inc_subject tok \<in> S then v q else 0)"
    if "finite S" for S w v
    using held_at [OF at(1) that, of w v] at(2,4) q by (auto simp: pend_def)
  have "pages_held {inc_subject tok} l = pages_of m" using q(1) i(3) by (simp add: held_def)
  then have "pages_held {j} t \<le> subject_limit l j" if "j < policy_subject_count (policy l)" for j
    using assms(4) that le(1) by (cases "j = inc_subject tok") (auto simp: step limits_def)
  moreover have "pages_held (cohort_of (policy l) e) t \<le> entitlement_limit l e"
      "redeemed_held (cohort_of (policy l) e) t \<le> unat (guarantee_pages (the (policy_entitlement (policy l) e)))"
    if "e < policy_entitlement_count (policy l)" for e
    using assms(4) that le(2,3) unfolding step [OF finite_cohort_of] i(7)
    by (cases "e = ledger_entitlement l tok"; simp add: limits_def)+
  ultimately show ?thesis unfolding limits_def fixed_limits [OF fx] by blast
qed

section \<open>Every run is sound\<close>

text \<open>The three invariants together, and what a step may do to them.\<close>

definition sound :: "Ledger \<Rightarrow> bool" where
  "sound l \<longleftrightarrow> accounts l \<and> roster l \<and> limits l"

definition sound_step :: "Ledger \<Rightarrow> Ledger \<Rightarrow> bool" where
  "sound_step l t \<longleftrightarrow> (sound l \<longrightarrow>
     sound t \<and> fixed_part t = fixed_part l \<and> (\<forall>k. common k t = common k l))"

lemma sound_step_refl [simp]: "sound_step l l"
  by (simp add: sound_step_def)

lemma moves_sound:
  assumes "sound l \<Longrightarrow> moves i l t \<and> limits t"
  shows "sound_step l t"
  using assms settles_balanced [of l i t]
  by (auto simp: sound_step_def sound_def moves_def balanced_def)

lemma acts_sound:
  assumes "accounts l \<Longrightarrow> roster l \<Longrightarrow> moves i l t \<and> lighter i l t"
  shows "sound_step l t"
  using assms lighter_limits by (intro moves_sound [of l i]) (auto simp: sound_def)

lemma root_sound:
  assumes "members t = members l" "pending t = pending l" "guarantee_free t = guarantee_free l"
    and "fixed_part t = fixed_part l"
    and "\<And>k. accounts l \<Longrightarrow> amt k (operational_spent t) \<le> amt k (reserve (policy l))
      \<and> unheld k t = unheld k l"
  shows "sound_step l t"
proof -
  have h: "held S f g t = held S f g l" for S f g using assms(1,2) by (simp add: held_def)
  have "accounts l \<Longrightarrow> common k t = common k l" "protected k e t = protected k e l" for k e
    using assms(3-5) by (simp_all add: common_eq protected_def h fixed_part_def)
  moreover have "limits t \<longleftrightarrow> limits l" unfolding limits_def fixed_limits [OF assms(4)] h ..
  moreover have "roster l \<Longrightarrow> roster t"
    using assms(1,2,4) by (auto simp: roster_def member_def fixed_part_def)
  ultimately show ?thesis
    using assms balancedI [of l t] by (auto simp: sound_step_def sound_def balanced_def)
qed

lemma reserve_root_sound:
  assumes "reserve_root r l = (Inr x, t)"
  shows "sound_step l t"
proof -
  obtain f where "root_pending l = None" "\<forall>k. amt k (free l) = amt k r + amt k f"
    and t: "t = l\<lparr>free := f, root_pending := Some r\<rparr>"
    using assms by (auto simp: reserve_root_def ledger_results split: if_splits)
  then have "unheld k t = unheld k l" for k by (simp add: unheld_def)
  then show ?thesis by (intro root_sound) (simp_all add: t fixed_part_def accountsD(4))
qed

lemma settle_root_sound:
  assumes "settle_root used l = (Inr x, t)"
  shows "sound_step l t"
proof -
  obtain reserved unused owned f spent where r: "root_pending l = Some reserved"
      "res_subtract reserved used = Inr unused" "res_add (root_owned l) used = Inr owned"
      "refund_common l unused = Inr (f, spent)"
    and t: "t = l\<lparr>root_owned := owned, free := f, operational_spent := spent, root_pending := None\<rparr>"
    using assms by (auto simp: settle_root_def atomically_Inr_iff rbind_Inr_iff ok_or_Inr_iff)
  show ?thesis
  proof (rule root_sound)
    fix k
    assume "accounts l"
    from accountsD(4) [OF this, of k]
    show "amt k (operational_spent t) \<le> amt k (reserve (policy l)) \<and> unheld k t = unheld k l"
      using r(1) r(2,3) [unfolded res_subtract_iff res_add_iff, THEN spec [of _ k]]
      unfolding t unheld_def by (simp add: refund_common_Inr [OF r(4)]) arith
  qed (simp_all add: t fixed_part_def)
qed

lemma reconcile_sound:
  assumes "reconcile_ownership root system l = (Inr x, t)"
  shows "sound_step l t"
proof -
  obtain a b unspent whole c left f spent where none: "root_pending l = None" and
      "res_add (free l) (root_owned l) = Inr a" "res_add a (system_owned l) = Inr b"
      "res_subtract (reserve (policy l)) (operational_spent l) = Inr unspent"
      "res_add b unspent = Inr whole" "res_subtract whole root = Inr c"
      "res_subtract c system = Inr left"
      "res_subtract left (minimum (reserve (policy l)) left) = Inr f"
      "res_subtract (reserve (policy l)) (minimum (reserve (policy l)) left) = Inr spent"
    and t: "t = l\<lparr>free := f, operational_spent := spent, root_owned := root, system_owned := system\<rparr>"
    using assms unfolding reconcile_ownership_def Let_def
    by (auto simp: atomically_Inr_iff rbind_Inr_iff split: if_splits)
  note r = this(2-9) [unfolded res_add_iff res_subtract_iff amt_minimum]
  show ?thesis
  proof (rule root_sound)
    fix k
    show "amt k (operational_spent t) \<le> amt k (reserve (policy l)) \<and> unheld k t = unheld k l"
      using r [THEN spec [of _ k]] none by (simp add: t unheld_def min_def split: if_splits)
  qed (simp_all add: t fixed_part_def)
qed

text \<open>Apart from a refused retirement, an error leaves the ledger as it was.\<close>

lemma failed_unchanged:
  "retain_unbegun tok r l = (Inl e, t) \<Longrightarrow> t = l" "reconcile_ownership root system l = (Inl e, t) \<Longrightarrow> t = l"
  "reconcile_system system l = (Inl e, t) \<Longrightarrow> t = l" "reserve_root r l = (Inl e, t) \<Longrightarrow> t = l"
  "settle_root r l = (Inl e, t) \<Longrightarrow> t = l" "bind_with_maximum s l = (Inl e, t) \<Longrightarrow> t = l"
  "quarantine tok l = (Inl e, t) \<Longrightarrow> t = l" "ledger_begin tok n plan l = (Inl e, t) \<Longrightarrow> t = l"
  "ledger_commit tok l = (Inl e, t) \<Longrightarrow> t = l" "ledger_abort tok r ok l = (Inl e, t) \<Longrightarrow> t = l"
  by (simp_all only: atomically_Inl_iff retain_unbegun_def reconcile_system_def
      reconcile_ownership_def reserve_root_def settle_root_def bind_with_maximum_def quarantine_def
      ledger_begin_def ledger_commit_def ledger_abort_def)

lemma sound_result:
  assumes "\<And>x t. f l = (Inr x, t) \<Longrightarrow> sound_step l t" "\<And>e t. f l = (Inl e, t) \<Longrightarrow> t = l"
  shows "sound_step l (snd (f l))"
  using assms by (cases "f l"; cases "fst (f l)") auto

lemma retire_sound: "sound_step l (snd (retire tok revoked l))"
proof (cases "retire tok revoked l")
  case (Pair r t)
  show ?thesis
  proof (cases r)
    case (Inr x)
    with Pair retire_acts [of l tok revoked x t] show ?thesis by (auto intro!: acts_sound)
  next
    case (Inl e)
    with Pair have "t = l \<or> (\<exists>m. member l tok = Inr m \<and>
        t = set_member (inc_subject tok) (\<lambda>m. m\<lparr>quarantined := True\<rparr>) l)"
      by (auto simp: retire_def atomically_Inl_iff split: sum.splits if_splits)
    then show ?thesis
    proof
      assume "\<exists>m. member l tok = Inr m \<and>
        t = set_member (inc_subject tok) (\<lambda>m. m\<lparr>quarantined := True\<rparr>) l"
      then show ?thesis
        using quarantine_acts Pair by (intro acts_sound [of l "inc_subject tok"]) auto
    qed (use Pair in simp)
  qed
qed

lemma operations_sound:
  "retain_unbegun tok r l = (Inr x, t) \<Longrightarrow> sound_step l t"
  "bind_with_maximum s l = (Inr y, t) \<Longrightarrow> sound_step l t"
  "quarantine tok l = (Inr x, t) \<Longrightarrow> sound_step l t"
  "ledger_begin tok n plan l = (Inr x, t) \<Longrightarrow> sound_step l t"
  "ledger_commit tok l = (Inr x, t) \<Longrightarrow> sound_step l t"
  "ledger_abort tok r ok l = (Inr x, t) \<Longrightarrow> sound_step l t"
proof -
  show "retain_unbegun tok r l = (Inr x, t) \<Longrightarrow> sound_step l t"
    using retain_acts by (intro acts_sound) blast
  show "ledger_commit tok l = (Inr x, t) \<Longrightarrow> sound_step l t"
    using commit_acts by (intro acts_sound) blast
  show "ledger_abort tok r ok l = (Inr x, t) \<Longrightarrow> sound_step l t"
    using abort_acts by (intro acts_sound) blast
  show "ledger_begin tok n plan l = (Inr x, t) \<Longrightarrow> sound_step l t"
    using begin_moves begin_limits by (intro moves_sound) (auto simp: sound_def)
  show "sound_step l t" if "quarantine tok l = (Inr x, t)"
    using that quarantine_acts [of l tok _ t] by (intro acts_sound) (auto simp: quarantine_def ledger_results)
  show "sound_step l t" if "bind_with_maximum s l = (Inr y, t)"
    using bind_acts [OF _ _ that] acts_sound unfolding sound_step_def sound_def by meson
qed

lemma reconcile_system_sound: "reconcile_system system l = (Inr x, t) \<Longrightarrow> sound_step l t"
  by (simp add: reconcile_system_def reconcile_sound)

lemma ledger_step_sound: "ledger_step l t \<Longrightarrow> sound_step l t"
proof (induction rule: ledger_step.induct)
  case (step_retire l tok revoked)
  then show ?case by (rule retire_sound)
qed (rule sound_result,
    erule operations_sound reconcile_sound reconcile_system_sound reserve_root_sound settle_root_sound,
    erule failed_unchanged)+

section \<open>Admission is sound\<close>

lemma admit_guarantees_sum:
  "admit_guarantees p es avail totals = Inr (left, totals') \<Longrightarrow>
     amt k avail = amt k left + sum_list (map (\<lambda>e. amt k (snd e)) es)
     \<and> length totals' = length totals"
  by (induction es arbitrary: avail totals)
    (auto simp: rbind_Inr_iff ok_or_Inr_iff res_subtract_iff Let_def split: if_splits)

lemma admit_guarantees_totals:
  "admit_guarantees p (List.enumerate n gs) avail totals = Inr (left, totals') \<Longrightarrow>
     n + length gs \<le> length totals \<Longrightarrow>
     totals' = take n totals @ gs @ drop (n + length gs) totals"
proof (induction gs arbitrary: n avail totals)
  case (Cons g gs)
  then obtain avail' where "admit_guarantees p (List.enumerate (Suc n) gs) avail' (totals[n := g])
      = Inr (left, totals')"
    by (auto simp: rbind_Inr_iff ok_or_Inr_iff Let_def split: if_splits)
  with Cons.IH [of "Suc n" avail' "totals[n := g]"] Cons.prems(2) show ?case
    by (simp add: take_Suc_conv_app_nth take_update_swap drop_update_swap list_update_append
        flip: append_assoc)
qed simp

lemma held_default:
  assumes "members l = replicate 64 member_default" "pending l = None" "S \<subseteq> {..<64}"
    and "f member_default = 0"
  shows "held S f g l = 0"
  using assms by (auto simp: held_def subset_iff intro!: sum.neutral)

lemma admit_result:
  assumes "policy_decode bytes = Inr p" "admit p instances available guarantees = Some (Inr l)"
  shows "sound l" "common k l + sum_list (map (amt k) guarantees) = amt k available"
    "length guarantees = policy_entitlement_count p" "policy l = p"
    "e < length guarantees \<Longrightarrow> guarantee_total l ! e = guarantees ! e"
proof -
  have wf: "policy_wf p" using assms(1) by (auto simp: policy_wf_def)
  from assms(2) obtain avail left totals where n: "length guarantees = policy_entitlement_count p"
      and a: "res_subtract available (reserve p) = Inr avail"
      and g: "admit_guarantees p (List.enumerate 0 guarantees) avail (replicate 32 ZERO) = Inr (left, totals)"
      and l: "policy l = p" "free l = left" "root_owned l = ZERO" "system_owned l = ZERO"
        "operational_spent l = ZERO" "root_pending l = None" "guarantee_total l = totals"
        "guarantee_free l = totals" "members l = replicate 64 member_default" "pending l = None"
    by (auto simp: admit_def rbind_Inr_iff map_err_Inr_iff policy_sizes split: if_splits)
  have h: "S \<subseteq> {..<64} \<Longrightarrow> f member_default = 0 \<Longrightarrow> held S f v l = 0" for S f v
    by (rule held_default) (simp_all add: l)
  have co: "cohort_of p e \<subseteq> {..<64}" for e
    using policy_wf_shape(2) [OF wf] by (auto simp: cohort_of_def)
  have z: "amt k (elastic member_default) = 0" "amt k (guaranteed member_default) = 0"
    "pages_of member_default = 0" "unat (member_guarantee_pages member_default) = 0" for k
    by (simp_all add: member_default_def)
  have "map (\<lambda>e. amt k (snd e)) (List.enumerate 0 guarantees) = map (amt k) guarantees" for k
    using map_map [of "amt k" snd "List.enumerate 0 guarantees"] by (simp add: comp_def)
  with admit_guarantees_sum [OF g] a
  show c: "common k l + sum_list (map (amt k) guarantees) = amt k available" for k
    by (simp add: common_def l h z res_subtract_iff)
  show "length guarantees = policy_entitlement_count p" "policy l = p" by (fact n, fact l)
  have "totals = guarantees @ drop (length guarantees) (replicate 32 ZERO)"
    using admit_guarantees_totals [OF g] n policy_wf_shape(1) [OF wf] by simp
  then show "e < length guarantees \<Longrightarrow> guarantee_total l ! e = guarantees ! e"
    by (simp add: l nth_append)
  have "common k l < 2 ^ 64" for k using c [of k] amt_less [of k available] by linarith
  then have "accounts l"
    using wf admit_guarantees_sum [OF g] by (simp add: accounts_def l protected_def h co z)
  moreover have "roster l" by (simp add: roster_def l) (simp add: member_default_def)
  moreover have "limits l"
    using co h z policy_wf_shape(2) [OF wf] by (simp add: limits_def l)
  ultimately show "sound l" by (simp add: sound_def)
qed

lemma run_sound:
  assumes "ledger_step\<^sup>*\<^sup>* l t" "sound l"
  shows "sound t \<and> fixed_part t = fixed_part l \<and> (\<forall>k. common k t = common k l)"
  using assms(1)
proof (induction rule: rtranclp_induct)
  case (step t u)
  then show ?case using ledger_step_sound [OF step(2)] by (simp add: sound_step_def)
qed (simp add: assms(2))

lemma add_all_ok:
  assumes "\<And>k. amt k acc + sum_list (map (amt k) rs) < 2 ^ 64"
  shows "\<exists>r. add_all rs acc = Some r"
  using assms
proof (induction rs arbitrary: acc)
  case (Cons r rs)
  have "amt k acc + amt k r < 2 ^ 64" for k using Cons.prems [of k] by simp
  then obtain c where c: "res_add acc r = Inr c" using res_add_ok by blast
  have "amt k c + sum_list (map (amt k) rs) < 2 ^ 64" for k
    using Cons.prems [of k] c by (simp add: res_add_iff add.assoc)
  then show ?case using Cons.IH c by simp
qed simp

lemma common_held_ok:
  assumes "accounts l" "roster l"
  shows "\<exists>r. common_held l = Some r"
  unfolding common_held_def
proof (rule add_all_ok)
  fix k
  have "sum_list (map (\<lambda>m. amt k (elastic m)) (members l)) = (\<Sum>j<64. amt k (elastic (members l ! j)))"
    using accountsD(2) [OF assms(1)] sum_list_sum_nth [of "map (\<lambda>m. amt k (elastic m)) (members l)"]
    by (simp add: atLeast0LessThan)
  moreover have "inc_subject (pending_member q) < 64" if "pending l = Some q" for q
    using assms that accountsD(2) unfolding roster_def by (metis member_Inr_iff)
  ultimately have "sum_list (map (amt k) (map elastic (members l)
      @ (case pending l of None \<Rightarrow> [] | Some q \<Rightarrow> [pending_elastic q]))) = elastic_held k l"
    by (auto simp: held_def comp_def split: option.split)
  then show "amt k ZERO + sum_list (map (amt k) (map elastic (members l)
      @ (case pending l of None \<Rightarrow> [] | Some q \<Rightarrow> [pending_elastic q]))) < 2 ^ 64"
    using accountsD(5) [OF assms(1), of k] unfolding common_eq by simp
qed

lemma remaining_ok: "accounts l \<Longrightarrow> \<exists>r. remaining_operational_reserve l = Some r"
  using res_subtract_ok [of "operational_spent l" "reserve (policy l)"] accountsD(4)
  by (auto simp: remaining_operational_reserve_def)

section \<open>Stale tokens\<close>

text \<open>A member may only grow older: its epoch never decreases, and it becomes live only with a new
  one.\<close>

definition older :: "Member \<Rightarrow> Member \<Rightarrow> bool" where
  "older m m' \<longleftrightarrow> epoch m < epoch m' \<or> epoch m = epoch m' \<and> (member_live m' \<longrightarrow> member_live m)"

lemma older_refl [simp]: "older m m" by (simp add: older_def)

lemma older_trans: "older a b \<Longrightarrow> older b c \<Longrightarrow> older a c"
  by (auto simp: older_def)

definition ages :: "Ledger \<Rightarrow> Ledger \<Rightarrow> bool" where
  "ages l t \<longleftrightarrow> length (members t) = length (members l)
     \<and> (\<forall>j < length (members l). older (members l ! j) (members t ! j))"

lemma ages_same [simp]: "members t = members l \<Longrightarrow> ages l t"
  by (simp add: ages_def)

lemma ages_set_member:
  "members t = members l \<Longrightarrow> older (members l ! i) (f (members l ! i)) \<Longrightarrow> ages l (set_member i f t)"
  by (cases "i < length (members l)") (auto simp: ages_def set_member_def nth_list_update)

lemma checked_add_less: "checked_add a 1 = Some b \<Longrightarrow> (a :: u64) < b"
  by (simp add: checked_add_iff word_less_nat_alt)

lemma ledger_step_ages: "ledger_step l t \<Longrightarrow> ages l t"
proof (induction rule: ledger_step.induct)
  case (step_retire l tok revoked)
  then show ?case
    by (auto simp: retire_def atomically_def Let_def rbind_Inr_iff member_Inr_iff older_def ages_def
        set_member_def nth_list_update split: sum.splits if_splits)
qed (auto simp: retain_unbegun_def reconcile_system_def reconcile_ownership_def reserve_root_def
      settle_root_def bind_with_maximum_def quarantine_def ledger_begin_def ledger_commit_def
      ledger_abort_def atomically_def Let_def rbind_Inr_iff member_Inr_iff ok_or_Inr_iff older_def
      split: sum.splits if_splits dest: checked_add_less intro!: ages_set_member)

lemma run_ages: "ledger_step\<^sup>*\<^sup>* l t \<Longrightarrow> ages l t"
proof (induction rule: rtranclp_induct)
  case (step t u)
  then show ?case using ledger_step_ages [OF step(2)] older_trans by (fastforce simp: ages_def)
qed (simp add: ages_def)

section \<open>Retirement\<close>

lemma retire_ok:
  assumes ok: "accounts l" "roster l" and m: "member l tok = Inr m"
    and q: "\<forall>q. pending l = Some q \<longrightarrow> pending_member q \<noteq> tok"
  shows "\<exists>t. retire tok True l = (Inr (), t)"
proof -
  let ?e = "ledger_entitlement l tok"
  note i = member_index [OF ok m]
  have "amt k (guarantee_free l ! ?e) + amt k (guaranteed m) \<le> protected k ?e l" for k
    using held_ge [OF finite_cohort_of [of "policy l" ?e], of "inc_subject tok"
        "\<lambda>m. amt k (guaranteed m)" l "\<lambda>q. amt k (pending_guaranteed q)"] i(3,7)
    by (simp add: protected_def)
  then have g: "amt k (guarantee_free l ! ?e) + amt k (guaranteed m) \<le> amt k (guarantee_total l ! ?e)" for k
    using accountsD(6) [OF ok(1) i(5)] by simp
  then obtain gf where gf: "res_add (guarantee_free l ! ?e) (guaranteed m) = Inr gf"
    using res_add_ok amt_less by (meson le_less_trans)
  then obtain d where "res_subtract (guarantee_total l ! ?e) gf = Inr d"
    using res_subtract_ok [of gf "guarantee_total l ! ?e"] g by (auto simp: res_add_iff)
  moreover have "amt k (free l) + amt k (elastic m) < 2 ^ 64" for k
    using held_ge [of "{..<64}" "inc_subject tok" "\<lambda>m. amt k (elastic m)" l
        "\<lambda>q. amt k (pending_elastic q)"] i(1,3) accountsD(5) [OF ok(1), of k]
    by (simp add: common_def)
  then obtain f s where "refund_common l (elastic m) = Inr (f, s)" using refund_common_ok by blast
  ultimately show ?thesis
    using q m gf by (auto simp: retire_def atomically_def split: option.split)
qed

lemma retire_stale:
  assumes "accounts l" "roster l" "retire tok True l = (Inr x, t)"
  shows "\<not> member_live (members t ! inc_subject tok)" "epoch (members t ! inc_subject tok) = inc_epoch tok"
  using assms(3)
  by (auto simp: retire_def ledger_results Let_def member_Inr_iff set_member_nth member_default_def
      split: if_splits sum.splits option.splits)

section \<open>A policy, an admission and a short run\<close>

definition demo_identity :: "u8 \<Rightarrow> bytes" where
  "demo_identity b = b # zeros 31"

definition demo_header :: Header where
  "demo_header =
     \<lparr>magic = MAGIC, format_version = FORMAT_VERSION, header_size = 80, required_flags = 0,
      entitlement_count = 1, subject_count = 1, total_len = 248, header_reserved = 0,
      reserve_bytes = 4096, reserve_slots = 1, reserve_descriptors = 1, reserve_extents = 1,
      reserve_tables = 1\<rparr>"

definition demo_entitlement :: Entitlement where
  "demo_entitlement =
     \<lparr>entitlement_identity = demo_identity 1, subtree_root = zeros 32, guarantee_pages = 1,
      maximum_pages = 4, maximum_mode = FIXED, reserved = 0\<rparr>"

definition demo_subject :: Subject where
  "demo_subject =
     \<lparr>subject_identity = demo_identity 2, entitlement = demo_identity 1, subject_maximum_pages = 4,
      subject_maximum_mode = FIXED, subject_reserved = 0\<rparr>"

definition demo_bytes :: bytes where
  "demo_bytes = header_encode demo_header @ entitlement_encode demo_entitlement
     @ subject_encode demo_subject"

definition demo_policy :: Policy where
  "demo_policy = \<lparr>policy_bytes = demo_bytes, header = demo_header\<rparr>"

lemma demo_lengths [simp]: "length (demo_identity b) = 32"
  by (simp add: demo_identity_def)

lemmas demo_records = demo_header_def demo_entitlement_def demo_subject_def MAGIC_def

lemma demo_parts:
  "length (header_encode demo_header) = 80" "length (entitlement_encode demo_entitlement) = 88"
  "length (subject_encode demo_subject) = 80" "length demo_bytes = 248"
  "header_decode demo_bytes = Some demo_header"
  "policy_entitlement_count demo_policy = 1" "policy_subject_count demo_policy = 1"
  "policy_entitlement demo_policy 0 = Some demo_entitlement"
  "policy_subject demo_policy 0 = Some demo_subject"
proof -
  show l: "length (header_encode demo_header) = 80" "length (entitlement_encode demo_entitlement) = 88"
    "length (subject_encode demo_subject) = 80"
    by (rule encoded_lengths; simp add: demo_records)+
  then show "length demo_bytes = 248" by (simp add: demo_bytes_def)
  show "header_decode demo_bytes = Some demo_header"
    unfolding demo_bytes_def by (rule header_roundtrip) (simp add: demo_records)
  show c: "policy_entitlement_count demo_policy = 1" "policy_subject_count demo_policy = 1"
    by (simp_all add: policy_entitlement_count_def policy_subject_count_def demo_policy_def demo_header_def)
  have "entitlement_decode (entitlement_encode demo_entitlement @ rest) = Some demo_entitlement" for rest
    by (rule entitlement_roundtrip) (simp_all add: demo_records)
  then show "policy_entitlement demo_policy 0 = Some demo_entitlement"
    by (simp add: policy_entitlement_def c) (simp add: demo_policy_def demo_bytes_def l policy_sizes)
  have "subject_decode (subject_encode demo_subject @ []) = Some demo_subject"
    by (rule subject_roundtrip) (simp_all add: demo_records)
  then show "policy_subject demo_policy 0 = Some demo_subject"
    by (simp add: policy_subject_def c) (simp add: demo_policy_def demo_bytes_def l policy_sizes)
qed

lemma demo_order: "b \<noteq> 0 \<Longrightarrow> \<not> not_after (demo_identity b) (zeros 32)"
proof -
  have "zeros 32 = 0 # zeros 31" by (simp add: zeros_def flip: replicate_Suc)
  moreover assume "b \<noteq> 0"
  ultimately show ?thesis by (simp add: not_after_def demo_identity_def)
qed

lemma demo_index:
  "entitlement_index demo_policy (demo_identity 1) = Some 0"
  "subject_index demo_policy (demo_identity 2) = Some 0"
  by (simp_all add: entitlement_index_def subject_index_def demo_parts)
    (simp_all add: demo_entitlement_def demo_subject_def)

lemma demo_decode: "policy_decode demo_bytes = Inr demo_policy"
proof -
  note c = demo_parts(6-9) demo_order demo_index
  have "check_entitlements demo_policy [0] (zeros 32) 0 = Inr ()"
    by (simp add: c) (simp add: demo_entitlement_def demo_order valid_maximum_def FIXED_def MAX_PAGES_def checked_add_def)
  moreover have "check_subjects demo_policy [0] (zeros 32) = Inr ()"
    by (simp add: c) (simp add: demo_subject_def demo_order valid_maximum_def FIXED_def MAX_PAGES_def demo_index)
  moreover have "check_members demo_policy [0] = Inr ()"
    by (simp add: c member_step_def Let_def)
      (simp add: demo_subject_def demo_entitlement_def FIXED_def POOL_def MAX_PAGES_def saturating_add_def)
  ultimately show ?thesis
    unfolding policy_decode_def demo_parts(5) Let_def
    by (simp add: demo_policy_def [symmetric] c)
      (simp add: demo_header_def demo_parts policy_sizes MAX_VALUE_def)
qed

definition demo_amount :: "u64 \<Rightarrow> Resources" where
  "demo_amount n = \<lparr>res_bytes = 4096 * n, slots = n, descriptors = n, extents = n, tables = n\<rparr>"

definition demo_instances :: "Instance list" where
  "demo_instances = [\<lparr>instance_identity = demo_identity 2, instance_owner = None\<rparr>]"

definition demo_ledger :: Ledger where
  "demo_ledger =
     \<lparr>policy = demo_policy, free = demo_amount 8, root_owned = ZERO, system_owned = ZERO,
      operational_spent = ZERO, root_pending = None, pool_pages = 9,
      guarantee_total = demo_amount 1 # replicate 31 ZERO,
      guarantee_free = demo_amount 1 # replicate 31 ZERO,
      members = replicate 64 member_default, pending = None\<rparr>"

definition demo_token :: Incarnation where
  "demo_token = \<lparr>inc_subject = 0, inc_epoch = 1\<rparr>"

definition demo_bound :: Ledger where
  "demo_bound = demo_ledger\<lparr>members := member_default\<lparr>epoch := 1, member_live := True\<rparr>
     # replicate 63 member_default\<rparr>"

lemma demo_subtract:
  "res_subtract (demo_amount 10) (demo_amount 1) = Inr (demo_amount 9)"
  "res_subtract (demo_amount 9) (demo_amount 1) = Inr (demo_amount 8)"
  by (simp_all add: demo_amount_def res_subtract_def checked_sub_def)

lemma demo_replicate:
  "replicate 32 ZERO = ZERO # replicate 31 ZERO"
  "replicate 64 member_default = member_default # replicate 63 member_default"
  by (simp_all flip: replicate_Suc)

lemma demo_validate: "validate_instances demo_policy demo_instances = Some (Inr ())"
proof -
  have "demo_identity 2 \<noteq> zeros 32"
    using demo_order [of 2] by (auto simp: not_after_def)
  then show ?thesis
    by (simp add: validate_instances_def demo_instances_def find_instance_def demo_parts Let_def)
      (simp add: demo_subject_def demo_index demo_parts, simp add: demo_entitlement_def)
qed

lemma demo_admit:
  "admit demo_policy demo_instances (demo_amount 10) [demo_amount 1] = Some (Inr demo_ledger)"
proof -
  have "reserve demo_policy = demo_amount 1"
    by (simp add: reserve_def demo_policy_def demo_header_def demo_amount_def)
  moreover have "admit_guarantees demo_policy [(0, demo_amount 1)] (demo_amount 9) (ZERO # replicate 31 ZERO)
      = Inr (demo_amount 8, demo_amount 1 # replicate 31 ZERO)"
    by (simp add: demo_parts demo_subtract)
      (simp add: demo_entitlement_def demo_amount_def PAGE_BYTES_def checked_mul_def
        res_subtract_def checked_sub_def)
  moreover have "min (res_bytes (demo_amount 9) div PAGE_BYTES) MAX_PAGES = 9"
    by (simp add: demo_amount_def PAGE_BYTES_def MAX_PAGES_def)
  ultimately show ?thesis
    by (simp add: admit_def demo_validate demo_parts demo_subtract demo_replicate policy_sizes)
      (simp add: demo_ledger_def demo_replicate)
qed

lemma demo_bind: "snd (bind_with_maximum (demo_identity 2) demo_ledger) = demo_bound"
  by (simp add: bind_with_maximum_def atomically_def demo_ledger_def demo_index demo_parts Let_def
      demo_replicate checked_add_def)
    (simp add: member_default_def set_member_def demo_bound_def demo_ledger_def)

lemma demo_member:
  "member demo_bound demo_token = Inr (member_default\<lparr>epoch := 1, member_live := True\<rparr>)"
  by (simp add: member_def demo_bound_def demo_token_def)

lemma demo_run: "ledger_step\<^sup>*\<^sup>* demo_ledger demo_bound"
  using step_bind [of demo_ledger "demo_identity 2"] by (simp add: demo_bind r_into_rtranclp)

section \<open>Properties\<close>

text \<open>C4: nothing is created or lost.  In every ledger that any sequence of operations, successful
  or refused, leads to from an admission, and on every resource axis: what is free, owned by root or
  system, kept back as unspent reserve, funding root or charged to holders adds up, together with the
  guarantees, to the admitted resources; what is left of each guarantee and what its cohort drew from
  it add up to that guarantee; and the two sums the code computes with \<open>expect\<close> cannot panic.\<close>

theorem ledger_conserves:
  assumes "policy_decode bytes = Inr p"
    and "admit p instances available guarantees = Some (Inr l0)"
    and "ledger_step\<^sup>*\<^sup>* l0 l"
  shows "common k l + sum_list (map (amt k) guarantees) = amt k available
    \<and> (\<forall>e < length guarantees. protected k e l = amt k (guarantees ! e))
    \<and> (\<exists>r. common_held l = Some r) \<and> (\<exists>r. remaining_operational_reserve l = Some r)"
proof -
  note a = admit_result [OF assms(1,2)]
  note r = run_sound [OF assms(3) a(1)]
  have s: "accounts l" "roster l" using r by (simp_all add: sound_def)
  have "common k l + sum_list (map (amt k) guarantees) = amt k available" using r a(2) by simp
  moreover have "protected k e l = amt k (guarantees ! e)" if "e < length guarantees" for e
    using accountsD(6) [OF s(1)] r a(3-5) that by (simp add: fixed_part_def)
  ultimately show ?thesis using common_held_ok [OF s] remaining_ok [OF s(1)] by blast
qed

theorem ledger_conserves_witness:
  "common Bytes demo_bound + 4096 = 40960 \<and> protected Bytes 0 demo_bound = 4096
    \<and> (\<exists>r. common_held demo_bound = Some r)"
  using ledger_conserves [OF demo_decode demo_admit demo_run, of Bytes]
  by (simp add: demo_amount_def)

text \<open>C9: no maximum is ever exceeded.  In every reachable ledger, the pages a subject holds, the
  pages an aborted growth left behind and the pages of its open transaction stay within the subject's
  maximum; together over the cohort of an entitlement they stay within the entitlement's maximum; and
  the pages a cohort redeems stay within the guarantee.\<close>

theorem ledger_within_maxima:
  assumes "policy_decode bytes = Inr p"
    and "admit p instances available guarantees = Some (Inr l0)"
    and "ledger_step\<^sup>*\<^sup>* l0 l"
  shows "(\<forall>j < policy_subject_count p. pages_held {j} l \<le> subject_limit l j)
    \<and> (\<forall>e < policy_entitlement_count p.
         pages_held (cohort_of p e) l \<le> entitlement_limit l e
         \<and> redeemed_held (cohort_of p e) l \<le> unat (guarantee_pages (the (policy_entitlement p e))))"
proof -
  note a = admit_result [OF assms(1,2)]
  note r = run_sound [OF assms(3) a(1)]
  have "limits l" "policy l = p" using r a(4) by (simp_all add: sound_def fixed_part_def)
  then show ?thesis by (auto simp: limits_def)
qed

theorem ledger_within_maxima_witness:
  "pages_held {0} demo_bound \<le> 4 \<and> pages_held (cohort_of demo_policy 0) demo_bound \<le> 4
    \<and> redeemed_held (cohort_of demo_policy 0) demo_bound \<le> 1"
  using ledger_within_maxima [OF demo_decode demo_admit demo_run]
  by (simp add: demo_parts subject_limit_def entitlement_limit_def page_limit_def demo_bound_def
      demo_ledger_def demo_subject_def demo_entitlement_def)

text \<open>C18: retirement always succeeds and returns everything.  In every reachable ledger, a live
  incarnation without an open transaction whose backing was revoked can be retired; its elastic
  charges return to the common pool, paying the operational reserve first, its guarantee becomes free
  again, and the subject is left with nothing.\<close>

theorem retire_returns_everything:
  assumes "policy_decode bytes = Inr p"
    and "admit p instances available guarantees = Some (Inr l0)"
    and "ledger_step\<^sup>*\<^sup>* l0 l"
    and "member l tok = Inr m" and "\<forall>q. pending l = Some q \<longrightarrow> pending_member q \<noteq> tok"
  shows "\<exists>t. retire tok True l = (Inr (), t)
    \<and> members t ! inc_subject tok = member_default\<lparr>epoch := epoch m\<rparr>
    \<and> (\<forall>k. unheld k t = unheld k l + amt k (elastic m)
         \<and> amt k (operational_spent t) = amt k (operational_spent l) - amt k (elastic m)
         \<and> amt k (guarantee_free t ! ledger_entitlement l tok)
             = amt k (guarantee_free l ! ledger_entitlement l tok) + amt k (guaranteed m))"
proof -
  have ok: "accounts l" "roster l"
    using run_sound [OF assms(3) admit_result(1) [OF assms(1,2)]] by (simp_all add: sound_def)
  note i = member_index [OF ok assms(4)]
  obtain t where t: "retire tok True l = (Inr (), t)" using retire_ok [OF ok assms(4,5)] by blast
  then obtain gf f spent where
      g: "res_add (guarantee_free l ! ledger_entitlement l tok) (guaranteed m) = Inr gf"
      and r: "refund_common l (elastic m) = Inr (f, spent)"
      and tt: "t = set_member (inc_subject tok) (\<lambda>_. member_default\<lparr>epoch := epoch m\<rparr>)
        (l\<lparr>guarantee_free := (guarantee_free l)[ledger_entitlement l tok := gf], free := f,
           operational_spent := spent\<rparr>)"
    by (auto simp: retire_def assms(4) atomically_Inr_iff rbind_Inr_iff Let_def split: if_splits)
  have "unheld k t = unheld k l + amt k (elastic m)" for k
    using accountsD(4) [OF ok(1), of k] by (simp add: unheld_def tt refund_common_Inr [OF r])
  moreover have "members t ! inc_subject tok = member_default\<lparr>epoch := epoch m\<rparr>"
    using i(1) accountsD(2) [OF ok(1)] by (simp add: tt set_member_nth)
  ultimately show ?thesis
    using t g i(6) accountsD(3) [OF ok(1)]
    by (auto simp: res_add_iff tt refund_common_Inr [OF r])
qed

theorem retire_returns_everything_witness:
  "\<exists>t. retire demo_token True demo_bound = (Inr (), t)
    \<and> members t ! 0 = member_default\<lparr>epoch := 1\<rparr>"
  using retire_returns_everything [OF demo_decode demo_admit demo_run demo_member]
  by (auto simp: demo_bound_def demo_ledger_def demo_token_def)

text \<open>C17: a token is dead for good once its incarnation is retired.  Whatever happens afterwards,
  including the subject being bound again, the ledger never accepts the old token: looking it up,
  retiring it or quarantining it fails and leaves the ledger as it was, so a late cleanup cannot
  charge or release what belongs to the restarted subject.\<close>

theorem stale_token_refused:
  assumes "policy_decode bytes = Inr p"
    and "admit p instances available guarantees = Some (Inr l0)"
    and "ledger_step\<^sup>*\<^sup>* l0 l"
    and "retire tok True l = (Inr x, t)" and "ledger_step\<^sup>*\<^sup>* t u"
  shows "member u tok = Inl Incarnation
    \<and> retire tok revoked u = (Inl Incarnation, u) \<and> quarantine tok u = (Inl Incarnation, u)"
proof -
  have ok: "accounts l" "roster l"
    using run_sound [OF assms(3) admit_result(1) [OF assms(1,2)]] by (simp_all add: sound_def)
  note st = retire_stale [OF ok assms(4)] and ag = run_ages [OF assms(5), unfolded ages_def]
  have "member u tok = Inl Incarnation"
  proof (cases "inc_subject tok < length (members u)")
    case True
    then have "older (members t ! inc_subject tok) (members u ! inc_subject tok)" using ag by simp
    then show ?thesis using st by (auto simp: older_def member_def)
  qed (simp add: member_def)
  then show ?thesis by (simp add: retire_def quarantine_def atomically_def)
qed

theorem stale_token_refused_witness:
  "\<exists>t. retire demo_token True demo_bound = (Inr (), t)
    \<and> member (snd (bind_with_maximum (demo_identity 2) t)) demo_token = Inl Incarnation"
proof -
  have "accounts demo_bound" "roster demo_bound"
    using run_sound [OF demo_run admit_result(1) [OF demo_decode demo_admit]] by (simp_all add: sound_def)
  moreover have "pending demo_bound = None" by (simp add: demo_bound_def demo_ledger_def)
  ultimately obtain t where t: "retire demo_token True demo_bound = (Inr (), t)"
    using retire_ok [OF _ _ demo_member] by auto
  have "ledger_step\<^sup>*\<^sup>* t (snd (bind_with_maximum (demo_identity 2) t))"
    by (intro r_into_rtranclp step_bind)
  from stale_token_refused [OF demo_decode demo_admit demo_run t this] t show ?thesis by blast
qed

end
