(* ===== verification/SharedBuffer.thy ===== *)
theory SharedBuffer
  imports FixedArray
begin

text \<open>
  The shared-buffer table of the root task (\<open>slime-root/src/shared_buffer.rs\<close>): regions of root-owned
  frames, their mappings and loans, per-holder quotas and charges, and the pages whose unmapping
  failed.  The kernel side is a parameter: \<open>SharedBufferAdapter\<close> holds the three functions of the
  trait over an arbitrary adapter state.  Operations that only change the table are functions of the
  table; the others also thread the adapter state.  Sizes and addresses (\<open>usize\<close>) are natural numbers
  with the checked additions of the code written out at 64 bits; counters keep their width.
\<close>

unbundle bit_operations_syntax

section \<open>Bounds and identities\<close>

definition PAGE_SIZE :: nat where "PAGE_SIZE = 4096"
definition MAX_BUFFER_PAGES :: nat where "MAX_BUFFER_PAGES = 64"
definition MAX_TOTAL_PAGES :: nat where "MAX_TOTAL_PAGES = 256"
definition MAX_SHARED_BUFFERS :: nat where "MAX_SHARED_BUFFERS = 32"
definition MAX_MAPPINGS :: nat where "MAX_MAPPINGS = 64"
definition MAX_MAPPING_PAGES :: nat where "MAX_MAPPING_PAGES = MAX_MAPPINGS * MAX_BUFFER_PAGES"
definition MAX_LOANS :: nat where "MAX_LOANS = 64"
definition MAX_FRAME_ANCHORS :: nat where "MAX_FRAME_ANCHORS = MAX_TOTAL_PAGES"
definition MAX_TEARDOWN_ACTIONS :: nat where
  "MAX_TEARDOWN_ACTIONS = MAX_MAPPING_PAGES + MAX_FRAME_ANCHORS * 2"
definition MAX_ORPHANS :: nat where "MAX_ORPHANS = MAX_MAPPING_PAGES"
definition MAX_CHARGE_HOLDERS :: nat where "MAX_CHARGE_HOLDERS = MAX_SHARED_BUFFERS + MAX_MAPPINGS"
definition USER_ADDRESS_CEILING :: nat where "USER_ADDRESS_CEILING = 2 ^ 38"

type_synonym HolderId = u64
type_synonym GenerationEpoch = u64
type_synonym BufferId = u64
type_synonym LoanId = u64
type_synonym FrameCap = nat
type_synonym VSpaceCap = nat

record HolderQuota =
  byte_pages :: u32
  buffer_count :: u32
  mapping_count :: u32
  loan_count :: u32

definition DENY :: HolderQuota where
  "DENY = \<lparr>byte_pages = 0, buffer_count = 0, mapping_count = 0, loan_count = 0\<rparr>"

record HolderOccupancy =
  occ_pages :: u32
  occ_buffers :: u32
  occ_mappings :: u32
  occ_loans :: u32

definition EMPTY :: HolderOccupancy where
  "EMPTY = \<lparr>occ_pages = 0, occ_buffers = 0, occ_mappings = 0, occ_loans = 0\<rparr>"

type_synonym BufferRights = u8

definition RIGHT_MAP :: BufferRights where "RIGHT_MAP = 1"
definition RIGHT_WRITE :: BufferRights where "RIGHT_WRITE = 2"
definition RIGHT_LOAN :: BufferRights where "RIGHT_LOAN = 4"
definition RIGHT_ALL :: BufferRights where "RIGHT_ALL = RIGHT_MAP OR RIGHT_WRITE OR RIGHT_LOAN"

definition contains :: "BufferRights \<Rightarrow> BufferRights \<Rightarrow> bool" where
  "contains r required \<longleftrightarrow> r AND required = required"

definition intersect :: "BufferRights \<Rightarrow> BufferRights \<Rightarrow> BufferRights" where
  "intersect r other = r AND other"

record BufferHandle =
  handle_id :: BufferId
  handle_epoch :: GenerationEpoch
  handle_rights :: BufferRights

definition handle_derive :: "BufferHandle \<Rightarrow> BufferRights \<Rightarrow> BufferHandle" where
  "handle_derive h r = h\<lparr>handle_rights := intersect (handle_rights h) r\<rparr>"

record LoanHandle =
  lh_id :: LoanId
  lh_buffer :: BufferId
  lh_epoch :: GenerationEpoch
  lh_receiver :: HolderId
  lh_writable :: bool

section \<open>Errors and actions\<close>

datatype AdapterError =
    MapConflict | OutOfMemory | InvalidCapability | FailedLookup | RevokeFailed | UnmapFailed
  | ReleaseFailed | Other

datatype SharedBufferError =
    BadSize | BadFrameAnchors | ObjectsExhausted | BytesExhausted | MappingsExhausted
  | LoansExhausted | ChargesExhausted | ActionListExhausted | QuotaExceeded | NotFound | WrongOwner
  | WrongReceiver | BadRange | RightsDenied | WriteDenied | NotSealed | EpochMismatch
  | IdentityExhausted | DuplicateFrameAnchor | OrphansExhausted | Adapter AdapterError
  | Rollback AdapterError AdapterError | Orphaned AdapterError AdapterError nat nat

datatype MappingRights = ReadOnly | ReadWrite

definition rights_writable :: "MappingRights \<Rightarrow> bool" where
  "rights_writable r \<longleftrightarrow> r = ReadWrite"

datatype AdapterAction =
    Unmap FrameCap VSpaceCap nat | Revoke FrameCap | ReleaseFrame FrameCap

record 'd SharedBufferAdapter =
  map_frame :: "FrameCap \<Rightarrow> VSpaceCap \<Rightarrow> nat \<Rightarrow> MappingRights \<Rightarrow> ('d, AdapterError, unit) sres"
  perform :: "AdapterAction \<Rightarrow> ('d, AdapterError, unit) sres"
  commit_releases :: "AdapterAction list \<Rightarrow> 'd \<Rightarrow> 'd"

text \<open>The action list is its live prefix; pushing past the capacity is refused.\<close>

definition action_push ::
  "AdapterAction \<Rightarrow> AdapterAction list \<Rightarrow> (SharedBufferError, AdapterAction list) res" where
  "action_push a acts =
     (if length acts = MAX_TEARDOWN_ACTIONS then Inl ActionListExhausted else Inr (acts @ [a]))"

section \<open>Records\<close>

record FrameAnchors =
  caps :: "FrameCap list"
  anchors_len :: nat

definition anchors_empty :: FrameAnchors where
  "anchors_empty = \<lparr>caps = replicate MAX_BUFFER_PAGES 0, anchors_len = 0\<rparr>"

primrec anchors_fill ::
  "(nat \<times> FrameCap) list \<Rightarrow> FrameAnchors \<Rightarrow> (SharedBufferError, FrameAnchors) res" where
  "anchors_fill [] a = Inr a"
| "anchors_fill (entry # rest) a =
     (let (index, cap) = entry
      in if cap = 0 \<or> cap \<in> set (take index (caps a)) then Inl BadFrameAnchors
         else anchors_fill rest (a\<lparr>caps := (caps a)[index := cap]\<rparr>))"

definition from_slice :: "FrameCap list \<Rightarrow> (SharedBufferError, FrameAnchors) res" where
  "from_slice cs =
     (if cs = [] \<or> MAX_BUFFER_PAGES < length cs then Inl BadSize
      else rbind (anchors_fill (List.enumerate 0 cs) anchors_empty)
             (\<lambda>a. Inr (a\<lparr>anchors_len := length cs\<rparr>)))"

definition anchors_get :: "FrameAnchors \<Rightarrow> nat \<Rightarrow> FrameCap option" where
  "anchors_get a index = (if index < anchors_len a then Some (caps a ! index) else None)"

record LoanFrames =
  lf_anchors :: FrameAnchors
  lf_offset :: nat
  lf_count :: nat
  lf_writable :: bool

definition loan_frames_get :: "LoanFrames \<Rightarrow> nat \<Rightarrow> FrameCap option" where
  "loan_frames_get f index =
     (if index < lf_count f then anchors_get (lf_anchors f) (lf_offset f + index) else None)"

record MappingRecord =
  map_holder :: HolderId
  map_buffer :: BufferId
  map_epoch :: GenerationEpoch
  map_vspace :: VSpaceCap
  map_base :: nat
  map_offset :: nat
  map_count :: nat
  map_rights :: MappingRights
  map_via :: "LoanId option"

record Region =
  region_id :: BufferId
  region_epoch :: GenerationEpoch
  owner :: HolderId
  anchors :: FrameAnchors
  region_rights :: BufferRights
  created_writable :: bool
  sealed :: bool
  released :: bool

record Orphan =
  orphan_frame :: FrameCap
  orphan_vspace :: VSpaceCap
  orphan_vaddr :: nat

record QuotaEntry =
  quota_holder :: HolderId
  quota_of :: HolderQuota

record Loan =
  loan_id :: LoanId
  loan_epoch :: GenerationEpoch
  loan_buffer :: BufferId
  lender :: HolderId
  loan_receiver :: HolderId
  loan_offset :: nat
  loan_pages :: nat
  loan_writable :: bool

record Charge =
  charge_holder :: HolderId
  charge_pages :: u32
  charge_buffers :: u32
  charge_mappings :: u32
  charge_loans :: u32

definition charge_is_empty :: "Charge \<Rightarrow> bool" where
  "charge_is_empty c \<longleftrightarrow>
     charge_pages c = 0 \<and> charge_buffers c = 0 \<and> charge_mappings c = 0 \<and> charge_loans c = 0"

record CreatePlan =
  plan_epoch :: GenerationEpoch
  plan_owner :: HolderId
  plan_anchors :: FrameAnchors
  plan_writable :: bool
  plan_slot :: nat
  plan_id :: BufferId
  plan_next_id :: u64

record MappingPlan =
  mp_slot :: nat
  mp_record :: MappingRecord
  mp_anchors :: FrameAnchors

record TeardownPlan =
  remove_mappings :: "bool list"
  remove_loans :: "bool list"
  remove_regions :: "bool list"

definition teardown_new :: TeardownPlan where
  "teardown_new =
     \<lparr>remove_mappings = replicate MAX_MAPPINGS False, remove_loans = replicate MAX_LOANS False,
      remove_regions = replicate MAX_SHARED_BUFFERS False\<rparr>"

record SharedBufferTable =
  table_epoch :: GenerationEpoch
  regions :: "Region option list"
  mappings :: "MappingRecord option list"
  loans :: "Loan option list"
  charges :: "Charge option list"
  quotas :: "QuotaEntry option list"
  orphans :: "Orphan option list"
  total_pages :: nat
  next_buffer_id :: u64
  next_loan_id :: u64

definition table_new :: "GenerationEpoch \<Rightarrow> SharedBufferTable" where
  "table_new e =
     \<lparr>table_epoch = e, regions = replicate MAX_SHARED_BUFFERS None,
      mappings = replicate MAX_MAPPINGS None, loans = replicate MAX_LOANS None,
      charges = replicate MAX_CHARGE_HOLDERS None, quotas = replicate MAX_CHARGE_HOLDERS None,
      orphans = replicate MAX_ORPHANS None, total_pages = 0, next_buffer_id = 1, next_loan_id = 1\<rparr>"

section \<open>Queries\<close>

definition live_count :: "SharedBufferTable \<Rightarrow> nat" where
  "live_count t = length (flatten (regions t))"

definition table_mapping_count :: "SharedBufferTable \<Rightarrow> nat" where
  "table_mapping_count t = length (flatten (mappings t))"

definition table_loan_count :: "SharedBufferTable \<Rightarrow> nat" where
  "table_loan_count t = length (flatten (loans t))"

definition orphan_count :: "SharedBufferTable \<Rightarrow> nat" where
  "orphan_count t = length (flatten (orphans t))"

definition quota_count :: "SharedBufferTable \<Rightarrow> nat" where
  "quota_count t = length (flatten (quotas t))"

definition charge :: "SharedBufferTable \<Rightarrow> HolderId \<Rightarrow> Charge option" where
  "charge t h = List.find (\<lambda>c. charge_holder c = h) (flatten (charges t))"

definition holder_pages :: "SharedBufferTable \<Rightarrow> HolderId \<Rightarrow> u32" where
  "holder_pages t h = (case charge t h of None \<Rightarrow> 0 | Some c \<Rightarrow> charge_pages c)"

definition holder_buffers :: "SharedBufferTable \<Rightarrow> HolderId \<Rightarrow> u32" where
  "holder_buffers t h = (case charge t h of None \<Rightarrow> 0 | Some c \<Rightarrow> charge_buffers c)"

definition holder_mappings :: "SharedBufferTable \<Rightarrow> HolderId \<Rightarrow> u32" where
  "holder_mappings t h = (case charge t h of None \<Rightarrow> 0 | Some c \<Rightarrow> charge_mappings c)"

definition holder_loans :: "SharedBufferTable \<Rightarrow> HolderId \<Rightarrow> u32" where
  "holder_loans t h = (case charge t h of None \<Rightarrow> 0 | Some c \<Rightarrow> charge_loans c)"

definition holder_occupancy :: "SharedBufferTable \<Rightarrow> HolderId \<Rightarrow> HolderOccupancy" where
  "holder_occupancy t h =
     (case charge t h of
        None \<Rightarrow> EMPTY
      | Some c \<Rightarrow> \<lparr>occ_pages = charge_pages c, occ_buffers = charge_buffers c,
          occ_mappings = charge_mappings c, occ_loans = charge_loans c\<rparr>)"

definition table_mapping :: "SharedBufferTable \<Rightarrow> nat \<Rightarrow> MappingRecord option" where
  "table_mapping t index = (if index < length (mappings t) then mappings t ! index else None)"

definition quota :: "SharedBufferTable \<Rightarrow> HolderId \<Rightarrow> HolderQuota" where
  "quota t h =
     (case List.find (\<lambda>e. quota_holder e = h) (flatten (quotas t)) of
        None \<Rightarrow> DENY | Some e \<Rightarrow> quota_of e)"

definition check_epoch :: "SharedBufferTable \<Rightarrow> GenerationEpoch \<Rightarrow> (SharedBufferError, unit) res" where
  "check_epoch t e = (if e = table_epoch t then Inr () else Inl EpochMismatch)"

definition live_region_slot :: "SharedBufferTable \<Rightarrow> BufferId \<Rightarrow> (SharedBufferError, nat) res" where
  "live_region_slot t i =
     ok_or NotFound (position (is_some_and (\<lambda>r. region_id r = i \<and> \<not> released r)) (regions t))"

definition live_region_any :: "SharedBufferTable \<Rightarrow> BufferId \<Rightarrow> (SharedBufferError, Region) res" where
  "live_region_any t i =
     ok_or NotFound
       (List.find (\<lambda>r. region_id r = i \<and> region_epoch r = table_epoch t) (flatten (regions t)))"

definition live_region :: "SharedBufferTable \<Rightarrow> BufferId \<Rightarrow> (SharedBufferError, Region) res" where
  "live_region t i =
     rbind (live_region_any t i) (\<lambda>r. if released r then Inl NotFound else Inr r)"

definition live_loan :: "SharedBufferTable \<Rightarrow> LoanId \<Rightarrow> (SharedBufferError, Loan) res" where
  "live_loan t i =
     ok_or NotFound (List.find (\<lambda>l. loan_id l = i \<and> loan_epoch l = table_epoch t) (flatten (loans t)))"

definition has_region_loans :: "SharedBufferTable \<Rightarrow> BufferId \<Rightarrow> bool" where
  "has_region_loans t i \<longleftrightarrow> list_ex (\<lambda>l. loan_buffer l = i) (flatten (loans t))"

definition charge_slot :: "SharedBufferTable \<Rightarrow> HolderId \<Rightarrow> nat option" where
  "charge_slot t h = position (is_some_and (\<lambda>c. charge_holder c = h)) (charges t)"

definition preflight_charge_slot ::
  "SharedBufferTable \<Rightarrow> HolderId \<Rightarrow> (SharedBufferError, unit) res" where
  "preflight_charge_slot t h =
     (if charge_slot t h \<noteq> None \<or> list_ex (\<lambda>c. c = None) (charges t) then Inr ()
      else Inl ChargesExhausted)"

section \<open>Charges and quotas\<close>

definition charge_positive ::
  "HolderId \<Rightarrow> u32 \<Rightarrow> u32 \<Rightarrow> u32 \<Rightarrow> u32 \<Rightarrow> (SharedBufferTable, SharedBufferError, unit) sres" where
  "charge_positive h pages buffers maps lns t =
     (case (case charge_slot t h of
              Some slot \<Rightarrow> Some slot | None \<Rightarrow> position (\<lambda>c. c = None) (charges t)) of
        None \<Rightarrow> (Inl ChargesExhausted, t)
      | Some slot \<Rightarrow>
          let c = (case charges t ! slot of
                Some c \<Rightarrow> c
              | None \<Rightarrow> \<lparr>charge_holder = h, charge_pages = 0, charge_buffers = 0,
                  charge_mappings = 0, charge_loans = 0\<rparr>)
          in (Inr (), t\<lparr>charges := (charges t)[slot := Some
                (c\<lparr>charge_pages := charge_pages c + pages,
                   charge_buffers := charge_buffers c + buffers,
                   charge_mappings := charge_mappings c + maps,
                   charge_loans := charge_loans c + lns\<rparr>)]\<rparr>))"

definition uncharge ::
  "HolderId \<Rightarrow> u32 \<Rightarrow> u32 \<Rightarrow> u32 \<Rightarrow> u32 \<Rightarrow> (SharedBufferTable, SharedBufferError, unit) sres" where
  "uncharge h pages buffers maps lns t =
     (case charge_slot t h of
        None \<Rightarrow> (Inl NotFound, t)
      | Some slot \<Rightarrow>
        (case charges t ! slot of
          None \<Rightarrow> (Inl NotFound, t)
        | Some c \<Rightarrow>
          let store = (\<lambda>c. t\<lparr>charges := (charges t)[slot := Some c]\<rparr>)
          in (case checked_sub (charge_pages c) pages of
              None \<Rightarrow> (Inl QuotaExceeded, t)
            | Some p \<Rightarrow>
            (case checked_sub (charge_buffers c) buffers of
              None \<Rightarrow> (Inl QuotaExceeded, store (c\<lparr>charge_pages := p\<rparr>))
            | Some b \<Rightarrow>
            (case checked_sub (charge_mappings c) maps of
              None \<Rightarrow> (Inl QuotaExceeded, store (c\<lparr>charge_pages := p, charge_buffers := b\<rparr>))
            | Some m \<Rightarrow>
            (case checked_sub (charge_loans c) lns of
              None \<Rightarrow> (Inl QuotaExceeded,
                store (c\<lparr>charge_pages := p, charge_buffers := b, charge_mappings := m\<rparr>))
            | Some l \<Rightarrow>
                let c' = c\<lparr>charge_pages := p, charge_buffers := b, charge_mappings := m,
                      charge_loans := l\<rparr>
                in (Inr (), if charge_is_empty c' then t\<lparr>charges := (charges t)[slot := None]\<rparr>
                            else store c')))))))"

definition declare_quota ::
  "HolderId \<Rightarrow> HolderQuota \<Rightarrow> (SharedBufferTable, SharedBufferError, unit) sres" where
  "declare_quota h q t =
     (case (case position (is_some_and (\<lambda>e. quota_holder e = h)) (quotas t) of
              Some slot \<Rightarrow> Some slot | None \<Rightarrow> position (\<lambda>e. e = None) (quotas t)) of
        None \<Rightarrow> (Inl ChargesExhausted, t)
      | Some slot \<Rightarrow>
          (Inr (), t\<lparr>quotas := (quotas t)[slot := Some \<lparr>quota_holder = h, quota_of = q\<rparr>]\<rparr>))"

definition release_quota :: "HolderId \<Rightarrow> SharedBufferTable \<Rightarrow> bool \<times> SharedBufferTable" where
  "release_quota h t =
     (case position (is_some_and (\<lambda>e. quota_holder e = h)) (quotas t) of
        None \<Rightarrow> (False, t)
      | Some slot \<Rightarrow> (True, t\<lparr>quotas := (quotas t)[slot := None]\<rparr>))"

text \<open>\<open>a.checked_add(b).is_none_or(|v| v > limit)\<close>, and \<open>checked_add\<close>/\<open>checked_mul\<close> on \<open>usize\<close>.\<close>

definition exceeds :: "u32 \<Rightarrow> u32 \<Rightarrow> u32 \<Rightarrow> bool" where
  "exceeds a b limit = (case checked_add a b of None \<Rightarrow> True | Some v \<Rightarrow> limit < v)"

definition usize_add :: "nat \<Rightarrow> nat \<Rightarrow> nat option" where
  "usize_add a b = (if a + b < 2 ^ 64 then Some (a + b) else None)"

definition usize_mul :: "nat \<Rightarrow> nat \<Rightarrow> nat option" where
  "usize_mul a b = (if a * b < 2 ^ 64 then Some (a * b) else None)"

definition usize_exceeds :: "nat \<Rightarrow> nat \<Rightarrow> nat \<Rightarrow> bool" where
  "usize_exceeds a b limit = (case usize_add a b of None \<Rightarrow> True | Some v \<Rightarrow> limit < v)"

definition try_u16 :: "nat \<Rightarrow> nat option" where
  "try_u16 n = (if n < 65536 then Some n else None)"

definition preflight_buffer_charge ::
  "SharedBufferTable \<Rightarrow> HolderId \<Rightarrow> nat \<Rightarrow> (SharedBufferError, unit) res" where
  "preflight_buffer_charge t h pages =
     (let q = quota t h
      in if 2 ^ 32 \<le> pages then Inl BadSize
         else if exceeds (holder_pages t h) (of_nat pages) (byte_pages q)
           \<or> exceeds (holder_buffers t h) 1 (buffer_count q)
         then Inl QuotaExceeded
         else if usize_exceeds (total_pages t) pages MAX_TOTAL_PAGES then Inl BytesExhausted
         else Inr ())"

section \<open>Creating a buffer\<close>

definition preflight_create_pages ::
  "SharedBufferTable \<Rightarrow> HolderId \<Rightarrow> nat \<Rightarrow> (SharedBufferError, unit) res" where
  "preflight_create_pages t h pages =
     (if pages = 0 \<or> MAX_BUFFER_PAGES < pages then Inl BadSize
      else rbind (preflight_buffer_charge t h pages) (\<lambda>_.
        if list_all (\<lambda>r. r \<noteq> None) (regions t) then Inl ObjectsExhausted
        else rbind (preflight_charge_slot t h) (\<lambda>_.
          rbind (ok_or IdentityExhausted (checked_add (next_buffer_id t) 1)) (\<lambda>_. Inr ()))))"

definition anchor_is_live :: "SharedBufferTable \<Rightarrow> FrameCap \<Rightarrow> bool" where
  "anchor_is_live t cap \<longleftrightarrow>
     list_ex (\<lambda>r. list_ex (\<lambda>i. anchors_get (anchors r) i = Some cap) [0..<anchors_len (anchors r)])
       (flatten (regions t))"

primrec anchor_check ::
  "SharedBufferTable \<Rightarrow> FrameAnchors \<Rightarrow> nat list \<Rightarrow> (SharedBufferError, unit) res" where
  "anchor_check t a [] = Inr ()"
| "anchor_check t a (index # rest) =
     rbind (ok_or BadFrameAnchors (anchors_get a index)) (\<lambda>cap.
     if anchor_is_live t cap then Inl DuplicateFrameAnchor else anchor_check t a rest)"

definition preflight_anchor_uniqueness ::
  "SharedBufferTable \<Rightarrow> FrameAnchors \<Rightarrow> (SharedBufferError, unit) res" where
  "preflight_anchor_uniqueness t a = anchor_check t a [0..<anchors_len a]"

definition preflight_create ::
  "SharedBufferTable \<Rightarrow> HolderId \<Rightarrow> FrameAnchors \<Rightarrow> bool \<Rightarrow> (SharedBufferError, CreatePlan) res" where
  "preflight_create t h a wr =
     rbind (preflight_create_pages t h (anchors_len a)) (\<lambda>_.
     rbind (preflight_anchor_uniqueness t a) (\<lambda>_.
     rbind (ok_or ObjectsExhausted (position (\<lambda>r. r = None) (regions t))) (\<lambda>slot.
     rbind (preflight_charge_slot t h) (\<lambda>_.
     rbind (ok_or IdentityExhausted (checked_add (next_buffer_id t) 1)) (\<lambda>next_id.
     Inr \<lparr>plan_epoch = table_epoch t, plan_owner = h, plan_anchors = a, plan_writable = wr,
       plan_slot = slot, plan_id = next_buffer_id t, plan_next_id = next_id\<rparr>)))))"

definition commit_create ::
  "CreatePlan \<Rightarrow> (SharedBufferTable, SharedBufferError, BufferHandle) sres" where
  "commit_create plan t =
     (let pages = anchors_len (plan_anchors plan);
          checks =
            (if plan_epoch plan \<noteq> table_epoch t then Inl EpochMismatch
             else if next_buffer_id t \<noteq> plan_id plan
               \<or> \<not> (plan_slot plan < length (regions t) \<and> regions t ! plan_slot plan = None)
             then Inl NotFound
             else rbind (preflight_anchor_uniqueness t (plan_anchors plan)) (\<lambda>_.
               rbind (preflight_buffer_charge t (plan_owner plan) pages) (\<lambda>_.
               preflight_charge_slot t (plan_owner plan))));
          r = (if plan_writable plan then RIGHT_ALL else RIGHT_MAP)
      in sbind (slift checks) (\<lambda>_.
         sbind (\<lambda>t. (Inr (), t\<lparr>regions := (regions t)[plan_slot plan := Some
               \<lparr>region_id = plan_id plan, region_epoch = plan_epoch plan, owner = plan_owner plan,
                anchors = plan_anchors plan, region_rights = r,
                created_writable = plan_writable plan, sealed = False, released = False\<rparr>],
             next_buffer_id := plan_next_id plan, total_pages := total_pages t + pages\<rparr>)) (\<lambda>_.
         sbind (charge_positive (plan_owner plan) (of_nat pages) 1 0 0) (\<lambda>_.
         sreturn \<lparr>handle_id = plan_id plan, handle_epoch = plan_epoch plan, handle_rights = r\<rparr>))) t)"

definition create ::
  "HolderId \<Rightarrow> FrameAnchors \<Rightarrow> bool \<Rightarrow> (SharedBufferTable, SharedBufferError, BufferHandle) sres" where
  "create h a wr t = sbind (slift (preflight_create t h a wr)) commit_create t"

section \<open>Authority and ranges\<close>

definition authorize ::
  "SharedBufferTable \<Rightarrow> HolderId \<Rightarrow> BufferHandle \<Rightarrow> BufferRights
     \<Rightarrow> (SharedBufferError, Region \<times> BufferRights) res" where
  "authorize t h handle required =
     rbind (check_epoch t (handle_epoch handle)) (\<lambda>_.
     rbind (live_region t (handle_id handle)) (\<lambda>r.
     if owner r \<noteq> h then Inl WrongOwner
     else if region_epoch r \<noteq> handle_epoch handle then Inl EpochMismatch
     else let effective = intersect (region_rights r) (handle_rights handle)
       in if \<not> contains effective required then Inl RightsDenied else Inr (r, effective)))"

definition authorize_loan ::
  "SharedBufferTable \<Rightarrow> HolderId \<Rightarrow> LoanHandle \<Rightarrow> (SharedBufferError, Loan) res" where
  "authorize_loan t h handle =
     rbind (check_epoch t (lh_epoch handle)) (\<lambda>_.
     if lh_receiver handle \<noteq> h then Inl WrongReceiver
     else rbind (live_loan t (lh_id handle)) (\<lambda>l.
       if loan_epoch l \<noteq> lh_epoch handle \<or> loan_buffer l \<noteq> lh_buffer handle then Inl NotFound
       else if loan_receiver l \<noteq> h then Inl WrongReceiver
       else Inr l))"

definition loan_frames ::
  "SharedBufferTable \<Rightarrow> HolderId \<Rightarrow> LoanHandle \<Rightarrow> (SharedBufferError, LoanFrames) res" where
  "loan_frames t h handle =
     rbind (authorize_loan t h handle) (\<lambda>l.
     rbind (live_region_any t (loan_buffer l)) (\<lambda>r.
     Inr \<lparr>lf_anchors = anchors r, lf_offset = loan_offset l, lf_count = loan_pages l,
       lf_writable = loan_writable l\<rparr>))"

definition validate_page_range :: "nat \<Rightarrow> nat \<Rightarrow> nat \<Rightarrow> (SharedBufferError, nat \<times> nat) res" where
  "validate_page_range offset len pages =
     (if len = 0 \<or> offset mod PAGE_SIZE \<noteq> 0 \<or> len mod PAGE_SIZE \<noteq> 0 then Inl BadRange
      else rbind (ok_or BadRange (usize_mul pages PAGE_SIZE)) (\<lambda>total_bytes.
        rbind (ok_or BadRange (usize_add offset len)) (\<lambda>e.
        if total_bytes < e then Inl BadRange else Inr (offset div PAGE_SIZE, len div PAGE_SIZE))))"

definition validate_mapping_range ::
  "Region \<Rightarrow> nat \<Rightarrow> nat \<Rightarrow> nat \<Rightarrow> (SharedBufferError, nat \<times> nat) res" where
  "validate_mapping_range r base offset len =
     (if base mod PAGE_SIZE \<noteq> 0 then Inl BadRange
      else rbind (ok_or BadRange (usize_add base len)) (\<lambda>e.
        if USER_ADDRESS_CEILING \<le> base \<or> USER_ADDRESS_CEILING < e then Inl BadRange
        else validate_page_range offset len (anchors_len (anchors r))))"

primrec sum_pages :: "MappingRecord list \<Rightarrow> nat \<Rightarrow> nat option" where
  "sum_pages [] acc = Some acc"
| "sum_pages (m # ms) acc = Option.bind (usize_add acc (map_count m)) (sum_pages ms)"

definition preflight_mapping ::
  "SharedBufferTable \<Rightarrow> HolderId \<Rightarrow> Region \<Rightarrow> VSpaceCap \<Rightarrow> nat \<Rightarrow> nat \<Rightarrow> nat \<Rightarrow> MappingRights
     \<Rightarrow> LoanId option \<Rightarrow> (SharedBufferError, MappingPlan) res" where
  "preflight_mapping t h r vspace base offset_pages page_count rights ln =
     (if exceeds (holder_mappings t h) 1 (mapping_count (quota t h)) then Inl QuotaExceeded
      else rbind (ok_or MappingsExhausted (position (\<lambda>m. m = None) (mappings t))) (\<lambda>slot.
        rbind (ok_or MappingsExhausted (sum_pages (flatten (mappings t)) (orphan_count t))) (\<lambda>admitted.
        if usize_exceeds admitted page_count MAX_MAPPING_PAGES then Inl MappingsExhausted
        else rbind (preflight_charge_slot t h) (\<lambda>_.
          rbind (ok_or BadRange (try_u16 offset_pages)) (\<lambda>off.
          rbind (ok_or BadRange (try_u16 page_count)) (\<lambda>n.
          Inr \<lparr>mp_slot = slot,
            mp_record = \<lparr>map_holder = h, map_buffer = region_id r, map_epoch = region_epoch r,
              map_vspace = vspace, map_base = base, map_offset = off, map_count = n,
              map_rights = rights, map_via = ln\<rparr>,
            mp_anchors = anchors r\<rparr>))))))"

section \<open>Installing a mapping\<close>

type_synonym 'd buffers = "SharedBufferTable \<times> 'd"

text \<open>A step of the table alone, and a call of the adapter.\<close>

definition on_table :: "(SharedBufferTable, 'e, 'a) sres \<Rightarrow> ('d buffers, 'e, 'a) sres" where
  "on_table m s = (case m (fst s) of (r, t) \<Rightarrow> (r, (t, snd s)))"

definition on_adapter :: "('d, AdapterError, 'a) sres \<Rightarrow> ('d buffers, SharedBufferError, 'a) sres" where
  "on_adapter m s = (case m (snd s) of (r, d) \<Rightarrow> (map_err Adapter r, (fst s, d)))"

definition record_orphan :: "Orphan \<Rightarrow> (SharedBufferTable, SharedBufferError, unit) sres" where
  "record_orphan o' t =
     (if list_ex (\<lambda>held. held = o') (flatten (orphans t)) then (Inr (), t)
      else case position (\<lambda>e. e = None) (orphans t) of
          None \<Rightarrow> (Inl OrphansExhausted, t)
        | Some slot \<Rightarrow> (Inr (), t\<lparr>orphans := (orphans t)[slot := Some o']\<rparr>))"

text \<open>Undoing the pages already mapped: the first failure is kept, and every page that stays mapped
  is recorded as an orphan or counted as unrecorded.\<close>

primrec rollback_pages ::
  "'d SharedBufferAdapter \<Rightarrow> MappingPlan \<Rightarrow> AdapterError \<Rightarrow> nat list \<Rightarrow> AdapterError option \<Rightarrow> nat \<Rightarrow> nat
     \<Rightarrow> ('d buffers, SharedBufferError, unit) sres" where
  "rollback_pages A plan cause [] err orphaned unrecorded s =
     (Inl (case err of Some rb \<Rightarrow> Orphaned cause rb orphaned unrecorded | None \<Rightarrow> Adapter cause), s)"
| "rollback_pages A plan cause (page # rest) err orphaned unrecorded s =
     (case anchors_get (mp_anchors plan) (map_offset (mp_record plan) + page) of
        None \<Rightarrow> (Inl BadRange, s)
      | Some frame \<Rightarrow>
        let vaddr = map_base (mp_record plan) + page * PAGE_SIZE;
            vspace = map_vspace (mp_record plan)
        in (case perform A (Unmap frame vspace vaddr) (snd s) of
            (Inr _, d) \<Rightarrow> rollback_pages A plan cause rest err orphaned unrecorded (fst s, d)
          | (Inl rb, d) \<Rightarrow>
              let err' = Some (case err of Some e \<Rightarrow> e | None \<Rightarrow> rb)
              in (case record_orphan
                      \<lparr>orphan_frame = frame, orphan_vspace = vspace, orphan_vaddr = vaddr\<rparr> (fst s) of
                  (Inr _, t) \<Rightarrow> rollback_pages A plan cause rest err' (orphaned + 1) unrecorded (t, d)
                | (Inl e, t) \<Rightarrow>
                    if e = OrphansExhausted
                    then rollback_pages A plan cause rest err' orphaned (unrecorded + 1) (t, d)
                    else (Inl e, (t, d)))))"

primrec map_pages ::
  "'d SharedBufferAdapter \<Rightarrow> MappingPlan \<Rightarrow> nat list \<Rightarrow> ('d buffers, SharedBufferError, unit) sres" where
  "map_pages A plan [] s = (Inr (), s)"
| "map_pages A plan (page # rest) s =
     (case anchors_get (mp_anchors plan) (map_offset (mp_record plan) + page) of
        None \<Rightarrow> (Inl BadRange, s)
      | Some frame \<Rightarrow>
        (case usize_add (map_base (mp_record plan)) (page * PAGE_SIZE) of
          None \<Rightarrow> (Inl BadRange, s)
        | Some vaddr \<Rightarrow>
          (case map_frame A frame (map_vspace (mp_record plan)) vaddr (map_rights (mp_record plan)) (snd s) of
            (Inr _, d) \<Rightarrow> map_pages A plan rest (fst s, d)
          | (Inl cause, d) \<Rightarrow>
              rollback_pages A plan cause (rev [0..<page]) None 0 0 (fst s, d))))"

definition execute_mapping ::
  "'d SharedBufferAdapter \<Rightarrow> MappingPlan \<Rightarrow> ('d buffers, SharedBufferError, unit) sres" where
  "execute_mapping A plan =
     sbind (map_pages A plan [0..<map_count (mp_record plan)]) (\<lambda>_.
     sbind (on_table (\<lambda>t. (Inr (), t\<lparr>mappings := (mappings t)[mp_slot plan := Some (mp_record plan)]\<rparr>))) (\<lambda>_.
     on_table (charge_positive (map_holder (mp_record plan)) 0 0 1 0)))"

definition sb_map ::
  "'d SharedBufferAdapter \<Rightarrow> HolderId \<Rightarrow> BufferHandle \<Rightarrow> VSpaceCap \<Rightarrow> nat \<Rightarrow> nat \<Rightarrow> nat \<Rightarrow> MappingRights
     \<Rightarrow> ('d buffers, SharedBufferError, unit) sres" where
  "sb_map A h handle vspace base offset len rights s =
     (let t = fst s;
          required = (if rights_writable rights then RIGHT_MAP OR RIGHT_WRITE else RIGHT_MAP)
      in sbind (slift
           (rbind (authorize t h handle required) (\<lambda>(r, _).
            rbind (validate_mapping_range r base offset len) (\<lambda>(offset_pages, page_count).
            if rights_writable rights \<and> (\<not> created_writable r \<or> sealed r) then Inl WriteDenied
            else preflight_mapping t h r vspace base offset_pages page_count rights None))))
         (execute_mapping A) s)"

definition map_loan ::
  "'d SharedBufferAdapter \<Rightarrow> HolderId \<Rightarrow> LoanHandle \<Rightarrow> VSpaceCap \<Rightarrow> nat \<Rightarrow> nat \<Rightarrow> nat
     \<Rightarrow> ('d buffers, SharedBufferError, unit) sres" where
  "map_loan A h handle vspace base relative_offset len s =
     (let t = fst s
      in sbind (slift
           (rbind (authorize_loan t h handle) (\<lambda>l.
            rbind (validate_page_range relative_offset len (loan_pages l)) (\<lambda>(relative_pages, _).
            rbind (ok_or BadRange (usize_add (loan_offset l) relative_pages)) (\<lambda>absolute_pages.
            rbind (live_region_any t (loan_buffer l)) (\<lambda>r.
            rbind (ok_or BadRange (usize_mul absolute_pages PAGE_SIZE)) (\<lambda>absolute_offset.
            rbind (validate_mapping_range r base absolute_offset len) (\<lambda>(_, page_count).
            preflight_mapping t h r vspace base absolute_pages page_count
              (if loan_writable l then ReadWrite else ReadOnly) (Some (loan_id l))))))))))
         (execute_mapping A) s)"

section \<open>Lending\<close>

definition loan ::
  "HolderId \<Rightarrow> HolderId \<Rightarrow> BufferHandle \<Rightarrow> nat \<Rightarrow> nat \<Rightarrow> bool
     \<Rightarrow> (SharedBufferTable, SharedBufferError, LoanHandle) sres" where
  "loan from_h to_h handle offset len wr t =
     (let required = (if wr then RIGHT_LOAN OR RIGHT_WRITE else RIGHT_LOAN)
      in sbind (slift
           (rbind (authorize t from_h handle required) (\<lambda>(r, _).
            rbind (if wr then (if sealed r \<or> \<not> created_writable r then Inl WriteDenied else Inr ())
                   else if \<not> sealed r then Inl NotSealed else Inr ()) (\<lambda>_.
            rbind (validate_page_range offset len (anchors_len (anchors r))) (\<lambda>(offset_pages, page_count).
            if exceeds (holder_loans t from_h) 1 (loan_count (quota t from_h)) then Inl QuotaExceeded
            else rbind (ok_or LoansExhausted (position (\<lambda>l. l = None) (loans t))) (\<lambda>slot.
              rbind (preflight_charge_slot t from_h) (\<lambda>_.
              rbind (ok_or IdentityExhausted (checked_add (next_loan_id t) 1)) (\<lambda>next_id.
              rbind (ok_or BadRange (try_u16 offset_pages)) (\<lambda>off.
              rbind (ok_or BadRange (try_u16 page_count)) (\<lambda>n.
              Inr (slot, next_id, \<lparr>loan_id = next_loan_id t, loan_epoch = table_epoch t,
                loan_buffer = handle_id handle, lender = from_h, loan_receiver = to_h,
                loan_offset = off, loan_pages = n, loan_writable = wr\<rparr>)))))))))))
         (\<lambda>(slot, next_id, l).
            sbind (\<lambda>t. (Inr (), t\<lparr>loans := (loans t)[slot := Some l], next_loan_id := next_id\<rparr>)) (\<lambda>_.
            sbind (charge_positive from_h 0 0 0 1) (\<lambda>_.
            sreturn \<lparr>lh_id = loan_id l, lh_buffer = handle_id handle, lh_epoch = loan_epoch l,
              lh_receiver = to_h, lh_writable = wr\<rparr>))) t)"

section \<open>Sealing\<close>

text \<open>The loops of \<open>remap_mapping\<close>: mapping or unmapping the listed pages of one mapping again while
  undoing, where a second failure ends in a rollback error.\<close>

primrec restore_pages ::
  "'d SharedBufferAdapter \<Rightarrow> Region \<Rightarrow> MappingRecord \<Rightarrow> MappingRights \<Rightarrow> AdapterError \<Rightarrow> nat list
     \<Rightarrow> ('d, SharedBufferError, unit) sres" where
  "restore_pages A r m rights cause [] d = (Inr (), d)"
| "restore_pages A r m rights cause (page # rest) d =
     (case anchors_get (anchors r) (map_offset m + page) of
        None \<Rightarrow> (Inl BadRange, d)
      | Some frame \<Rightarrow>
        (case map_frame A frame (map_vspace m) (map_base m + page * PAGE_SIZE) rights d of
          (Inl rb, d) \<Rightarrow> (Inl (Rollback cause rb), d)
        | (Inr _, d) \<Rightarrow> restore_pages A r m rights cause rest d))"

primrec remove_pages ::
  "'d SharedBufferAdapter \<Rightarrow> Region \<Rightarrow> MappingRecord \<Rightarrow> AdapterError \<Rightarrow> nat list
     \<Rightarrow> ('d, SharedBufferError, unit) sres" where
  "remove_pages A r m cause [] d = (Inr (), d)"
| "remove_pages A r m cause (page # rest) d =
     (case anchors_get (anchors r) (map_offset m + page) of
        None \<Rightarrow> (Inl BadRange, d)
      | Some frame \<Rightarrow>
        (case perform A (Unmap frame (map_vspace m) (map_base m + page * PAGE_SIZE)) d of
          (Inl rb, d) \<Rightarrow> (Inl (Rollback cause rb), d)
        | (Inr _, d) \<Rightarrow> remove_pages A r m cause rest d))"

primrec remap_unmap ::
  "'d SharedBufferAdapter \<Rightarrow> Region \<Rightarrow> MappingRecord \<Rightarrow> MappingRights \<Rightarrow> nat list
     \<Rightarrow> ('d, SharedBufferError, unit) sres" where
  "remap_unmap A r m rollback_rights [] d = (Inr (), d)"
| "remap_unmap A r m rollback_rights (page # rest) d =
     (case anchors_get (anchors r) (map_offset m + page) of
        None \<Rightarrow> (Inl BadRange, d)
      | Some frame \<Rightarrow>
        (case perform A (Unmap frame (map_vspace m) (map_base m + page * PAGE_SIZE)) d of
          (Inr _, d) \<Rightarrow> remap_unmap A r m rollback_rights rest d
        | (Inl cause, d) \<Rightarrow>
            sbind (restore_pages A r m rollback_rights cause [0..<page]) (\<lambda>_. sfail (Adapter cause)) d))"

primrec remap_map ::
  "'d SharedBufferAdapter \<Rightarrow> Region \<Rightarrow> MappingRecord \<Rightarrow> MappingRights \<Rightarrow> MappingRights \<Rightarrow> nat list
     \<Rightarrow> ('d, SharedBufferError, unit) sres" where
  "remap_map A r m target_rights rollback_rights [] d = (Inr (), d)"
| "remap_map A r m target_rights rollback_rights (page # rest) d =
     (case anchors_get (anchors r) (map_offset m + page) of
        None \<Rightarrow> (Inl BadRange, d)
      | Some frame \<Rightarrow>
        (case map_frame A frame (map_vspace m) (map_base m + page * PAGE_SIZE) target_rights d of
          (Inr _, d) \<Rightarrow> remap_map A r m target_rights rollback_rights rest d
        | (Inl cause, d) \<Rightarrow>
            sbind (remove_pages A r m cause [0..<page]) (\<lambda>_.
            sbind (restore_pages A r m rollback_rights cause [0..<map_count m]) (\<lambda>_.
            sfail (Adapter cause))) d))"

definition remap_mapping ::
  "'d SharedBufferAdapter \<Rightarrow> Region \<Rightarrow> MappingRecord \<Rightarrow> MappingRights \<Rightarrow> MappingRights
     \<Rightarrow> ('d, SharedBufferError, unit) sres" where
  "remap_mapping A r m target_rights rollback_rights =
     sbind (remap_unmap A r m rollback_rights [0..<map_count m]) (\<lambda>_.
     remap_map A r m target_rights rollback_rights [0..<map_count m])"

definition adapter_cause :: "SharedBufferError \<Rightarrow> AdapterError" where
  "adapter_cause e = (case e of Adapter a \<Rightarrow> a | Rollback cause _ \<Rightarrow> cause | _ \<Rightarrow> Other)"

text \<open>The slots are passed in the order the loop visits them, which is reversed.\<close>

primrec rollback_seal ::
  "'d SharedBufferAdapter \<Rightarrow> SharedBufferTable \<Rightarrow> Region \<Rightarrow> nat list \<Rightarrow> ('d, AdapterError, unit) sres" where
  "rollback_seal A t r [] d = (Inr (), d)"
| "rollback_seal A t r (slot # rest) d =
     (case mappings t ! slot of
        None \<Rightarrow> (Inl Other, d)
      | Some m \<Rightarrow>
        (case remap_mapping A r m ReadWrite ReadOnly d of
          (Inl e, d) \<Rightarrow> (Inl (adapter_cause e), d)
        | (Inr _, d) \<Rightarrow> rollback_seal A t r rest d))"

primrec seal_loop ::
  "'d SharedBufferAdapter \<Rightarrow> SharedBufferTable \<Rightarrow> Region \<Rightarrow> nat list \<Rightarrow> nat list
     \<Rightarrow> ('d, SharedBufferError, unit) sres" where
  "seal_loop A t r converted [] d = (Inr (), d)"
| "seal_loop A t r converted (slot # rest) d =
     (case mappings t ! slot of
        None \<Rightarrow> (Inl NotFound, d)
      | Some m \<Rightarrow>
        (case remap_mapping A r m ReadOnly (map_rights m) d of
          (Inr _, d) \<Rightarrow> seal_loop A t r (converted @ [slot]) rest d
        | (Inl cause, d) \<Rightarrow>
            (case rollback_seal A t r (rev converted) d of
              (Inr _, d) \<Rightarrow> (Inl cause, d)
            | (Inl rb, d) \<Rightarrow> (Inl (Rollback (adapter_cause cause) rb), d))))"

definition writable_slots :: "SharedBufferTable \<Rightarrow> BufferId \<Rightarrow> nat list" where
  "writable_slots t i =
     filter (\<lambda>slot. is_some_and (\<lambda>m. map_buffer m = i \<and> map_rights m = ReadWrite) (mappings t ! slot))
       [0..<length (mappings t)]"

primrec make_read_only :: "nat list \<Rightarrow> (SharedBufferTable, SharedBufferError, unit) sres" where
  "make_read_only [] t = (Inr (), t)"
| "make_read_only (slot # rest) t =
     (case mappings t ! slot of
        None \<Rightarrow> (Inl NotFound, t)
      | Some m \<Rightarrow> make_read_only rest
          (t\<lparr>mappings := (mappings t)[slot := Some (m\<lparr>map_rights := ReadOnly\<rparr>)]\<rparr>))"

definition update_region ::
  "nat \<Rightarrow> (Region \<Rightarrow> Region) \<Rightarrow> (SharedBufferTable, SharedBufferError, unit) sres" where
  "update_region slot f t =
     (case regions t ! slot of
        None \<Rightarrow> (Inl NotFound, t)
      | Some r \<Rightarrow> (Inr (), t\<lparr>regions := (regions t)[slot := Some (f r)]\<rparr>))"

definition seal ::
  "'d SharedBufferAdapter \<Rightarrow> HolderId \<Rightarrow> BufferHandle \<Rightarrow> ('d buffers, SharedBufferError, unit) sres" where
  "seal A h handle s =
     (let t = fst s
      in case rbind (authorize t h handle RIGHT_WRITE) (\<lambda>(r, _).
           rbind (live_region_slot t (handle_id handle)) (\<lambda>slot. Inr (r, slot))) of
          Inl e \<Rightarrow> (Inl e, s)
        | Inr (r, slot) \<Rightarrow>
            if sealed r then (Inr (), s)
            else let slots = writable_slots t (handle_id handle)
              in (case seal_loop A t r [] slots (snd s) of
                  (Inl e, d) \<Rightarrow> (Inl e, (t, d))
                | (Inr _, d) \<Rightarrow>
                    on_table (sbind (make_read_only slots) (\<lambda>_.
                      update_region slot (\<lambda>r. r\<lparr>sealed := True\<rparr>))) (t, d)))"

section \<open>Teardown plans\<close>

primrec push_all ::
  "(nat \<Rightarrow> (SharedBufferError, AdapterAction) res) \<Rightarrow> nat list \<Rightarrow> AdapterAction list
     \<Rightarrow> (SharedBufferError, AdapterAction list) res" where
  "push_all f [] acts = Inr acts"
| "push_all f (page # rest) acts =
     rbind (f page) (\<lambda>a. rbind (action_push a acts) (push_all f rest))"

definition append_mapping_actions ::
  "SharedBufferTable \<Rightarrow> nat \<Rightarrow> AdapterAction list \<Rightarrow> (SharedBufferError, AdapterAction list) res" where
  "append_mapping_actions t slot acts =
     rbind (ok_or NotFound (mappings t ! slot)) (\<lambda>m.
     rbind (live_region_any t (map_buffer m)) (\<lambda>r.
     push_all (\<lambda>page. rbind (ok_or BadRange (anchors_get (anchors r) (map_offset m + page)))
         (\<lambda>frame. Inr (Unmap frame (map_vspace m) (map_base m + page * PAGE_SIZE))))
       [0..<map_count m] acts))"

primrec append_frames ::
  "(FrameCap \<Rightarrow> AdapterAction) \<Rightarrow> SharedBufferTable \<Rightarrow> TeardownPlan \<Rightarrow> nat list \<Rightarrow> AdapterAction list
     \<Rightarrow> (SharedBufferError, AdapterAction list) res" where
  "append_frames f t plan [] acts = Inr acts"
| "append_frames f t plan (slot # rest) acts =
     (if \<not> remove_regions plan ! slot then append_frames f t plan rest acts
      else rbind (ok_or NotFound (regions t ! slot)) (\<lambda>r.
        rbind (push_all (\<lambda>page. rbind (ok_or BadFrameAnchors (anchors_get (anchors r) page))
            (\<lambda>frame. Inr (f frame))) [0..<anchors_len (anchors r)] acts)
          (append_frames f t plan rest)))"

definition append_region_reclamation ::
  "SharedBufferTable \<Rightarrow> TeardownPlan \<Rightarrow> AdapterAction list \<Rightarrow> (SharedBufferError, AdapterAction list) res"
  where
  "append_region_reclamation t plan acts =
     rbind (append_frames Revoke t plan [0..<length (regions t)] acts)
       (append_frames ReleaseFrame t plan [0..<length (regions t)])"

primrec append_mappings ::
  "SharedBufferTable \<Rightarrow> TeardownPlan \<Rightarrow> nat list \<Rightarrow> AdapterAction list
     \<Rightarrow> (SharedBufferError, AdapterAction list) res" where
  "append_mappings t plan [] acts = Inr acts"
| "append_mappings t plan (slot # rest) acts =
     (if remove_mappings plan ! slot
      then rbind (append_mapping_actions t slot acts) (append_mappings t plan rest)
      else append_mappings t plan rest acts)"

definition build_actions ::
  "SharedBufferTable \<Rightarrow> TeardownPlan \<Rightarrow> (SharedBufferError, AdapterAction list) res" where
  "build_actions t plan =
     rbind (append_mappings t plan [0..<length (mappings t)] []) (append_region_reclamation t plan)"

text \<open>Marking slots: one pass over the slots of a table, in order.\<close>

definition mark :: "('a \<Rightarrow> bool) \<Rightarrow> 'a option list \<Rightarrow> bool list \<Rightarrow> bool list" where
  "mark P xs flags =
     fold (\<lambda>slot flags. if is_some_and P (xs ! slot) then flags[slot := True] else flags)
       [0..<length xs] flags"

definition loans_remain :: "SharedBufferTable \<Rightarrow> TeardownPlan \<Rightarrow> BufferId \<Rightarrow> bool" where
  "loans_remain t plan i \<longleftrightarrow>
     list_ex (\<lambda>slot. \<not> remove_loans plan ! slot \<and> is_some_and (\<lambda>l. loan_buffer l = i) (loans t ! slot))
       [0..<length (loans t)]"

definition complete_region :: "SharedBufferTable \<Rightarrow> nat \<Rightarrow> TeardownPlan \<Rightarrow> TeardownPlan" where
  "complete_region t slot plan =
     (case regions t ! slot of
        None \<Rightarrow> plan
      | Some r \<Rightarrow>
          if released r \<and> \<not> loans_remain t plan (region_id r) \<or> remove_regions plan ! slot
          then plan\<lparr>remove_regions := (remove_regions plan)[slot := True],
            remove_mappings :=
              mark (\<lambda>m. map_buffer m = region_id r) (mappings t) (remove_mappings plan)\<rparr>
          else plan)"

definition complete_region_removals :: "SharedBufferTable \<Rightarrow> TeardownPlan \<Rightarrow> TeardownPlan" where
  "complete_region_removals t plan = fold (complete_region t) [0..<length (regions t)] plan"

definition settles_mapping :: "SharedBufferTable \<Rightarrow> TeardownPlan \<Rightarrow> MappingRecord \<Rightarrow> bool" where
  "settles_mapping t plan m \<longleftrightarrow>
     is_some_and (\<lambda>i. list_ex (\<lambda>slot. remove_loans plan ! slot
         \<and> is_some_and (\<lambda>l. loan_id l = i) (loans t ! slot)) [0..<length (loans t)]) (map_via m)"

definition plan_settle_loans :: "SharedBufferTable \<Rightarrow> (Loan \<Rightarrow> bool) \<Rightarrow> TeardownPlan" where
  "plan_settle_loans t P =
     (let plan = teardown_new\<lparr>remove_loans := mark P (loans t) (remove_loans teardown_new)\<rparr>
      in complete_region_removals t
           (plan\<lparr>remove_mappings := mark (settles_mapping t plan) (mappings t) (remove_mappings plan)\<rparr>))"

section \<open>Executing a teardown\<close>

definition reclaims :: "FrameCap \<Rightarrow> AdapterAction \<Rightarrow> bool" where
  "reclaims frame a = (case a of Revoke f \<Rightarrow> f = frame | ReleaseFrame f \<Rightarrow> f = frame | _ \<Rightarrow> False)"

primrec settle_orphans ::
  "'d SharedBufferAdapter \<Rightarrow> (Orphan \<Rightarrow> bool) \<Rightarrow> nat list \<Rightarrow> ('d buffers, SharedBufferError, unit) sres" where
  "settle_orphans A P [] s = (Inr (), s)"
| "settle_orphans A P (slot # rest) s =
     (case orphans (fst s) ! slot of
        None \<Rightarrow> settle_orphans A P rest s
      | Some o' \<Rightarrow>
          if \<not> P o' then settle_orphans A P rest s
          else (case perform A (Unmap (orphan_frame o') (orphan_vspace o') (orphan_vaddr o')) (snd s) of
              (Inl e, d) \<Rightarrow> (Inl (Adapter e), (fst s, d))
            | (Inr _, d) \<Rightarrow> settle_orphans A P rest
                ((fst s)\<lparr>orphans := (orphans (fst s))[slot := None]\<rparr>, d)))"

primrec perform_all ::
  "'d SharedBufferAdapter \<Rightarrow> AdapterAction list \<Rightarrow> ('d buffers, SharedBufferError, unit) sres" where
  "perform_all A [] = sreturn ()"
| "perform_all A (a # rest) = sbind (on_adapter (perform A a)) (\<lambda>_. perform_all A rest)"

definition run_actions ::
  "'d SharedBufferAdapter \<Rightarrow> AdapterAction list \<Rightarrow> ('d buffers, SharedBufferError, unit) sres" where
  "run_actions A acts s =
     sbind (settle_orphans A (\<lambda>o'. list_ex (reclaims (orphan_frame o')) acts)
         [0..<length (orphans (fst s))])
       (\<lambda>_. perform_all A acts) s"

primrec commit_mappings ::
  "TeardownPlan \<Rightarrow> nat list \<Rightarrow> (SharedBufferTable, SharedBufferError, unit) sres" where
  "commit_mappings plan [] = sreturn ()"
| "commit_mappings plan (slot # rest) =
     (if remove_mappings plan ! slot
      then (\<lambda>t. case mappings t ! slot of
          None \<Rightarrow> (Inl NotFound, t)
        | Some m \<Rightarrow> sbind (uncharge (map_holder m) 0 0 1 0) (\<lambda>_. commit_mappings plan rest)
            (t\<lparr>mappings := (mappings t)[slot := None]\<rparr>))
      else commit_mappings plan rest)"

primrec commit_loans ::
  "TeardownPlan \<Rightarrow> nat list \<Rightarrow> (SharedBufferTable, SharedBufferError, unit) sres" where
  "commit_loans plan [] = sreturn ()"
| "commit_loans plan (slot # rest) =
     (if remove_loans plan ! slot
      then (\<lambda>t. case loans t ! slot of
          None \<Rightarrow> (Inl NotFound, t)
        | Some l \<Rightarrow> sbind (uncharge (lender l) 0 0 0 1) (\<lambda>_. commit_loans plan rest)
            (t\<lparr>loans := (loans t)[slot := None]\<rparr>))
      else commit_loans plan rest)"

primrec commit_regions ::
  "TeardownPlan \<Rightarrow> nat list \<Rightarrow> (SharedBufferTable, SharedBufferError, unit) sres" where
  "commit_regions plan [] = sreturn ()"
| "commit_regions plan (slot # rest) =
     (if remove_regions plan ! slot
      then (\<lambda>t. case regions t ! slot of
          None \<Rightarrow> (Inl NotFound, t)
        | Some r \<Rightarrow>
            let t = t\<lparr>regions := (regions t)[slot := None]\<rparr>; n = anchors_len (anchors r)
            in if total_pages t < n then (Inl BadSize, t)
               else sbind (uncharge (owner r) (of_nat n) 1 0 0) (\<lambda>_. commit_regions plan rest)
                 (t\<lparr>total_pages := total_pages t - n\<rparr>))
      else commit_regions plan rest)"

definition commit_teardown ::
  "TeardownPlan \<Rightarrow> (SharedBufferTable, SharedBufferError, unit) sres" where
  "commit_teardown plan t =
     sbind (commit_mappings plan [0..<length (mappings t)]) (\<lambda>_.
     sbind (commit_loans plan [0..<length (loans t)]) (\<lambda>_.
     commit_regions plan [0..<length (regions t)])) t"

definition execute_teardown ::
  "'d SharedBufferAdapter \<Rightarrow> AdapterAction list \<Rightarrow> TeardownPlan
     \<Rightarrow> ('d buffers, SharedBufferError, AdapterAction list) sres" where
  "execute_teardown A acts plan =
     sbind (run_actions A acts) (\<lambda>_.
     sbind (on_table (commit_teardown plan)) (\<lambda>_.
     (\<lambda>s. (Inr acts, (fst s, commit_releases A acts (snd s))))))"

section \<open>The operations that tear down\<close>

definition unmap_authorized ::
  "'d SharedBufferAdapter \<Rightarrow> HolderId \<Rightarrow> BufferHandle \<Rightarrow> VSpaceCap \<Rightarrow> nat \<Rightarrow> bool
     \<Rightarrow> ('d buffers, SharedBufferError, unit) sres" where
  "unmap_authorized A h handle vspace base through_loan s =
     (let t = fst s
      in sbind (slift
           (rbind (if \<not> through_loan then rbind (authorize t h handle RIGHT_MAP) (\<lambda>_. Inr ()) else Inr ()) (\<lambda>_.
            rbind (ok_or NotFound (position (is_some_and (\<lambda>m. map_holder m = h
                \<and> map_buffer m = handle_id handle \<and> map_epoch m = handle_epoch handle
                \<and> map_vspace m = vspace \<and> map_base m = base
                \<and> (map_via m \<noteq> None) = through_loan)) (mappings t))) (\<lambda>slot.
            rbind (append_mapping_actions t slot []) (\<lambda>acts. Inr (slot, acts))))))
         (\<lambda>(slot, acts). sbind (execute_teardown A acts
            (teardown_new\<lparr>remove_mappings := (remove_mappings teardown_new)[slot := True]\<rparr>)) (\<lambda>_. sreturn ())) s)"

definition unmap ::
  "'d SharedBufferAdapter \<Rightarrow> HolderId \<Rightarrow> BufferHandle \<Rightarrow> VSpaceCap \<Rightarrow> nat
     \<Rightarrow> ('d buffers, SharedBufferError, unit) sres" where
  "unmap A h handle vspace base = unmap_authorized A h handle vspace base False"

definition unmap_loan ::
  "'d SharedBufferAdapter \<Rightarrow> HolderId \<Rightarrow> LoanHandle \<Rightarrow> VSpaceCap \<Rightarrow> nat
     \<Rightarrow> ('d buffers, SharedBufferError, unit) sres" where
  "unmap_loan A h handle vspace base s =
     sbind (slift (authorize_loan (fst s) h handle)) (\<lambda>l.
       unmap_authorized A h \<lparr>handle_id = loan_buffer l, handle_epoch = loan_epoch l,
         handle_rights = RIGHT_MAP\<rparr> vspace base True) s"

definition teardown ::
  "'d SharedBufferAdapter \<Rightarrow> (SharedBufferError, TeardownPlan) res
     \<Rightarrow> ('d buffers, SharedBufferError, AdapterAction list) sres" where
  "teardown A planned s =
     sbind (slift (rbind planned (\<lambda>plan.
         rbind (build_actions (fst s) plan) (\<lambda>acts. Inr (plan, acts)))))
       (\<lambda>(plan, acts). execute_teardown A acts plan) s"

definition return_loan ::
  "'d SharedBufferAdapter \<Rightarrow> HolderId \<Rightarrow> LoanHandle \<Rightarrow> ('d buffers, SharedBufferError, unit) sres" where
  "return_loan A h handle s =
     sbind (teardown A (rbind (authorize_loan (fst s) h handle) (\<lambda>l.
         Inr (plan_settle_loans (fst s) (\<lambda>c. loan_id c = loan_id l))))) (\<lambda>_. sreturn ()) s"

definition revoke_loan ::
  "'d SharedBufferAdapter \<Rightarrow> HolderId \<Rightarrow> LoanHandle \<Rightarrow> ('d buffers, SharedBufferError, unit) sres" where
  "revoke_loan A h handle s =
     (let t = fst s
      in sbind (teardown A
           (rbind (check_epoch t (lh_epoch handle)) (\<lambda>_.
            rbind (live_loan t (lh_id handle)) (\<lambda>l.
            if loan_buffer l \<noteq> lh_buffer handle then Inl NotFound
            else if lender l \<noteq> h then Inl WrongOwner
            else Inr (plan_settle_loans t (\<lambda>c. loan_id c = loan_id l)))))) (\<lambda>_. sreturn ()) s)"

definition release ::
  "'d SharedBufferAdapter \<Rightarrow> HolderId \<Rightarrow> BufferHandle \<Rightarrow> ('d buffers, SharedBufferError, unit) sres" where
  "release A h handle s =
     (let t = fst s
      in sbind (slift
           (rbind (authorize t h handle RIGHT_MAP) (\<lambda>(r, _).
            rbind (live_region_slot t (handle_id handle)) (\<lambda>slot.
            let has_loans = has_region_loans t (region_id r);
                plan = teardown_new
                  \<lparr>remove_mappings := mark (\<lambda>m. map_buffer m = region_id r \<and> (map_via m = None \<or> \<not> has_loans))
                     (mappings t) (remove_mappings teardown_new),
                   remove_regions := (if has_loans then remove_regions teardown_new
                     else (remove_regions teardown_new)[slot := True])\<rparr>
            in rbind (append_mappings t plan [0..<length (mappings t)] []) (\<lambda>acts.
               rbind (append_region_reclamation t plan acts) (\<lambda>acts. Inr (slot, has_loans, plan, acts)))))))
         (\<lambda>(slot, has_loans, plan, acts).
            sbind (execute_teardown A acts plan) (\<lambda>_.
            if has_loans then on_table (update_region slot (\<lambda>r. r\<lparr>released := True\<rparr>)) else sreturn ())) s)"

definition reclaim_holder ::
  "'d SharedBufferAdapter \<Rightarrow> HolderId \<Rightarrow> ('d buffers, SharedBufferError, AdapterAction list) sres" where
  "reclaim_holder A h s =
     (let t = fst s;
          plan = plan_settle_loans t (\<lambda>l. lender l = h \<or> loan_receiver l = h)
      in teardown A (Inr (complete_region_removals t
           (plan\<lparr>remove_mappings := mark (\<lambda>m. map_holder m = h) (mappings t) (remove_mappings plan),
              remove_regions := mark (\<lambda>r. owner r = h) (regions t) (remove_regions plan)\<rparr>))) s)"

definition advance_epoch ::
  "'d SharedBufferAdapter \<Rightarrow> GenerationEpoch \<Rightarrow> ('d buffers, SharedBufferError, AdapterAction list) sres" where
  "advance_epoch A next s =
     (let t = fst s;
          plan = \<lparr>remove_mappings = map (\<lambda>m. m \<noteq> None) (mappings t),
            remove_loans = map (\<lambda>l. l \<noteq> None) (loans t), remove_regions = map (\<lambda>r. r \<noteq> None) (regions t)\<rparr>
      in if next \<le> table_epoch t then (Inl EpochMismatch, s)
         else sbind (teardown A (Inr plan)) (\<lambda>acts.
           sbind (on_table (\<lambda>t. (Inr (), t\<lparr>table_epoch := next\<rparr>))) (\<lambda>_. sreturn acts)) s)"

text \<open>Retrying the orphans of one address space, or all of them: failures are kept.\<close>

primrec retry_loop ::
  "'d SharedBufferAdapter \<Rightarrow> (Orphan \<Rightarrow> bool) \<Rightarrow> nat list \<Rightarrow> 'd buffers \<Rightarrow> 'd buffers" where
  "retry_loop A P [] s = s"
| "retry_loop A P (slot # rest) s =
     (case orphans (fst s) ! slot of
        None \<Rightarrow> retry_loop A P rest s
      | Some o' \<Rightarrow>
          if \<not> P o' then retry_loop A P rest s
          else (case perform A (Unmap (orphan_frame o') (orphan_vspace o') (orphan_vaddr o')) (snd s) of
              (Inl _, d) \<Rightarrow> retry_loop A P rest (fst s, d)
            | (Inr _, d) \<Rightarrow> retry_loop A P rest
                ((fst s)\<lparr>orphans := (orphans (fst s))[slot := None]\<rparr>, d)))"

definition retry_vspace_orphans ::
  "'d SharedBufferAdapter \<Rightarrow> VSpaceCap \<Rightarrow> 'd buffers \<Rightarrow> nat \<times> 'd buffers" where
  "retry_vspace_orphans A vspace s =
     (let s' = retry_loop A (\<lambda>o'. orphan_vspace o' = vspace) [0..<length (orphans (fst s))] s
      in (length (filter (\<lambda>o'. orphan_vspace o' = vspace) (flatten (orphans (fst s')))), s'))"

definition retry_orphans :: "'d SharedBufferAdapter \<Rightarrow> 'd buffers \<Rightarrow> nat \<times> 'd buffers" where
  "retry_orphans A s =
     (let s' = retry_loop A (\<lambda>_. True) [0..<length (orphans (fst s))] s
      in (orphan_count (fst s'), s'))"

end
