(* ===== verification/SharedBufferAccounts.thy ===== *)
theory SharedBufferAccounts
  imports SharedBuffer
begin

text \<open>
  The accounting of the shared-buffer table: what every holder is charged is what the table records
  for it, in pages, buffers, mappings and loans, through every operation and whatever the adapter
  answers; a teardown, once its actions succeeded, always commits.
\<close>

section \<open>Charges as a function of the holder\<close>

datatype unit_of = Pages | Buffers | Mappings | Loans

primrec charged :: "unit_of \<Rightarrow> Charge \<Rightarrow> nat" where
  "charged Pages c = unat (charge_pages c)"
| "charged Buffers c = unat (charge_buffers c)"
| "charged Mappings c = unat (charge_mappings c)"
| "charged Loans c = unat (charge_loans c)"

lemma all_units: "(\<forall>u. P u) \<longleftrightarrow> P Pages \<and> P Buffers \<and> P Mappings \<and> P Loans"
  by (metis unit_of.exhaust)

definition chg :: "unit_of \<Rightarrow> Charge option list \<Rightarrow> HolderId \<Rightarrow> nat" where
  "chg u cs h = tot (\<lambda>c. if charge_holder c = h then charged u c else 0) cs"

definition charges_ok :: "Charge option list \<Rightarrow> bool" where
  "charges_ok cs \<longleftrightarrow> length cs = 96 \<and> distinct (map charge_holder (flatten cs))"

lemma tot_zero: "(\<And>x. x \<in> set (flatten xs) \<Longrightarrow> f x = 0) \<Longrightarrow> tot f xs = 0"
  by (simp add: tot_def)

lemma sum_list_unique:
  "distinct (map k ys) \<Longrightarrow> x \<in> set ys \<Longrightarrow> sum_list (map (\<lambda>y. if k y = k x then f y else 0) ys) = (f x :: nat)"
proof (induction ys)
  case (Cons y ys)
  have none: "sum_list (map (\<lambda>z. if k z = k x then f z else 0) ys) = 0" if "k x \<notin> k ` set ys"
    using that by (induction ys) auto
  show ?case
  proof (cases "x = y")
    case True
    then show ?thesis using Cons.prems none by auto
  next
    case False
    then have "x \<in> set ys" "k y \<noteq> k x" using Cons.prems by auto
    then show ?thesis using Cons by auto
  qed
qed simp

lemma tot_unique:
  "distinct (map k (flatten xs)) \<Longrightarrow> x \<in> set (flatten xs)
     \<Longrightarrow> tot (\<lambda>y. if k y = k x then f y else 0) xs = f x"
  unfolding tot_def by (rule sum_list_unique)

lemma charge_slot_Some:
  assumes "charge_slot t h = Some i"
  shows "i < length (charges t)" "\<exists>c. charges t ! i = Some c \<and> charge_holder c = h"
  using assms by (auto simp: charge_slot_def position_Some is_some_and_iff)

lemma charge_slot_None:
  "charge_slot t h = None \<longleftrightarrow> h \<notin> charge_holder ` set (flatten (charges t))"
  by (auto simp: charge_slot_def position_None is_some_and_iff set_flatten image_iff)

lemma chg_slot:
  "charges_ok cs \<Longrightarrow> i < length cs \<Longrightarrow> cs ! i = Some c \<Longrightarrow> chg u cs (charge_holder c) = charged u c"
  unfolding chg_def charges_ok_def by (rule tot_unique) (auto simp: set_flatten_nth)

lemma chg_none: "h \<notin> charge_holder ` set (flatten cs) \<Longrightarrow> chg u cs h = 0"
  unfolding chg_def by (rule tot_zero) auto

lemma charge_chg:
  assumes "charges_ok (charges t)"
  shows "(case charge t h of None \<Rightarrow> 0 | Some c \<Rightarrow> charged u c) = chg u (charges t) h"
proof (cases "charge t h")
  case None
  then have "h \<notin> charge_holder ` set (flatten (charges t))"
    by (auto simp: charge_def find_None_iff)
  then show ?thesis using None by (simp add: chg_none)
next
  case (Some c)
  then have "c \<in> set (flatten (charges t))" "charge_holder c = h"
    by (auto simp: charge_def find_Some_iff)
  then show ?thesis using Some assms chg_slot by (fastforce simp: set_flatten_nth)
qed

lemma holder_chg:
  assumes "charges_ok (charges t)"
  shows "unat (holder_pages t h) = chg Pages (charges t) h"
    "unat (holder_buffers t h) = chg Buffers (charges t) h"
    "unat (holder_mappings t h) = chg Mappings (charges t) h"
    "unat (holder_loans t h) = chg Loans (charges t) h"
  unfolding charge_chg [OF assms, symmetric]
  by (simp_all add: holder_pages_def holder_buffers_def holder_mappings_def holder_loans_def split: option.split)

primrec quad :: "nat \<Rightarrow> nat \<Rightarrow> nat \<Rightarrow> nat \<Rightarrow> unit_of \<Rightarrow> nat" where
  "quad p b m l Pages = p"
| "quad p b m l Buffers = b"
| "quad p b m l Mappings = m"
| "quad p b m l Loans = l"

lemma chg_update:
  "i < length cs \<Longrightarrow> chg u (cs[i := v]) h + val (\<lambda>c. if charge_holder c = h then charged u c else 0) (cs ! i)
     = chg u cs h + val (\<lambda>c. if charge_holder c = h then charged u c else 0) v"
  unfolding chg_def by (rule tot_update)

text \<open>Writing the slot of a holder, or a vacant slot for a holder that has none.\<close>

lemma charge_write:
  assumes "charges_ok cs" "i < length cs" "charge_holder new = h"
    and "(\<exists>old. cs ! i = Some old \<and> charge_holder old = h)
       \<or> cs ! i = None \<and> h \<notin> charge_holder ` set (flatten cs)"
  shows "charges_ok (cs[i := Some new])"
    and "chg u (cs[i := Some new]) h' = (if h' = h then charged u new else chg u cs h')"
proof -
  show ok: "charges_ok (cs[i := Some new])"
    using assms distinct_flatten_replace [of cs i _ charge_holder new]
      distinct_flatten_update [of i cs charge_holder new]
    unfolding charges_ok_def by fastforce
  show "chg u (cs[i := Some new]) h' = (if h' = h then charged u new else chg u cs h')"
  proof (cases "h' = h")
    case True
    then show ?thesis using chg_slot [OF ok, of i new u] assms(2,3) by simp
  next
    case False
    then show ?thesis using chg_update [OF assms(2), of u "Some new" h'] assms(3,4) by auto
  qed
qed

lemma charge_clear:
  assumes "charges_ok cs" "i < length cs" "cs ! i = Some old" "charge_holder old = h"
  shows "charges_ok (cs[i := None])"
    and "chg u (cs[i := None]) h' = (if h' = h then 0 else chg u cs h')"
proof -
  show "charges_ok (cs[i := None])"
    using assms(1) by (simp add: charges_ok_def distinct_flatten_clear)
  show "chg u (cs[i := None]) h' = (if h' = h then 0 else chg u cs h')"
    using chg_update [OF assms(2), of u None h'] chg_slot [OF assms(1,2,3), of u] assms(3,4) by auto
qed

text \<open>The slot a holder is charged in: its own, or else the first vacant one.\<close>

lemma charge_target:
  assumes "preflight_charge_slot t h = Inr ()"
  obtains i where "i < length (charges t)"
    "(case charge_slot t h of Some slot \<Rightarrow> Some slot | None \<Rightarrow> position (\<lambda>c. c = None) (charges t)) = Some i"
    "(\<exists>old. charges t ! i = Some old \<and> charge_holder old = h)
       \<or> charges t ! i = None \<and> h \<notin> charge_holder ` set (flatten (charges t))"
proof (cases "charge_slot t h")
  case (Some i)
  then show ?thesis using charge_slot_Some [OF Some] by (intro that [of i]) auto
next
  case None
  then have "position (\<lambda>c. c = None) (charges t) \<noteq> None"
    using assms by (auto simp: preflight_charge_slot_def list_ex_iff position_None split: if_splits)
  then obtain i where i: "position (\<lambda>c. c = None) (charges t) = Some i" by auto
  then have "i < length (charges t)" "charges t ! i = None" by (simp_all add: position_Some)
  then show ?thesis using None i charge_slot_None [of t h] by (intro that [of i]) auto
qed

text \<open>Charging: with a slot for the holder and no overflow, exactly its counters grow.\<close>

lemma charge_positive_ok:
  assumes ok: "charges_ok (charges t)" and slot: "preflight_charge_slot t h = Inr ()"
    and fits: "\<forall>u. chg u (charges t) h + quad (unat p) (unat b) (unat m) (unat l) u < 2 ^ 32"
  shows "\<exists>cs. charge_positive h p b m l t = (Inr (), t\<lparr>charges := cs\<rparr>) \<and> charges_ok cs
    \<and> (\<forall>u h'. chg u cs h'
          = chg u (charges t) h' + (if h' = h then quad (unat p) (unat b) (unat m) (unat l) u else 0))"
proof -
  obtain i where i: "i < length (charges t)"
    and tgt: "(case charge_slot t h of Some slot \<Rightarrow> Some slot | None \<Rightarrow> position (\<lambda>c. c = None) (charges t)) = Some i"
    and old: "(\<exists>old. charges t ! i = Some old \<and> charge_holder old = h)
       \<or> charges t ! i = None \<and> h \<notin> charge_holder ` set (flatten (charges t))"
    using slot by (rule charge_target)
  define c where "c = (case charges t ! i of Some c \<Rightarrow> c
    | None \<Rightarrow> \<lparr>charge_holder = h, charge_pages = 0, charge_buffers = 0, charge_mappings = 0, charge_loans = 0\<rparr>)"
  define new where "new = c\<lparr>charge_pages := charge_pages c + p, charge_buffers := charge_buffers c + b,
    charge_mappings := charge_mappings c + m, charge_loans := charge_loans c + l\<rparr>"
  have c: "charge_holder c = h" "charged u c = chg u (charges t) h" for u
    using old chg_slot [OF ok i, of _ u] chg_none [of h "charges t" u]
    by (auto simp: c_def) (cases u; simp)
  have new1: "charge_holder new = h" using c(1) by (simp add: new_def)
  have new2: "charged u new = chg u (charges t) h + quad (unat p) (unat b) (unat m) (unat l) u" for u
    using spec [OF fits, of u] unfolding c(2) [symmetric]
    by (cases u) (simp_all add: new_def unat_add_fits)
  show ?thesis
    using charge_write [OF ok i new1 old] new2 tgt
    by (intro exI [of _ "(charges t)[i := Some new]"])
      (simp add: charge_positive_def new_def c_def Let_def)
qed

text \<open>Uncharging: a holder charged at least that much loses exactly that much, and its slot is freed
  when nothing is left.\<close>

lemma uncharge_ok:
  assumes ok: "charges_ok (charges t)"
    and has: "\<forall>u. quad (unat p) (unat b) (unat m) (unat l) u \<le> chg u (charges t) h"
    and some: "0 < quad (unat p) (unat b) (unat m) (unat l) v"
  shows "\<exists>cs. uncharge h p b m l t = (Inr (), t\<lparr>charges := cs\<rparr>) \<and> charges_ok cs
    \<and> (\<forall>u h'. chg u (charges t) h'
          = chg u cs h' + (if h' = h then quad (unat p) (unat b) (unat m) (unat l) u else 0))"
proof -
  have "charge_slot t h \<noteq> None"
    using chg_none [of h "charges t" v] spec [OF has, of v] some by (auto simp: charge_slot_None)
  then obtain i c where slot: "charge_slot t h = Some i" and i: "i < length (charges t)"
    and c: "charges t ! i = Some c" "charge_holder c = h"
    using charge_slot_Some by blast
  have cc: "chg u (charges t) h = charged u c" for u
    using chg_slot [OF ok i c(1), of u] c(2) by simp
  note le = has [unfolded all_units cc, simplified]
  define new where "new = c\<lparr>charge_pages := charge_pages c - p, charge_buffers := charge_buffers c - b,
    charge_mappings := charge_mappings c - m, charge_loans := charge_loans c - l\<rparr>"
  have new: "charged u c = charged u new + quad (unat p) (unat b) (unat m) (unat l) u" for u
    using le by (cases u) (simp_all add: new_def unat_sub_if')
  have hn: "charge_holder new = h" by (simp add: new_def c(2))
  have eq: "uncharge h p b m l t = (Inr (), t\<lparr>charges := (charges t)[i := if charge_is_empty new then None else Some new]\<rparr>)"
    using le slot c by (simp add: uncharge_def checked_sub_def Let_def new_def word_le_nat_alt)
  have zero: "charged u new = 0" if "charge_is_empty new" for u
    using that by (cases u) (simp_all add: charge_is_empty_def)
  show ?thesis
    using eq charge_write [OF ok i hn] charge_clear [OF ok i c] new cc zero c
    by (cases "charge_is_empty new") (auto intro!: exI)
qed

section \<open>Accounts\<close>

text \<open>What the table itself records for a holder, and the agreement of the charges with it.\<close>

primrec usage :: "unit_of \<Rightarrow> SharedBufferTable \<Rightarrow> HolderId \<Rightarrow> nat" where
  "usage Pages t h = tot (\<lambda>r. if owner r = h then anchors_len (anchors r) else 0) (regions t)"
| "usage Buffers t h = tot (\<lambda>r. if owner r = h then 1 else 0) (regions t)"
| "usage Mappings t h = tot (\<lambda>m. if map_holder m = h then 1 else 0) (mappings t)"
| "usage Loans t h = tot (\<lambda>l. if lender l = h then 1 else 0) (loans t)"

definition buffer_accounts :: "SharedBufferTable \<Rightarrow> bool" where
  "buffer_accounts t \<longleftrightarrow> charges_ok (charges t) \<and> (\<forall>u h. chg u (charges t) h = usage u t h)
     \<and> total_pages t = tot (\<lambda>r. anchors_len (anchors r)) (regions t)"

definition anchors_ok :: "FrameAnchors \<Rightarrow> bool" where
  "anchors_ok a \<longleftrightarrow> length (caps a) = MAX_BUFFER_PAGES \<and> 0 < anchors_len a
     \<and> anchors_len a \<le> MAX_BUFFER_PAGES \<and> distinct (take (anchors_len a) (caps a))"

definition sized :: "SharedBufferTable \<Rightarrow> bool" where
  "sized t \<longleftrightarrow> length (regions t) = MAX_SHARED_BUFFERS \<and> length (mappings t) = MAX_MAPPINGS
     \<and> length (loans t) = MAX_LOANS \<and> length (orphans t) = MAX_ORPHANS
     \<and> (\<forall>r \<in> set (flatten (regions t)). anchors_ok (anchors r))"

lemmas bound_defs = MAX_BUFFER_PAGES_def MAX_TOTAL_PAGES_def MAX_SHARED_BUFFERS_def MAX_MAPPINGS_def
  MAX_MAPPING_PAGES_def MAX_LOANS_def MAX_FRAME_ANCHORS_def MAX_TEARDOWN_ACTIONS_def MAX_ORPHANS_def
  MAX_CHARGE_HOLDERS_def PAGE_SIZE_def

lemma tot_bound: "(\<forall>x \<in> set (flatten xs). f x \<le> b) \<Longrightarrow> tot f xs \<le> length xs * b"
proof (induction xs)
  case (Cons x xs)
  then show ?case by (cases x) auto
qed simp

lemma tot_count_le: "tot (\<lambda>x. if P x then 1 else 0) xs \<le> length xs"
  using tot_bound [of xs "\<lambda>x. if P x then 1 else 0" 1] by simp

lemma usage_bound: "sized t \<Longrightarrow> usage u t h \<le> 2048"
  using tot_bound [of "regions t" "\<lambda>r. if owner r = h then anchors_len (anchors r) else 0" 64]
    tot_count_le [of "\<lambda>r. owner r = h" "regions t"] tot_count_le [of "\<lambda>m. map_holder m = h" "mappings t"]
    tot_count_le [of "\<lambda>l. lender l = h" "loans t"]
  by (cases u) (simp_all add: sized_def anchors_ok_def bound_defs)

lemma buffer_accountsD:
  assumes "buffer_accounts t"
  shows "charges_ok (charges t)" "chg u (charges t) h = usage u t h"
    "total_pages t = tot (\<lambda>r. anchors_len (anchors r)) (regions t)"
  using assms by (auto simp: buffer_accounts_def)

text \<open>The queries of the table answer the usage it records.\<close>

lemma holder_usage:
  assumes "buffer_accounts t"
  shows "unat (holder_pages t h) = usage Pages t h" "unat (holder_buffers t h) = usage Buffers t h"
    "unat (holder_mappings t h) = usage Mappings t h" "unat (holder_loans t h) = usage Loans t h"
  using holder_chg [OF buffer_accountsD(1) [OF assms]] by (simp_all only: buffer_accountsD(2) [OF assms])

text \<open>A step that changes what one holder has and then charges or uncharges the difference keeps the
  accounts.\<close>

lemma usage_charges [simp]: "usage u (t\<lparr>charges := cs\<rparr>) h = usage u t h"
  by (cases u) simp_all

lemma charge_step:
  assumes acc: "buffer_accounts t" and same: "charges t' = charges t"
    and slot: "preflight_charge_slot t h = Inr ()"
    and grows: "\<forall>u h'. usage u t' h' = usage u t h' + (if h' = h then quad (unat p) (unat b) (unat m) (unat l) u else 0)"
    and small: "\<forall>u. usage u t' h < 2 ^ 32"
    and pages: "total_pages t' = tot (\<lambda>r. anchors_len (anchors r)) (regions t')"
  shows "\<exists>cs. charge_positive h p b m l t' = (Inr (), t'\<lparr>charges := cs\<rparr>) \<and> buffer_accounts (t'\<lparr>charges := cs\<rparr>)"
proof -
  have "preflight_charge_slot t' h = Inr ()"
    using slot same by (simp add: preflight_charge_slot_def charge_slot_def)
  then obtain cs where "charge_positive h p b m l t' = (Inr (), t'\<lparr>charges := cs\<rparr>)" "charges_ok cs"
    "\<forall>u h'. chg u cs h' = chg u (charges t') h' + (if h' = h then quad (unat p) (unat b) (unat m) (unat l) u else 0)"
    using charge_positive_ok [of t' h p b m l] small grows same buffer_accountsD(1,2) [OF acc] by auto
  then show ?thesis
    using grows same pages buffer_accountsD(2) [OF acc] by (intro exI [of _ cs]) (simp add: buffer_accounts_def)
qed

lemma uncharge_step:
  assumes acc: "buffer_accounts t" and same: "charges t' = charges t"
    and shrinks: "\<forall>u h'. usage u t h' = usage u t' h' + (if h' = h then quad (unat p) (unat b) (unat m) (unat l) u else 0)"
    and some: "0 < quad (unat p) (unat b) (unat m) (unat l) v"
    and pages: "total_pages t' = tot (\<lambda>r. anchors_len (anchors r)) (regions t')"
  shows "\<exists>cs. uncharge h p b m l t' = (Inr (), t'\<lparr>charges := cs\<rparr>) \<and> buffer_accounts (t'\<lparr>charges := cs\<rparr>)"
proof -
  have "\<forall>u. quad (unat p) (unat b) (unat m) (unat l) u \<le> chg u (charges t') h"
    using shrinks same buffer_accountsD(2) [OF acc] by simp
  then obtain cs where "uncharge h p b m l t' = (Inr (), t'\<lparr>charges := cs\<rparr>)" "charges_ok cs"
    "\<forall>u h'. chg u (charges t') h' = chg u cs h' + (if h' = h then quad (unat p) (unat b) (unat m) (unat l) u else 0)"
    using uncharge_ok [of t' p b m l h v] some same buffer_accountsD(1) [OF acc] by auto
  moreover have "chg u cs h' = usage u t' h'" for u h'
    using calculation(3) shrinks same buffer_accountsD(2) [OF acc, of u h'] by (metis add_right_cancel)
  ultimately show ?thesis
    using pages by (intro exI [of _ cs]) (simp add: buffer_accounts_def)
qed

section \<open>Committing a teardown\<close>

definition clear :: "bool list \<Rightarrow> nat list \<Rightarrow> 'a option list \<Rightarrow> 'a option list" where
  "clear flags slots xs = fold (\<lambda>i xs. if flags ! i then xs[i := None] else xs) slots xs"

lemma clear_simps [simp]:
  "clear flags [] xs = xs"
  "clear flags (i # slots) xs = clear flags slots (if flags ! i then xs[i := None] else xs)"
  by (simp_all add: clear_def)

lemma length_clear [simp]: "length (clear flags slots xs) = length xs"
  by (induction slots arbitrary: xs) simp_all

lemma clear_nth:
  "i < length xs \<Longrightarrow> clear flags slots xs ! i = (if i \<in> set slots \<and> flags ! i then None else xs ! i)"
proof (induction slots arbitrary: xs)
  case (Cons a slots)
  then show ?case by (cases "a = i") simp_all
qed simp

lemma set_flatten_clear_all:
  "x \<in> set (flatten (clear flags [0..<length xs] xs)) \<longleftrightarrow> (\<exists>i < length xs. xs ! i = Some x \<and> \<not> flags ! i)"
  by (auto simp: set_flatten_nth clear_nth split: if_splits)

lemma distinct_clear:
  "distinct (map k (flatten xs)) \<Longrightarrow> distinct (map k (flatten (clear flags slots xs)))"
  by (induction slots arbitrary: xs) (simp_all add: distinct_flatten_clear)

definition marks :: "bool list \<Rightarrow> 'a option list \<Rightarrow> bool" where
  "marks flags xs \<longleftrightarrow> length flags = length xs \<and> (\<forall>i < length xs. flags ! i \<longrightarrow> xs ! i \<noteq> None)"

lemma commit_mappings_ok:
  assumes "buffer_accounts t" "distinct slots" "\<forall>i \<in> set slots. i < length (mappings t)"
    and "\<forall>i \<in> set slots. remove_mappings plan ! i \<longrightarrow> mappings t ! i \<noteq> None"
  shows "\<exists>cs. commit_mappings plan slots t
        = (Inr (), t\<lparr>mappings := clear (remove_mappings plan) slots (mappings t), charges := cs\<rparr>)
    \<and> buffer_accounts (t\<lparr>mappings := clear (remove_mappings plan) slots (mappings t), charges := cs\<rparr>)"
  using assms
proof (induction slots arbitrary: t)
  case Nil
  then show ?case by (intro exI [of _ "charges t"]) simp
next
  case (Cons i slots)
  show ?case
  proof (cases "remove_mappings plan ! i")
    case False
    then show ?thesis using Cons by simp
  next
    case True
    then obtain m where m: "mappings t ! i = Some m" using Cons.prems(4) by auto
    let ?t = "t\<lparr>mappings := (mappings t)[i := None]\<rparr>"
    have "usage u t h = usage u ?t h + (if h = map_holder m
        then quad (unat (0 :: u32)) (unat (0 :: u32)) (unat (1 :: u32)) (unat (0 :: u32)) u else 0)" for u h
      using Cons.prems(3) tot_update [of i "mappings t" "\<lambda>m. if map_holder m = h then 1 else 0" None] m
      by (cases u) auto
    then have "\<exists>cs. uncharge (map_holder m) 0 0 1 0 ?t = (Inr (), ?t\<lparr>charges := cs\<rparr>) \<and> buffer_accounts (?t\<lparr>charges := cs\<rparr>)"
      using uncharge_step [OF Cons.prems(1), of ?t "map_holder m" 0 0 1 0 Mappings] buffer_accountsD(3) [OF Cons.prems(1)] by simp
    then obtain cs where cs: "uncharge (map_holder m) 0 0 1 0 ?t = (Inr (), ?t\<lparr>charges := cs\<rparr>)"
      "buffer_accounts (?t\<lparr>charges := cs\<rparr>)" by blast
    have "\<exists>cs'. commit_mappings plan slots (?t\<lparr>charges := cs\<rparr>)
        = (Inr (), ?t\<lparr>mappings := clear (remove_mappings plan) slots ((mappings t)[i := None]), charges := cs'\<rparr>)
      \<and> buffer_accounts (?t\<lparr>mappings := clear (remove_mappings plan) slots ((mappings t)[i := None]), charges := cs'\<rparr>)"
      using Cons.IH [OF cs(2)] Cons.prems by (auto simp: nth_list_update)
    then show ?thesis using True m cs(1) by auto
  qed
qed

lemma commit_loans_ok:
  assumes "buffer_accounts t" "distinct slots" "\<forall>i \<in> set slots. i < length (loans t)"
    and "\<forall>i \<in> set slots. remove_loans plan ! i \<longrightarrow> loans t ! i \<noteq> None"
  shows "\<exists>cs. commit_loans plan slots t
        = (Inr (), t\<lparr>loans := clear (remove_loans plan) slots (loans t), charges := cs\<rparr>)
    \<and> buffer_accounts (t\<lparr>loans := clear (remove_loans plan) slots (loans t), charges := cs\<rparr>)"
  using assms
proof (induction slots arbitrary: t)
  case Nil
  then show ?case by (intro exI [of _ "charges t"]) simp
next
  case (Cons i slots)
  show ?case
  proof (cases "remove_loans plan ! i")
    case False
    then show ?thesis using Cons by simp
  next
    case True
    then obtain l where l: "loans t ! i = Some l" using Cons.prems(4) by auto
    let ?t = "t\<lparr>loans := (loans t)[i := None]\<rparr>"
    have "usage u t h = usage u ?t h + (if h = lender l
        then quad (unat (0 :: u32)) (unat (0 :: u32)) (unat (0 :: u32)) (unat (1 :: u32)) u else 0)" for u h
      using Cons.prems(3) tot_update [of i "loans t" "\<lambda>l. if lender l = h then 1 else 0" None] l
      by (cases u) auto
    then have "\<exists>cs. uncharge (lender l) 0 0 0 1 ?t = (Inr (), ?t\<lparr>charges := cs\<rparr>) \<and> buffer_accounts (?t\<lparr>charges := cs\<rparr>)"
      using uncharge_step [OF Cons.prems(1), of ?t "lender l" 0 0 0 1 Loans] buffer_accountsD(3) [OF Cons.prems(1)] by simp
    then obtain cs where cs: "uncharge (lender l) 0 0 0 1 ?t = (Inr (), ?t\<lparr>charges := cs\<rparr>)"
      "buffer_accounts (?t\<lparr>charges := cs\<rparr>)" by blast
    have "\<exists>cs'. commit_loans plan slots (?t\<lparr>charges := cs\<rparr>)
        = (Inr (), ?t\<lparr>loans := clear (remove_loans plan) slots ((loans t)[i := None]), charges := cs'\<rparr>)
      \<and> buffer_accounts (?t\<lparr>loans := clear (remove_loans plan) slots ((loans t)[i := None]), charges := cs'\<rparr>)"
      using Cons.IH [OF cs(2)] Cons.prems by (auto simp: nth_list_update)
    then show ?thesis using True l cs(1) by auto
  qed
qed

lemma commit_regions_ok:
  assumes "buffer_accounts t" "sized t" "distinct slots" "\<forall>i \<in> set slots. i < length (regions t)"
    and "\<forall>i \<in> set slots. remove_regions plan ! i \<longrightarrow> regions t ! i \<noteq> None"
  shows "\<exists>cs n. commit_regions plan slots t
        = (Inr (), t\<lparr>regions := clear (remove_regions plan) slots (regions t), charges := cs, total_pages := n\<rparr>)
    \<and> buffer_accounts (t\<lparr>regions := clear (remove_regions plan) slots (regions t), charges := cs, total_pages := n\<rparr>)"
  using assms
proof (induction slots arbitrary: t)
  case Nil
  then show ?case by (intro exI [of _ "charges t"] exI [of _ "total_pages t"]) simp
next
  case (Cons i slots)
  show ?case
  proof (cases "remove_regions plan ! i")
    case False
    then show ?thesis using Cons by simp
  next
    case True
    then obtain r where r: "regions t ! i = Some r" using Cons.prems(5) by auto
    have i: "i < length (regions t)" using Cons.prems(4) by simp
    let ?n = "anchors_len (anchors r)"
    let ?t = "t\<lparr>regions := (regions t)[i := None], total_pages := total_pages t - ?n\<rparr>"
    have "r \<in> set (flatten (regions t))" using i r by (auto simp: set_flatten_nth)
    then have n: "unat (of_nat ?n :: u32) = ?n"
      using Cons.prems(2) by (fastforce simp: sized_def anchors_ok_def bound_defs unat_of_nat)
    note upd = tot_update [OF i, where v = None, unfolded r, simplified]
    have le: "\<not> total_pages t < ?n" and pages: "total_pages ?t = tot (\<lambda>r. anchors_len (anchors r)) (regions ?t)"
      using upd [of "\<lambda>r. anchors_len (anchors r)"] buffer_accountsD(3) [OF Cons.prems(1)] by simp_all
    have "usage u t h = usage u ?t h + (if h = owner r
        then quad (unat (of_nat ?n :: u32)) (unat (1 :: u32)) (unat (0 :: u32)) (unat (0 :: u32)) u else 0)" for u h
      using upd [of "\<lambda>r. if owner r = h then anchors_len (anchors r) else 0"]
        upd [of "\<lambda>r. if owner r = h then 1 else 0"] n by (cases u) auto
    then have "\<exists>cs. uncharge (owner r) (of_nat ?n) 1 0 0 ?t = (Inr (), ?t\<lparr>charges := cs\<rparr>) \<and> buffer_accounts (?t\<lparr>charges := cs\<rparr>)"
      using uncharge_step [OF Cons.prems(1), of ?t "owner r" "of_nat ?n" 1 0 0 Buffers] pages by simp
    then obtain cs where cs: "uncharge (owner r) (of_nat ?n) 1 0 0 ?t = (Inr (), ?t\<lparr>charges := cs\<rparr>)"
      "buffer_accounts (?t\<lparr>charges := cs\<rparr>)" by blast
    have "sized (?t\<lparr>charges := cs\<rparr>)"
      using Cons.prems(2) set_flatten_clear [of "regions t" i] by (auto simp: sized_def)
    then have "\<exists>cs' n'. commit_regions plan slots (?t\<lparr>charges := cs\<rparr>)
        = (Inr (), ?t\<lparr>regions := clear (remove_regions plan) slots ((regions t)[i := None]), charges := cs', total_pages := n'\<rparr>)
      \<and> buffer_accounts (?t\<lparr>regions := clear (remove_regions plan) slots ((regions t)[i := None]), charges := cs', total_pages := n'\<rparr>)"
      using Cons.IH [OF cs(2)] Cons.prems by (auto simp: nth_list_update)
    then show ?thesis using True r cs(1) le by (auto simp: Let_def)
  qed
qed

text \<open>A plan that marks only occupied slots always commits; the table keeps what was not marked.\<close>

definition plan_marks :: "SharedBufferTable \<Rightarrow> TeardownPlan \<Rightarrow> bool" where
  "plan_marks t plan \<longleftrightarrow> marks (remove_mappings plan) (mappings t) \<and> marks (remove_loans plan) (loans t)
     \<and> marks (remove_regions plan) (regions t)"

definition residue :: "TeardownPlan \<Rightarrow> SharedBufferTable \<Rightarrow> SharedBufferTable" where
  "residue plan t = t\<lparr>mappings := clear (remove_mappings plan) [0..<length (mappings t)] (mappings t),
     loans := clear (remove_loans plan) [0..<length (loans t)] (loans t),
     regions := clear (remove_regions plan) [0..<length (regions t)] (regions t)\<rparr>"

lemma commit_teardown_ok:
  assumes "buffer_accounts t" "sized t" "plan_marks t plan"
  shows "\<exists>cs n. commit_teardown plan t = (Inr (), (residue plan t)\<lparr>charges := cs, total_pages := n\<rparr>)
    \<and> buffer_accounts ((residue plan t)\<lparr>charges := cs, total_pages := n\<rparr>)"
proof -
  let ?m = "clear (remove_mappings plan) [0..<length (mappings t)] (mappings t)"
  let ?l = "clear (remove_loans plan) [0..<length (loans t)] (loans t)"
  obtain cs1 where 1: "commit_mappings plan [0..<length (mappings t)] t = (Inr (), t\<lparr>mappings := ?m, charges := cs1\<rparr>)"
    "buffer_accounts (t\<lparr>mappings := ?m, charges := cs1\<rparr>)"
    using commit_mappings_ok [OF assms(1), of "[0..<length (mappings t)]" plan] assms(3)
    by (auto simp: plan_marks_def marks_def)
  obtain cs2 where 2: "commit_loans plan [0..<length (loans t)] (t\<lparr>mappings := ?m, charges := cs1\<rparr>)
      = (Inr (), t\<lparr>mappings := ?m, loans := ?l, charges := cs2\<rparr>)"
    "buffer_accounts (t\<lparr>mappings := ?m, loans := ?l, charges := cs2\<rparr>)"
    using commit_loans_ok [OF 1(2), of "[0..<length (loans t)]" plan] assms(3)
    by (auto simp: plan_marks_def marks_def)
  have "sized (t\<lparr>mappings := ?m, loans := ?l, charges := cs2\<rparr>)"
    using assms(2) by (simp add: sized_def)
  then obtain cs n where 3: "commit_regions plan [0..<length (regions t)] (t\<lparr>mappings := ?m, loans := ?l, charges := cs2\<rparr>)
      = (Inr (), (residue plan t)\<lparr>charges := cs, total_pages := n\<rparr>)"
    "buffer_accounts ((residue plan t)\<lparr>charges := cs, total_pages := n\<rparr>)"
    using commit_regions_ok [OF 2(2), of "[0..<length (regions t)]" plan] assms(3)
    by (auto simp: plan_marks_def marks_def residue_def)
  show ?thesis using 1(1) 2(1) 3 by (auto simp: commit_teardown_def)
qed

end
