(* ===== verification/SharedBufferShape.thy ===== *)
theory SharedBufferShape
  imports SharedBufferAccounts
begin

text \<open>
  The invariant of the shared-buffer table: the accounts agree with the records, live regions have
  distinct identities and disjoint frames, every mapping and every loan is backed by a live region
  and by the authority it was granted under, every orphan page names a frame of a live region, and
  mapped and orphaned pages together fit the orphan table.  Every operation keeps it, whatever the
  adapter answers.
\<close>

section \<open>The invariant\<close>

abbreviation region_set :: "SharedBufferTable \<Rightarrow> Region set" where
  "region_set t \<equiv> set (flatten (regions t))"

abbreviation mapping_set :: "SharedBufferTable \<Rightarrow> MappingRecord set" where
  "mapping_set t \<equiv> set (flatten (mappings t))"

abbreviation loan_set :: "SharedBufferTable \<Rightarrow> Loan set" where
  "loan_set t \<equiv> set (flatten (loans t))"

abbreviation orphan_set :: "SharedBufferTable \<Rightarrow> Orphan set" where
  "orphan_set t \<equiv> set (flatten (orphans t))"

definition frame_list :: "Region \<Rightarrow> FrameCap list" where
  "frame_list r = take (anchors_len (anchors r)) (caps (anchors r))"

definition frames :: "Region \<Rightarrow> FrameCap set" where
  "frames r = set (frame_list r)"

definition regions_ok :: "SharedBufferTable \<Rightarrow> bool" where
  "regions_ok t \<longleftrightarrow> distinct (map region_id (flatten (regions t)))
     \<and> (\<forall>r \<in> region_set t. region_epoch r = table_epoch t \<and> region_id r < next_buffer_id t
         \<and> (released r \<longrightarrow> (\<exists>l \<in> loan_set t. loan_buffer l = region_id r)))
     \<and> (\<forall>r \<in> region_set t. \<forall>r' \<in> region_set t. region_id r \<noteq> region_id r' \<longrightarrow> frames r \<inter> frames r' = {})"

text \<open>A region backs a mapping inside its frames; the mapping is the owner's own, or a receiver's inside
  the range and the rights of a live loan.\<close>

definition backs :: "Region \<Rightarrow> MappingRecord \<Rightarrow> bool" where
  "backs r m \<longleftrightarrow> region_id r = map_buffer m \<and> region_epoch r = map_epoch m \<and> 0 < map_count m
     \<and> map_offset m + map_count m \<le> anchors_len (anchors r)
     \<and> map_base m + map_count m * PAGE_SIZE \<le> USER_ADDRESS_CEILING
     \<and> (map_rights m = ReadWrite \<longrightarrow> created_writable r)"

definition lends :: "Loan \<Rightarrow> MappingRecord \<Rightarrow> bool" where
  "lends l m \<longleftrightarrow> loan_buffer l = map_buffer m \<and> loan_receiver l = map_holder m
     \<and> loan_offset l \<le> map_offset m \<and> map_offset m + map_count m \<le> loan_offset l + loan_pages l
     \<and> (map_rights m = ReadWrite \<longrightarrow> loan_writable l)"

definition granted :: "SharedBufferTable \<Rightarrow> Region \<Rightarrow> MappingRecord \<Rightarrow> bool" where
  "granted t r m = (case map_via m of
       None \<Rightarrow> map_holder m = owner r \<and> \<not> released r \<and> (map_rights m = ReadWrite \<longrightarrow> \<not> sealed r)
     | Some i \<Rightarrow> \<exists>l \<in> loan_set t. loan_id l = i \<and> lends l m)"

definition mappings_ok :: "SharedBufferTable \<Rightarrow> bool" where
  "mappings_ok t \<longleftrightarrow> (\<forall>m \<in> mapping_set t. \<exists>r \<in> region_set t. backs r m \<and> granted t r m)"

definition supports :: "Region \<Rightarrow> Loan \<Rightarrow> bool" where
  "supports r l \<longleftrightarrow> region_id r = loan_buffer l \<and> owner r = lender l
     \<and> loan_offset l + loan_pages l \<le> anchors_len (anchors r)
     \<and> (if loan_writable l then created_writable r else sealed r)"

definition loans_ok :: "SharedBufferTable \<Rightarrow> bool" where
  "loans_ok t \<longleftrightarrow> distinct (map loan_id (flatten (loans t)))
     \<and> (\<forall>l \<in> loan_set t. loan_epoch l = table_epoch t \<and> loan_id l < next_loan_id t
         \<and> (\<exists>r \<in> region_set t. supports r l))"

definition orphans_ok :: "SharedBufferTable \<Rightarrow> bool" where
  "orphans_ok t \<longleftrightarrow> (\<forall>o' \<in> orphan_set t. \<exists>r \<in> region_set t. orphan_frame o' \<in> frames r)"

definition budget :: "SharedBufferTable \<Rightarrow> bool" where
  "budget t \<longleftrightarrow> orphan_count t + tot map_count (mappings t) \<le> MAX_MAPPING_PAGES
     \<and> total_pages t \<le> MAX_TOTAL_PAGES"

definition shape :: "SharedBufferTable \<Rightarrow> bool" where
  "shape t \<longleftrightarrow> sized t \<and> buffer_accounts t \<and> regions_ok t \<and> mappings_ok t \<and> loans_ok t \<and> orphans_ok t \<and> budget t"

lemmas shape_defs = shape_def regions_ok_def mappings_ok_def loans_ok_def orphans_ok_def budget_def

lemma shapeD:
  assumes "shape t"
  shows "sized t" "buffer_accounts t" "regions_ok t" "mappings_ok t" "loans_ok t" "orphans_ok t" "budget t"
  using assms by (auto simp: shape_def)

lemma region_unique:
  assumes "shape t" "r \<in> region_set t" "r' \<in> region_set t" "region_id r = region_id r'"
  shows "r = r'"
  using assms flatten_unique [of region_id "regions t" r r'] by (simp add: shape_defs)

lemma loan_unique:
  assumes "shape t" "l \<in> loan_set t" "l' \<in> loan_set t" "loan_id l = loan_id l'"
  shows "l = l'"
  using assms flatten_unique [of loan_id "loans t" l l'] by (simp add: shape_defs)

lemma mapping_region:
  assumes "shape t" "m \<in> mapping_set t"
  obtains r where "r \<in> region_set t" "backs r m" "granted t r m"
  using assms by (auto simp: shape_defs)

lemma loan_region:
  assumes "shape t" "l \<in> loan_set t"
  obtains r where "r \<in> region_set t" "supports r l"
  using assms by (auto simp: shape_defs)

lemma length_frame_list [simp]: "anchors_ok (anchors r) \<Longrightarrow> length (frame_list r) = anchors_len (anchors r)"
  by (simp add: frame_list_def anchors_ok_def)

lemma anchors_get_frame_list: "anchors_get (anchors r) k = (if k < anchors_len (anchors r) then Some (frame_list r ! k) else None)"
  by (simp add: anchors_get_def frame_list_def)

lemma frame_list_frames: "anchors_ok (anchors r) \<Longrightarrow> k < anchors_len (anchors r) \<Longrightarrow> frame_list r ! k \<in> frames r"
  by (simp add: frames_def)

lemma frames_get:
  assumes "anchors_ok (anchors r)"
  shows "f \<in> frames r \<longleftrightarrow> (\<exists>k < anchors_len (anchors r). anchors_get (anchors r) k = Some f)"
  unfolding frames_def in_set_conv_nth length_frame_list [OF assms] by (auto simp: anchors_get_frame_list)

section \<open>What the lookups return\<close>

lemma live_region_any_Inr:
  "live_region_any t i = Inr r \<Longrightarrow> r \<in> region_set t \<and> region_id r = i \<and> region_epoch r = table_epoch t"
  by (auto simp: live_region_any_def ok_or_Inr_iff find_Some_iff)

lemma live_region_any_found:
  assumes "shape t" "r \<in> region_set t"
  shows "live_region_any t (region_id r) = Inr r"
  unfolding live_region_any_def
  using assms find_flatten_unique [of region_id "regions t" r "\<lambda>r'. region_id r' = region_id r \<and> region_epoch r' = table_epoch t"]
  by (auto simp: shape_defs ok_or_Inr_iff)

lemma authorize_Inr:
  "authorize t h handle req = Inr (r, e) \<Longrightarrow> r \<in> region_set t \<and> region_id r = handle_id handle \<and> \<not> released r
     \<and> owner r = h \<and> region_epoch r = table_epoch t \<and> contains (region_rights r AND handle_rights handle) req"
  by (auto simp: authorize_def live_region_def check_epoch_def rbind_Inr_iff intersect_def Let_def
      dest!: live_region_any_Inr split: if_splits)

lemma live_loan_Inr: "live_loan t i = Inr l \<Longrightarrow> l \<in> loan_set t \<and> loan_id l = i \<and> loan_epoch l = table_epoch t"
  by (auto simp: live_loan_def ok_or_Inr_iff find_Some_iff)

lemma authorize_loan_Inr:
  "authorize_loan t h handle = Inr l
     \<Longrightarrow> l \<in> loan_set t \<and> loan_id l = lh_id handle \<and> loan_buffer l = lh_buffer handle \<and> loan_receiver l = h"
  by (auto simp: authorize_loan_def rbind_Inr_iff dest!: live_loan_Inr split: if_splits)

lemma validate_page_range_Inr:
  assumes "validate_page_range offset len pages = Inr (k, n)"
  shows "0 < n" "offset = k * PAGE_SIZE" "len = n * PAGE_SIZE" "k + n \<le> pages"
proof -
  have g: "\<not> (len = 0 \<or> offset mod PAGE_SIZE \<noteq> 0 \<or> len mod PAGE_SIZE \<noteq> 0)"
  proof
    assume "len = 0 \<or> offset mod PAGE_SIZE \<noteq> 0 \<or> len mod PAGE_SIZE \<noteq> 0"
    then have "validate_page_range offset len pages = Inl BadRange"
      unfolding validate_page_range_def by (rule if_P)
    then show False using assms by simp
  qed
  have k: "offset + len \<le> pages * PAGE_SIZE \<and> offset div PAGE_SIZE = k \<and> len div PAGE_SIZE = n"
    using assms unfolding validate_page_range_def if_not_P [OF g] usize_add_def usize_mul_def
    by (cases "pages * PAGE_SIZE < 2 ^ 64"; cases "offset + len < 2 ^ 64"; cases "pages * PAGE_SIZE < offset + len")
      (simp_all add: ok_or_def rbind_def)
  show off: "offset = k * PAGE_SIZE" and len: "len = n * PAGE_SIZE"
    using div_mult_mod_eq [of offset PAGE_SIZE] div_mult_mod_eq [of len PAGE_SIZE] g k by simp_all
  show "0 < n" using g len by (cases n) simp_all
  have "(k + n) * PAGE_SIZE \<le> pages * PAGE_SIZE" using k off len by (simp only: add_mult_distrib)
  then show "k + n \<le> pages" by (simp add: PAGE_SIZE_def)
qed

lemma validate_mapping_range_Inr:
  assumes "validate_mapping_range r base offset len = Inr (k, n)"
  shows "0 < n" "offset = k * PAGE_SIZE" "len = n * PAGE_SIZE" "k + n \<le> anchors_len (anchors r)"
    "base + n * PAGE_SIZE \<le> USER_ADDRESS_CEILING"
proof -
  have *: "validate_page_range offset len (anchors_len (anchors r)) = Inr (k, n)" "base + len \<le> USER_ADDRESS_CEILING"
    using assms unfolding validate_mapping_range_def usize_add_def
    by (cases "base mod PAGE_SIZE = 0"; cases "base + len < 2 ^ 64";
        cases "USER_ADDRESS_CEILING \<le> base \<or> USER_ADDRESS_CEILING < base + len";
        simp add: ok_or_def rbind_def)+
  then show "0 < n" "offset = k * PAGE_SIZE" "len = n * PAGE_SIZE" "k + n \<le> anchors_len (anchors r)"
    "base + n * PAGE_SIZE \<le> USER_ADDRESS_CEILING"
    using validate_page_range_Inr [OF *(1)] by simp_all
qed

section \<open>Changing one part of the table\<close>

text \<open>Regions may be added and mappings stay backed; loans may be added and mappings stay granted.\<close>

lemma granted_mono: "loan_set t \<subseteq> loan_set t' \<Longrightarrow> granted t r m \<Longrightarrow> granted t' r m"
  by (auto simp: granted_def split: option.splits)

lemma granted_cong: "loans t' = loans t \<Longrightarrow> granted t' r m = granted t r m"
  by (simp add: granted_def split: option.split)

lemma mappings_ok_mono:
  assumes "mappings_ok t" "mapping_set t' \<subseteq> mapping_set t" "region_set t \<subseteq> region_set t'" "loan_set t \<subseteq> loan_set t'"
  shows "mappings_ok t'"
  using assms granted_mono [of t t'] unfolding mappings_ok_def by blast

lemma orphans_ok_mono:
  "orphans_ok t \<Longrightarrow> orphan_set t' \<subseteq> orphan_set t \<Longrightarrow> region_set t \<subseteq> region_set t' \<Longrightarrow> orphans_ok t'"
  unfolding orphans_ok_def by blast

lemma shape_orphans:
  assumes "shape t" "length os = length (orphans t)"
    and "\<forall>o' \<in> set (flatten os). \<exists>r \<in> region_set t. orphan_frame o' \<in> frames r"
    and "length (flatten os) + tot map_count (mappings t) \<le> MAX_MAPPING_PAGES"
  shows "shape (t\<lparr>orphans := os\<rparr>)"
proof -
  have "usage u (t\<lparr>orphans := os\<rparr>) h = usage u t h" for u h by (cases u) simp_all
  moreover have "granted (t\<lparr>orphans := os\<rparr>) r m = granted t r m" for r m by (rule granted_cong) simp
  ultimately show ?thesis
    using assms by (simp add: shape_defs sized_def buffer_accounts_def orphan_count_def)
qed

lemma shape_orphans_subset:
  assumes "shape t" "length os = length (orphans t)" "set (flatten os) \<subseteq> orphan_set t"
    "length (flatten os) \<le> orphan_count t"
  shows "shape (t\<lparr>orphans := os\<rparr>)"
  using assms shape_orphans [OF assms(1,2)] shapeD(6,7) [OF assms(1)]
  by (auto simp: orphans_ok_def budget_def)

lemma exceeds_iff: "\<not> exceeds a b limit \<longleftrightarrow> unat a + unat b \<le> unat limit"
  using unsigned_less [of limit, where 'a = nat] by (auto simp: exceeds_def checked_simps word_less_nat_alt split: option.splits)

lemma usize_exceeds_iff: "limit < 2 ^ 64 \<Longrightarrow> \<not> usize_exceeds a b limit \<longleftrightarrow> a + b \<le> limit"
  by (auto simp: usize_exceeds_def usize_add_def split: option.splits if_splits)

section \<open>Creating a buffer\<close>

lemma from_slice_len: "from_slice cs = Inr a \<Longrightarrow> anchors_len a = length cs"
  by (auto simp: from_slice_def rbind_Inr_iff split: if_splits)

lemma anchors_fill_ok:
  "anchors_fill (List.enumerate k cs) a = Inr b \<Longrightarrow> k + length cs \<le> length (caps a)
    \<Longrightarrow> distinct (take k (caps a))
    \<Longrightarrow> length (caps b) = length (caps a) \<and> distinct (take (k + length cs) (caps b))"
proof (induction cs arbitrary: k a)
  case (Cons c cs)
  let ?a = "a\<lparr>caps := (caps a)[k := c]\<rparr>"
  have c: "c \<notin> set (take k (caps a))" and rest: "anchors_fill (List.enumerate (Suc k) cs) ?a = Inr b"
    using Cons.prems(1) by (simp_all split: if_splits)
  have "distinct (take (Suc k) (caps ?a))"
    using Cons.prems(2,3) c by (simp add: take_Suc_conv_app_nth)
  then show ?case using Cons.IH [OF rest] Cons.prems(2) by simp
qed simp

lemma from_slice_ok:
  assumes "from_slice cs = Inr a"
  shows "anchors_ok a"
proof -
  obtain b where "anchors_fill (List.enumerate 0 cs) anchors_empty = Inr b" "a = b\<lparr>anchors_len := length cs\<rparr>"
    "cs \<noteq> []" "length cs \<le> MAX_BUFFER_PAGES"
    using assms by (auto simp: from_slice_def rbind_Inr_iff split: if_splits)
  then show ?thesis
    using anchors_fill_ok [of 0 cs anchors_empty b] by (simp add: anchors_ok_def anchors_empty_def)
qed

lemma anchor_is_live_iff:
  assumes "sized t"
  shows "anchor_is_live t f \<longleftrightarrow> (\<exists>r \<in> region_set t. f \<in> frames r)"
proof -
  have "list_ex (\<lambda>i. anchors_get (anchors r) i = Some f) [0..<anchors_len (anchors r)] \<longleftrightarrow> f \<in> frames r"
    if "r \<in> region_set t" for r
    using that assms by (auto simp: sized_def frames_get list_ex_iff)
  then show ?thesis by (auto simp: anchor_is_live_def list_ex_iff)
qed

lemma anchor_check_Inr:
  "anchor_check t a ks = Inr u \<Longrightarrow> k \<in> set ks \<Longrightarrow> \<exists>f. anchors_get a k = Some f \<and> \<not> anchor_is_live t f"
  by (induction ks) (auto simp: rbind_Inr_iff ok_or_Inr_iff split: if_splits)

lemma anchor_uniqueness_frames:
  assumes "preflight_anchor_uniqueness t (anchors r) = Inr u" "sized t" "anchors_ok (anchors r)" "r' \<in> region_set t"
  shows "frames r \<inter> frames r' = {}"
  using assms anchor_check_Inr [of t "anchors r" "[0..<anchors_len (anchors r)]" u]
  by (fastforce simp: preflight_anchor_uniqueness_def frames_get anchor_is_live_iff)

lemma tot_fill: "i < length xs \<Longrightarrow> xs ! i = None \<Longrightarrow> tot f (xs[i := Some x]) = tot f xs + f x"
  using tot_update [of i xs f "Some x"] by simp

lemma shape_add_region:
  assumes sh: "shape t" and slot: "i < length (regions t)" "regions t ! i = None"
    and r: "region_id r = next_buffer_id t" "region_epoch r = table_epoch t" "\<not> released r" "anchors_ok (anchors r)"
    and fresh: "\<forall>r' \<in> region_set t. frames r \<inter> frames r' = {}"
    and nxt: "unat n = unat (next_buffer_id t) + 1"
    and fits: "total_pages t + anchors_len (anchors r) \<le> MAX_TOTAL_PAGES"
    and charge: "preflight_charge_slot t (owner r) = Inr ()"
    and t': "t' = t\<lparr>regions := (regions t)[i := Some r], next_buffer_id := n, total_pages := total_pages t + anchors_len (anchors r)\<rparr>"
  shows "\<exists>cs. charge_positive (owner r) (of_nat (anchors_len (anchors r))) 1 0 0 t' = (Inr (), t'\<lparr>charges := cs\<rparr>)
    \<and> shape (t'\<lparr>charges := cs\<rparr>)"
proof -
  note fill = tot_fill [OF slot] and set = set_flatten_update [OF slot]
  have old: "region_id r' < next_buffer_id t" if "r' \<in> region_set t" for r'
    using that sh by (simp add: shape_defs)
  have sz: "sized t'" using shapeD(1) [OF sh] r(4) by (simp add: sized_def t' set)
  have "unat (of_nat (anchors_len (anchors r)) :: u32) = anchors_len (anchors r)"
    using r(4) by (simp add: anchors_ok_def bound_defs unat_of_nat)
  then have grows: "\<forall>u h. usage u t' h = usage u t h + (if h = owner r
      then quad (unat (of_nat (anchors_len (anchors r)) :: u32)) (unat (1 :: u32)) (unat (0 :: u32)) (unat (0 :: u32)) u else 0)"
    by (simp add: all_units t' fill)
  have small: "\<forall>u. usage u t' (owner r) < 2 ^ 32"
    by (intro allI le_less_trans [OF usage_bound [OF sz]]) simp
  have pages: "total_pages t' = tot (\<lambda>r. anchors_len (anchors r)) (regions t')"
    using buffer_accountsD(3) [OF shapeD(2) [OF sh]] by (simp add: t' fill)
  have same: "charges t' = charges t" by (simp add: t')
  obtain cs where cs: "charge_positive (owner r) (of_nat (anchors_len (anchors r))) 1 0 0 t' = (Inr (), t'\<lparr>charges := cs\<rparr>)"
    "buffer_accounts (t'\<lparr>charges := cs\<rparr>)"
    using charge_step [OF shapeD(2) [OF sh] same charge grows small pages] by blast
  have lt: "next_buffer_id t < n" using nxt by (simp add: word_less_nat_alt)
  have "regions_ok (t'\<lparr>charges := cs\<rparr>)"
    unfolding regions_ok_def
  proof (intro conjI)
    show "distinct (map region_id (flatten (regions (t'\<lparr>charges := cs\<rparr>))))"
      using distinct_flatten_update [OF slot, of region_id r] shapeD(3) [OF sh] old r(1) by (fastforce simp: t' regions_ok_def)
    show "\<forall>r \<in> region_set (t'\<lparr>charges := cs\<rparr>). \<forall>r' \<in> region_set (t'\<lparr>charges := cs\<rparr>).
        region_id r \<noteq> region_id r' \<longrightarrow> frames r \<inter> frames r' = {}"
      using shapeD(3) [OF sh] fresh by (auto simp: t' set regions_ok_def)
    show "\<forall>r \<in> region_set (t'\<lparr>charges := cs\<rparr>). region_epoch r = table_epoch (t'\<lparr>charges := cs\<rparr>)
        \<and> region_id r < next_buffer_id (t'\<lparr>charges := cs\<rparr>)
        \<and> (released r \<longrightarrow> (\<exists>l \<in> loan_set (t'\<lparr>charges := cs\<rparr>). loan_buffer l = region_id r))"
      using shapeD(3) [OF sh] r lt by (auto simp: t' set regions_ok_def)
  qed
  moreover have "mappings_ok (t'\<lparr>charges := cs\<rparr>)"
    by (rule mappings_ok_mono [OF shapeD(4) [OF sh]]) (auto simp: t' set)
  moreover have "loans_ok (t'\<lparr>charges := cs\<rparr>)"
    using shapeD(5) [OF sh] by (auto simp: loans_ok_def t' set)
  moreover have "orphans_ok (t'\<lparr>charges := cs\<rparr>)"
    by (rule orphans_ok_mono [OF shapeD(6) [OF sh]]) (auto simp: t' set)
  moreover have "budget (t'\<lparr>charges := cs\<rparr>)" "sized (t'\<lparr>charges := cs\<rparr>)"
    using shapeD(7) [OF sh] fits sz by (simp_all add: budget_def t' orphan_count_def sized_def)
  ultimately show ?thesis using cs by (auto simp: shape_def)
qed

lemma preflight_create_Inr:
  assumes "preflight_create t h a wr = Inr plan"
  shows "plan_owner plan = h" "plan_anchors plan = a" "plan_writable plan = wr"
    "unat (plan_next_id plan) = unat (plan_id plan) + 1"
  using assms by (auto simp: preflight_create_def rbind_Inr_iff ok_or_Inr_iff checked_add_iff)

lemma preflight_buffer_charge_Inr:
  assumes "preflight_buffer_charge t h n = Inr ()"
  shows "n < 2 ^ 32" "unat (holder_pages t h) + n \<le> unat (byte_pages (quota t h))"
    "unat (holder_buffers t h) + 1 \<le> unat (buffer_count (quota t h))" "total_pages t + n \<le> MAX_TOTAL_PAGES"
  using assms exceeds_iff [of "holder_pages t h" "of_nat n" "byte_pages (quota t h)"]
    exceeds_iff [of "holder_buffers t h" 1 "buffer_count (quota t h)"]
    usize_exceeds_iff [of MAX_TOTAL_PAGES "total_pages t" n]
  by (auto simp: preflight_buffer_charge_def Let_def bound_defs unat_of_nat split: if_splits)

definition created :: "CreatePlan \<Rightarrow> Region" where
  "created plan = \<lparr>region_id = plan_id plan, region_epoch = plan_epoch plan, owner = plan_owner plan,
     anchors = plan_anchors plan, region_rights = (if plan_writable plan then RIGHT_ALL else RIGHT_MAP),
     created_writable = plan_writable plan, sealed = False, released = False\<rparr>"

lemma commit_create_shape:
  assumes sh: "shape t" and plan: "preflight_create t0 h a wr = Inr plan" and a: "anchors_ok a"
    and run: "commit_create plan t = (res, t')"
  shows "shape t'"
proof -
  note p = preflight_create_Inr [OF plan]
  let ?r = "created plan" and ?n = "anchors_len a"
  let ?t = "t\<lparr>regions := (regions t)[plan_slot plan := Some ?r], next_buffer_id := plan_next_id plan,
    total_pages := total_pages t + ?n\<rparr>"
  define checks where "checks = (if plan_epoch plan \<noteq> table_epoch t then Inl EpochMismatch
    else if next_buffer_id t \<noteq> plan_id plan
      \<or> \<not> (plan_slot plan < length (regions t) \<and> regions t ! plan_slot plan = None)
    then Inl NotFound
    else rbind (preflight_anchor_uniqueness t a) (\<lambda>_.
      rbind (preflight_buffer_charge t h ?n) (\<lambda>_. preflight_charge_slot t h)))"
  have run': "commit_create plan t = (case checks of Inl e \<Rightarrow> (Inl e, t) | Inr _ \<Rightarrow>
      sbind (charge_positive h (of_nat ?n) 1 0 0) (\<lambda>_.
      sreturn \<lparr>handle_id = plan_id plan, handle_epoch = plan_epoch plan, handle_rights = region_rights ?r\<rparr>) ?t)"
    unfolding commit_create_def Let_def p checks_def [symmetric] by (simp add: sbind_def created_def p split: sum.split)
  show ?thesis
  proof (cases checks)
    case (Inl e)
    then show ?thesis using run run' sh by simp
  next
    case (Inr u)
    then have c: "plan_epoch plan = table_epoch t" "next_buffer_id t = plan_id plan"
      "plan_slot plan < length (regions t)" "regions t ! plan_slot plan = None"
      "preflight_anchor_uniqueness t a = Inr ()" "preflight_buffer_charge t h ?n = Inr ()" "preflight_charge_slot t h = Inr ()"
      by (auto simp: checks_def rbind_Inr_iff split: if_splits)
    have "\<exists>cs. charge_positive (owner ?r) (of_nat (anchors_len (anchors ?r))) 1 0 0 ?t = (Inr (), ?t\<lparr>charges := cs\<rparr>)
        \<and> shape (?t\<lparr>charges := cs\<rparr>)"
    proof (rule shape_add_region [OF sh c(3,4)])
      show "\<forall>r' \<in> region_set t. frames ?r \<inter> frames r' = {}"
        using anchor_uniqueness_frames [of t ?r] c(5) a shapeD(1) [OF sh] by (auto simp: created_def p)
      show "total_pages t + anchors_len (anchors ?r) \<le> MAX_TOTAL_PAGES"
        using preflight_buffer_charge_Inr(4) [OF c(6)] by (simp add: created_def p)
    qed (use c p a in \<open>simp_all add: created_def\<close>)
    then show ?thesis using run run' Inr by (auto simp: created_def p sbind_def)
  qed
qed

section \<open>Installing a mapping\<close>

text \<open>Between two tables only orphans were added: at most \<open>k\<close>, all of them pages of frames in \<open>F\<close>.\<close>

definition orphaned :: "FrameCap set \<Rightarrow> nat \<Rightarrow> SharedBufferTable \<Rightarrow> SharedBufferTable \<Rightarrow> bool" where
  "orphaned F k t t' \<longleftrightarrow> t' = t\<lparr>orphans := orphans t'\<rparr> \<and> length (orphans t') = length (orphans t)
     \<and> orphan_set t \<subseteq> orphan_set t' \<and> orphan_count t' \<le> orphan_count t + k
     \<and> (\<forall>o' \<in> orphan_set t'. o' \<in> orphan_set t \<or> orphan_frame o' \<in> F)"

lemma orphaned_refl [intro, simp]: "orphaned F k t t"
  by (simp add: orphaned_def)

lemma orphaned_trans:
  assumes "orphaned F j t u" "orphaned F k u v" "j + k \<le> n"
  shows "orphaned F n t v"
proof -
  have u: "u = t\<lparr>orphans := orphans u\<rparr>" and v: "v = u\<lparr>orphans := orphans v\<rparr>"
    using assms by (simp_all only: orphaned_def)
  have "v = t\<lparr>orphans := orphans v\<rparr>" by (subst v, subst u) simp
  then show ?thesis using assms unfolding orphaned_def by auto
qed

lemma record_orphan_orphaned:
  assumes "record_orphan o' t = (res, t')" "orphan_frame o' \<in> F"
  shows "orphaned F 1 t t'"
  using assms
  by (auto simp: record_orphan_def orphaned_def position_Some set_flatten_update orphan_count_def length_flatten tot_fill
      split: if_splits option.splits)

lemma record_orphan_recorded:
  assumes "record_orphan o' t = (Inr u, t')"
  shows "o' \<in> orphan_set t'"
  using assms by (auto simp: record_orphan_def position_Some set_flatten_update list_ex_iff split: if_splits option.splits)

lemma record_orphan_Inl:
  assumes "record_orphan o' t = (Inl e, t')"
  shows "e = OrphansExhausted" "t' = t" "orphan_count t = length (orphans t)"
proof -
  have none: "\<forall>x \<in> set (orphans t). x \<noteq> None" and *: "e = OrphansExhausted" "t' = t"
    using assms by (auto simp: record_orphan_def position_None split: if_splits option.splits)
  have "length (flatten xs) = length xs" if "\<forall>x \<in> set xs. x \<noteq> None" for xs :: "Orphan option list"
    using that by (induction xs) auto
  then show "e = OrphansExhausted" "t' = t" "orphan_count t = length (orphans t)"
    using none * by (simp_all add: orphan_count_def)
qed

lemma anchors_get_Some: "anchors_ok (anchors r) \<Longrightarrow> anchors_get (anchors r) k = Some f \<Longrightarrow> f \<in> frames r"
  by (auto simp: anchors_get_frame_list frame_list_frames split: if_splits)

lemma rollback_pages_orphaned:
  assumes "rollback_pages A plan cause pages err k u (t, d) = (res, (t', d'))"
    and "mp_anchors plan = anchors r" "anchors_ok (anchors r)"
  shows "orphaned (frames r) (length pages) t t' \<and> (\<exists>e. res = Inl e)"
  using assms(1)
proof (induction pages arbitrary: err k u t d)
  case (Cons page rest)
  show ?case
  proof (cases "anchors_get (mp_anchors plan) (map_offset (mp_record plan) + page)")
    case None
    then show ?thesis using Cons.prems by auto
  next
    case (Some f)
    define o' where "o' = \<lparr>orphan_frame = f, orphan_vspace = map_vspace (mp_record plan),
      orphan_vaddr = map_base (mp_record plan) + page * PAGE_SIZE\<rparr>"
    have f: "f \<in> frames r" using Some assms(2,3) anchors_get_Some by simp
    obtain p d1 where p: "perform A (Unmap f (map_vspace (mp_record plan)) (map_base (mp_record plan) + page * PAGE_SIZE)) d = (p, d1)"
      by (cases "perform A (Unmap f (map_vspace (mp_record plan)) (map_base (mp_record plan) + page * PAGE_SIZE)) d")
    obtain q t1 where q: "record_orphan o' t = (q, t1)" by (cases "record_orphan o' t")
    then have t1: "orphaned (frames r) 1 t t1" using f by (intro record_orphan_orphaned) (auto simp: o'_def)
    show ?thesis
    proof (cases p)
      case (Inr x)
      then have "orphaned (frames r) (length rest) t t' \<and> (\<exists>e. res = Inl e)"
        using Cons.IH Cons.prems Some p by (auto simp: Let_def)
      then show ?thesis using orphaned_trans [OF orphaned_refl [of _ 0]] by fastforce
    next
      case (Inl rb)
      then have "(orphaned (frames r) (length rest) t1 t' \<or> t' = t1) \<and> (\<exists>e. res = Inl e)"
        using Cons.IH Cons.prems Some p q by (fastforce simp: Let_def o'_def split: sum.splits if_splits)
      then show ?thesis using orphaned_trans [OF t1] by fastforce
    qed
  qed
qed auto

lemma map_pages_orphaned:
  assumes "map_pages A plan pages (t, d) = (res, (t', d'))" "\<forall>page \<in> set pages. page \<le> n"
    and "mp_anchors plan = anchors r" "anchors_ok (anchors r)"
  shows "orphaned (frames r) n t t' \<and> (res = Inr () \<longrightarrow> t' = t)"
  using assms(1,2)
proof (induction pages arbitrary: d)
  case (Cons page rest)
  show ?case
  proof (cases "anchors_get (mp_anchors plan) (map_offset (mp_record plan) + page)")
    case None
    then show ?thesis using Cons.prems by auto
  next
    case f: (Some f)
    show ?thesis
    proof (cases "usize_add (map_base (mp_record plan)) (page * PAGE_SIZE)")
      case None
      then show ?thesis using Cons.prems f by auto
    next
      case (Some va)
      obtain p d1 where p: "map_frame A f (map_vspace (mp_record plan)) va (map_rights (mp_record plan)) d = (p, d1)"
        by (cases "map_frame A f (map_vspace (mp_record plan)) va (map_rights (mp_record plan)) d")
      show ?thesis
      proof (cases p)
        case (Inr x)
        then show ?thesis using Cons f Some p by auto
      next
        case (Inl cause)
        then have "rollback_pages A plan cause (rev [0..<page]) None 0 0 (t, d1) = (res, (t', d'))"
          using Cons.prems(1) f Some p by simp
        from rollback_pages_orphaned [OF this assms(3,4)] show ?thesis
          using Cons.prems(2) orphaned_trans [OF orphaned_refl [of _ 0]] by fastforce
      qed
    qed
  qed
qed auto

lemma sum_pages_Some: "sum_pages ms acc = Some n \<Longrightarrow> n = acc + sum_list (map map_count ms)"
proof (induction ms arbitrary: acc)
  case (Cons m ms)
  then have "sum_pages ms (acc + map_count m) = Some n"
    by (auto simp: usize_add_def bind_eq_Some_conv split: if_splits)
  then show ?case using Cons.IH by fastforce
qed simp

lemma preflight_mapping_Inr:
  assumes "preflight_mapping t h r vspace base off n rights ln = Inr plan"
  shows "mp_slot plan < length (mappings t)" "mappings t ! mp_slot plan = None" "mp_anchors plan = anchors r"
    "mp_record plan = \<lparr>map_holder = h, map_buffer = region_id r, map_epoch = region_epoch r, map_vspace = vspace,
      map_base = base, map_offset = off, map_count = n, map_rights = rights, map_via = ln\<rparr>"
    "unat (holder_mappings t h) + 1 \<le> unat (mapping_count (quota t h))"
    "orphan_count t + tot map_count (mappings t) + n \<le> MAX_MAPPING_PAGES"
    "preflight_charge_slot t h = Inr ()"
proof -
  obtain admitted where *: "\<not> exceeds (holder_mappings t h) 1 (mapping_count (quota t h))"
    "position (\<lambda>m. m = None) (mappings t) = Some (mp_slot plan)"
    "sum_pages (flatten (mappings t)) (orphan_count t) = Some admitted"
    "\<not> usize_exceeds admitted n MAX_MAPPING_PAGES" "preflight_charge_slot t h = Inr ()"
    "mp_anchors plan = anchors r"
    "mp_record plan = \<lparr>map_holder = h, map_buffer = region_id r, map_epoch = region_epoch r, map_vspace = vspace,
      map_base = base, map_offset = off, map_count = n, map_rights = rights, map_via = ln\<rparr>"
    using assms by (auto simp: preflight_mapping_def rbind_Inr_iff ok_or_Inr_iff try_u16_def split: if_splits)
  show "mp_slot plan < length (mappings t)" "mappings t ! mp_slot plan = None" "mp_anchors plan = anchors r"
    "mp_record plan = \<lparr>map_holder = h, map_buffer = region_id r, map_epoch = region_epoch r, map_vspace = vspace,
      map_base = base, map_offset = off, map_count = n, map_rights = rights, map_via = ln\<rparr>"
    "preflight_charge_slot t h = Inr ()"
    using * by (simp_all add: position_Some)
  show "unat (holder_mappings t h) + 1 \<le> unat (mapping_count (quota t h))"
    using *(1) by (simp add: exceeds_iff)
  show "orphan_count t + tot map_count (mappings t) + n \<le> MAX_MAPPING_PAGES"
    using *(4) sum_pages_Some [OF *(3)] usize_exceeds_iff [of MAX_MAPPING_PAGES admitted n]
    by (simp add: bound_defs tot_def)
qed

lemma shape_add_mapping:
  assumes sh: "shape t" and slot: "i < length (mappings t)" "mappings t ! i = None"
    and r: "r \<in> region_set t" "backs r m" "granted t r m"
    and fits: "orphan_count t + tot map_count (mappings t) + map_count m \<le> MAX_MAPPING_PAGES"
    and charge: "preflight_charge_slot t (map_holder m) = Inr ()"
    and t': "t' = t\<lparr>mappings := (mappings t)[i := Some m]\<rparr>"
  shows "\<exists>cs. charge_positive (map_holder m) 0 0 1 0 t' = (Inr (), t'\<lparr>charges := cs\<rparr>) \<and> shape (t'\<lparr>charges := cs\<rparr>)"
proof -
  note fill = tot_fill [OF slot] and set = set_flatten_update [OF slot]
  have sz: "sized t'" using shapeD(1) [OF sh] by (simp add: sized_def t')
  have grows: "\<forall>u h. usage u t' h = usage u t h + (if h = map_holder m
      then quad (unat (0 :: u32)) (unat (0 :: u32)) (unat (1 :: u32)) (unat (0 :: u32)) u else 0)"
    by (simp add: all_units t' fill)
  have small: "\<forall>u. usage u t' (map_holder m) < 2 ^ 32"
    by (intro allI le_less_trans [OF usage_bound [OF sz]]) simp
  have pages: "total_pages t' = tot (\<lambda>r. anchors_len (anchors r)) (regions t')"
    using buffer_accountsD(3) [OF shapeD(2) [OF sh]] by (simp add: t')
  have same: "charges t' = charges t" by (simp add: t')
  obtain cs where cs: "charge_positive (map_holder m) 0 0 1 0 t' = (Inr (), t'\<lparr>charges := cs\<rparr>)"
    "buffer_accounts (t'\<lparr>charges := cs\<rparr>)"
    using charge_step [OF shapeD(2) [OF sh] same charge grows small pages] by blast
  have "granted (t'\<lparr>charges := cs\<rparr>) r m = granted t r m" for r m by (rule granted_cong) (simp add: t')
  then have "mappings_ok (t'\<lparr>charges := cs\<rparr>)"
    using shapeD(4) [OF sh] r by (auto simp: mappings_ok_def t' set)
  moreover have "regions_ok (t'\<lparr>charges := cs\<rparr>)" "loans_ok (t'\<lparr>charges := cs\<rparr>)" "orphans_ok (t'\<lparr>charges := cs\<rparr>)"
    "budget (t'\<lparr>charges := cs\<rparr>)" "sized (t'\<lparr>charges := cs\<rparr>)"
    using sh fits sz by (simp_all add: shape_defs t' orphan_count_def fill sized_def)
  ultimately show ?thesis using cs by (auto simp: shape_def)
qed

lemma orphaned_shape:
  assumes "shape t" "orphaned (frames r) n t t'" "r \<in> region_set t"
    "orphan_count t + tot map_count (mappings t) + n \<le> MAX_MAPPING_PAGES"
  shows "shape t'"
proof -
  have "t' = t\<lparr>orphans := orphans t'\<rparr>" using assms(2) by (simp only: orphaned_def)
  also have "shape \<dots>"
    using assms shapeD(6) [OF assms(1)]
    by (intro shape_orphans) (auto simp: orphaned_def orphans_ok_def orphan_count_def)
  finally show ?thesis .
qed

lemma execute_mapping_shape:
  assumes sh: "shape t" and plan: "preflight_mapping t h r vspace base off n rights ln = Inr plan"
    and r: "r \<in> region_set t" "backs r (mp_record plan)" "granted t r (mp_record plan)"
    and run: "execute_mapping A plan (t, d) = (res, (t', d'))"
  shows "shape t'"
proof -
  note p = preflight_mapping_Inr [OF plan]
  have ok: "anchors_ok (anchors r)" using shapeD(1) [OF sh] r(1) by (simp add: sized_def)
  obtain q t1 d1 where q: "map_pages A plan [0..<map_count (mp_record plan)] (t, d) = (q, (t1, d1))"
    by (rule prod_cases3)
  then have t1: "orphaned (frames r) n t t1 \<and> (q = Inr () \<longrightarrow> t1 = t)"
    by (rule map_pages_orphaned) (use p(3,4) ok in auto)
  show ?thesis
  proof (cases q)
    case (Inl e)
    then show ?thesis using run q orphaned_shape [OF sh _ r(1) p(6)] t1 by (simp add: execute_mapping_def)
  next
    case (Inr u)
    then show ?thesis
      using run q t1 shape_add_mapping [OF sh p(1,2) r] p(4,6,7) by (auto simp: execute_mapping_def on_table_def)
  qed
qed

text \<open>A mapping call either stops at its checks, or installs a plan whose record is backed and granted.\<close>

definition admitted :: "SharedBufferTable \<Rightarrow> HolderId \<Rightarrow> VSpaceCap \<Rightarrow> nat \<Rightarrow> MappingPlan \<Rightarrow> Region \<Rightarrow> bool" where
  "admitted t h vspace base plan r \<longleftrightarrow> r \<in> region_set t \<and> backs r (mp_record plan) \<and> granted t r (mp_record plan)
     \<and> (\<exists>off n rights ln. preflight_mapping t h r vspace base off n rights ln = Inr plan)"

lemma sb_map_cases:
  assumes sh: "shape t" and run: "sb_map A h handle vspace base offset len rights (t, d) = (res, (t', d'))"
  obtains (refused) e where "res = Inl e" "t' = t" "d' = d"
  | (admitted) plan r where "admitted t h vspace base plan r" "execute_mapping A plan (t, d) = (res, (t', d'))"
proof -
  define checks where "checks = rbind (authorize t h handle (if rights_writable rights then RIGHT_MAP OR RIGHT_WRITE else RIGHT_MAP)) (\<lambda>(r, _).
    rbind (validate_mapping_range r base offset len) (\<lambda>(offset_pages, page_count).
    if rights_writable rights \<and> (\<not> created_writable r \<or> sealed r) then Inl WriteDenied
    else preflight_mapping t h r vspace base offset_pages page_count rights None))"
  have run': "sbind (slift checks) (execute_mapping A) (t, d) = (res, (t', d'))"
    using run unfolding sb_map_def Let_def fst_conv checks_def .
  show ?thesis
  proof (cases checks)
    case (Inl e)
    then show ?thesis using run' refused [of e] by simp
  next
    case (Inr plan)
    then obtain req r e k n where c: "authorize t h handle req = Inr (r, e)" "validate_mapping_range r base offset len = Inr (k, n)"
      "rights_writable rights \<longrightarrow> created_writable r \<and> \<not> sealed r" and plan: "preflight_mapping t h r vspace base k n rights None = Inr plan"
      by (auto simp: checks_def rbind_Inr_iff split: if_splits)
    note r = authorize_Inr [OF c(1)] and v = validate_mapping_range_Inr [OF c(2)] and m = preflight_mapping_Inr(4) [OF plan]
    have "backs r (mp_record plan)" "granted t r (mp_record plan)"
      using r v c(3) by (auto simp: backs_def granted_def m rights_writable_def)
    then have "admitted t h vspace base plan r" unfolding admitted_def using plan r by blast
    then show ?thesis using run' Inr admitted by simp
  qed
qed

lemma map_loan_cases:
  assumes sh: "shape t" and run: "map_loan A h handle vspace base offset len (t, d) = (res, (t', d'))"
  obtains (refused) e where "res = Inl e" "t' = t" "d' = d"
  | (admitted) plan r where "admitted t h vspace base plan r" "execute_mapping A plan (t, d) = (res, (t', d'))"
proof -
  define checks where "checks = rbind (authorize_loan t h handle) (\<lambda>l.
    rbind (validate_page_range offset len (loan_pages l)) (\<lambda>(relative_pages, _).
    rbind (ok_or BadRange (usize_add (loan_offset l) relative_pages)) (\<lambda>absolute_pages.
    rbind (live_region_any t (loan_buffer l)) (\<lambda>r.
    rbind (ok_or BadRange (usize_mul absolute_pages PAGE_SIZE)) (\<lambda>absolute_offset.
    rbind (validate_mapping_range r base absolute_offset len) (\<lambda>(_, page_count).
    preflight_mapping t h r vspace base absolute_pages page_count
      (if loan_writable l then ReadWrite else ReadOnly) (Some (loan_id l))))))))"
  have run': "sbind (slift checks) (execute_mapping A) (t, d) = (res, (t', d'))"
    using run unfolding map_loan_def Let_def fst_conv checks_def .
  show ?thesis
  proof (cases checks)
    case (Inl e)
    then show ?thesis using run' refused [of e] by simp
  next
    case (Inr plan)
    then obtain l rel c0 r k n where l: "authorize_loan t h handle = Inr l"
      and v0: "validate_page_range offset len (loan_pages l) = Inr (rel, c0)" and r: "live_region_any t (loan_buffer l) = Inr r"
      and v: "validate_mapping_range r base ((loan_offset l + rel) * PAGE_SIZE) len = Inr (k, n)"
      and plan: "preflight_mapping t h r vspace base (loan_offset l + rel) n
        (if loan_writable l then ReadWrite else ReadOnly) (Some (loan_id l)) = Inr plan"
      by (auto simp: checks_def rbind_Inr_iff ok_or_Inr_iff usize_add_def usize_mul_def split: if_splits)
    note v0 = validate_page_range_Inr [OF v0] and v = validate_mapping_range_Inr [OF v]
      and m = preflight_mapping_Inr(4) [OF plan] and l = authorize_loan_Inr [OF l] and r = live_region_any_Inr [OF r]
    have k: "k = loan_offset l + rel" "c0 = n" using v v0 by (simp_all add: PAGE_SIZE_def)
    obtain r' where "r' \<in> region_set t" "supports r' l" using loan_region [OF sh] l by blast
    then have "supports r l" using region_unique [OF sh, of r r'] r by (auto simp: supports_def)
    then have "backs r (mp_record plan)" "granted t r (mp_record plan)"
      using r v v0 l k by (auto simp: backs_def granted_def lends_def m supports_def)
    then have "admitted t h vspace base plan r" unfolding admitted_def using plan r by blast
    then show ?thesis using run' Inr admitted by simp
  qed
qed

lemma admitted_shape:
  assumes sh: "shape t" and adm: "admitted t h vspace base plan r" and run: "execute_mapping A plan (t, d) = (res, (t', d'))"
  shows "shape t'"
proof -
  obtain off n rights ln where "preflight_mapping t h r vspace base off n rights ln = Inr plan"
    using adm by (auto simp: admitted_def)
  then show ?thesis using execute_mapping_shape [OF sh _ _ _ _ run] adm by (auto simp: admitted_def)
qed

lemma sb_map_shape:
  assumes sh: "shape t" and run: "sb_map A h handle vspace base offset len rights (t, d) = (res, (t', d'))"
  shows "shape t'"
  using sb_map_cases [OF sh run] admitted_shape [OF sh] sh by metis

lemma map_loan_shape:
  assumes sh: "shape t" and run: "map_loan A h handle vspace base offset len (t, d) = (res, (t', d'))"
  shows "shape t'"
  using map_loan_cases [OF sh run] admitted_shape [OF sh] sh by metis

section \<open>Lending\<close>

lemma shape_add_loan:
  assumes sh: "shape t" and slot: "i < length (loans t)" "loans t ! i = None"
    and l: "loan_id l = next_loan_id t" "loan_epoch l = table_epoch t" "r \<in> region_set t" "supports r l"
    and nxt: "unat n = unat (next_loan_id t) + 1"
    and charge: "preflight_charge_slot t (lender l) = Inr ()"
    and t': "t' = t\<lparr>loans := (loans t)[i := Some l], next_loan_id := n\<rparr>"
  shows "\<exists>cs. charge_positive (lender l) 0 0 0 1 t' = (Inr (), t'\<lparr>charges := cs\<rparr>) \<and> shape (t'\<lparr>charges := cs\<rparr>)"
proof -
  note fill = tot_fill [OF slot] and set = set_flatten_update [OF slot]
  have sz: "sized t'" using shapeD(1) [OF sh] by (simp add: sized_def t')
  have grows: "\<forall>u h. usage u t' h = usage u t h + (if h = lender l
      then quad (unat (0 :: u32)) (unat (0 :: u32)) (unat (0 :: u32)) (unat (1 :: u32)) u else 0)"
    by (simp add: all_units t' fill)
  have small: "\<forall>u. usage u t' (lender l) < 2 ^ 32"
    by (intro allI le_less_trans [OF usage_bound [OF sz]]) simp
  have pages: "total_pages t' = tot (\<lambda>r. anchors_len (anchors r)) (regions t')"
    using buffer_accountsD(3) [OF shapeD(2) [OF sh]] by (simp add: t')
  have same: "charges t' = charges t" by (simp add: t')
  obtain cs where cs: "charge_positive (lender l) 0 0 0 1 t' = (Inr (), t'\<lparr>charges := cs\<rparr>)"
    "buffer_accounts (t'\<lparr>charges := cs\<rparr>)"
    using charge_step [OF shapeD(2) [OF sh] same charge grows small pages] by blast
  have old: "loan_id l' < next_loan_id t" if "l' \<in> loan_set t" for l'
    using that sh by (simp add: shape_defs)
  have lt: "next_loan_id t < n" using nxt by (simp add: word_less_nat_alt)
  have "distinct (map loan_id (flatten (loans t')))"
    using distinct_flatten_update [OF slot, of loan_id l] shapeD(5) [OF sh] old l(1) by (fastforce simp: t' loans_ok_def)
  then have "loans_ok (t'\<lparr>charges := cs\<rparr>)"
    using shapeD(5) [OF sh] l lt by (auto simp: loans_ok_def t' set)
  moreover have "mappings_ok (t'\<lparr>charges := cs\<rparr>)"
    by (rule mappings_ok_mono [OF shapeD(4) [OF sh]]) (auto simp: t' set)
  moreover have "regions_ok (t'\<lparr>charges := cs\<rparr>)" using shapeD(3) [OF sh] by (auto simp: regions_ok_def t' set)
  moreover have "orphans_ok (t'\<lparr>charges := cs\<rparr>)" "budget (t'\<lparr>charges := cs\<rparr>)" "sized (t'\<lparr>charges := cs\<rparr>)"
    using sh sz by (simp_all add: shape_defs t' orphan_count_def sized_def)
  ultimately show ?thesis using cs by (auto simp: shape_def)
qed

lemma loan_shape:
  assumes sh: "shape t" and run: "loan from_h to_h handle offset len wr t = (res, t')"
  shows "shape t'"
proof (rule ccontr)
  assume no: "\<not> shape t'"
  then have "t' \<noteq> t" using sh by auto
  then obtain req r e k n slot nxt where c: "authorize t from_h handle req = Inr (r, e)"
    "if wr then \<not> sealed r \<and> created_writable r else sealed r"
    and v: "validate_page_range offset len (anchors_len (anchors r)) = Inr (k, n)"
    and slot: "position (\<lambda>l. l = None) (loans t) = Some slot" "preflight_charge_slot t from_h = Inr ()"
    and nxt: "checked_add (next_loan_id t) 1 = Some nxt"
    and t': "t' = snd (charge_positive from_h 0 0 0 1 (t\<lparr>loans := (loans t)[slot := Some
       \<lparr>loan_id = next_loan_id t, loan_epoch = table_epoch t, loan_buffer = handle_id handle, lender = from_h,
        loan_receiver = to_h, loan_offset = k, loan_pages = n, loan_writable = wr\<rparr>], next_loan_id := nxt\<rparr>))"
    using run
    by (auto simp: loan_def Let_def sbind_def rbind_Inr_iff ok_or_Inr_iff try_u16_def split: sum.splits if_splits prod.splits)
  let ?l = "\<lparr>loan_id = next_loan_id t, loan_epoch = table_epoch t, loan_buffer = handle_id handle, lender = from_h,
    loan_receiver = to_h, loan_offset = k, loan_pages = n, loan_writable = wr\<rparr>"
  have "i < length (loans t) \<and> loans t ! i = None" if "i = slot" for i
    using slot(1) that by (simp add: position_Some)
  then have "\<exists>cs. charge_positive (lender ?l) 0 0 0 1 (t\<lparr>loans := (loans t)[slot := Some ?l], next_loan_id := nxt\<rparr>)
      = (Inr (), t\<lparr>loans := (loans t)[slot := Some ?l], next_loan_id := nxt\<rparr>\<lparr>charges := cs\<rparr>)
    \<and> shape (t\<lparr>loans := (loans t)[slot := Some ?l], next_loan_id := nxt\<rparr>\<lparr>charges := cs\<rparr>)"
    using authorize_Inr [OF c(1)] c(2) validate_page_range_Inr [OF v] nxt slot(2)
    by (intro shape_add_loan [OF sh, of slot ?l r nxt]) (auto simp: supports_def checked_add_iff split: if_splits)
  then show False using t' no by auto
qed

section \<open>Sealing\<close>

text \<open>Replacing an entry by one that counts the same.\<close>

lemma tot_replace: "i < length xs \<Longrightarrow> xs ! i = Some x \<Longrightarrow> f y = f x \<Longrightarrow> tot f (xs[i := Some y]) = tot f xs"
  using tot_update [of i xs f "Some y"] by simp

lemma set_flatten_replace:
  "i < length xs \<Longrightarrow> y \<in> set (flatten (xs[i := Some z])) \<Longrightarrow> y = z \<or> y \<in> set (flatten xs)"
  by (auto simp: set_flatten dest: set_update_subset_insert [THEN subsetD])

lemma flatten_index_unique:
  assumes "distinct (map k (flatten xs))" "i < length xs" "j < length xs" "xs ! i = Some x" "xs ! j = Some y" "k x = k y"
  shows "i = j"
proof (rule ccontr)
  assume "i \<noteq> j"
  let ?f = "\<lambda>z. if k z = k x then 1 else 0"
  have "x \<in> set (flatten xs)" using assms(2,4) by (auto simp: set_flatten_nth)
  then have "tot ?f xs = 1" using tot_unique [OF assms(1), of x "\<lambda>_. 1"] by simp
  then have "tot ?f (xs[i := None]) = 0" using tot_update [OF assms(2), of ?f None] assms(4) by simp
  moreover have "val ?f (xs[i := None] ! j) \<le> tot ?f (xs[i := None])" using assms(3) by (intro val_le_tot) simp
  ultimately show False using \<open>i \<noteq> j\<close> assms(5,6) by simp
qed

lemma tot_pointwise:
  "length ys = length xs \<Longrightarrow> (\<forall>i < length xs. val f (ys ! i) = val f (xs ! i)) \<Longrightarrow> tot f ys = tot f xs"
proof (induction xs arbitrary: ys)
  case (Cons x xs)
  then obtain y ys' where "ys = y # ys'" by (cases ys) auto
  then show ?case using Cons.IH [of ys'] Cons.prems by fastforce
qed simp

text \<open>One region replaced by a version of itself.\<close>

lemma flatten_map_option: "flatten (map (map_option g) xs) = map g (flatten xs)"
proof (induction xs)
  case (Cons x xs)
  then show ?case by (cases x) simp_all
qed simp

lemma region_set_update:
  assumes "shape t" "i < length (regions t)" "regions t ! i = Some r"
  shows "set (flatten ((regions t)[i := Some (f r)])) = (\<lambda>r'. if region_id r' = region_id r then f r' else r') ` region_set t"
    (is "_ = ?g ` _")
proof -
  have d: "distinct (map region_id (flatten (regions t)))" using assms(1) by (simp add: shape_defs)
  have r: "r \<in> region_set t" using assms(2,3) by (auto simp: set_flatten_nth)
  have at: "(regions t)[i := Some (f r)] ! j = map_option ?g (regions t ! j)" if "j < length (regions t)" for j
  proof (cases "j = i")
    case False
    show ?thesis
    proof (cases "regions t ! j")
      case (Some y)
      then have "region_id y \<noteq> region_id r" using flatten_index_unique [OF d that assms(2) Some assms(3)] False by auto
      then show ?thesis using False Some by simp
    qed (use False in simp)
  qed (use assms in simp)
  have "(regions t)[i := Some (f r)] = map (map_option ?g) (regions t)"
    by (rule nth_equalityI) (use at in simp_all)
  then show ?thesis by (simp only: flatten_map_option set_map)
qed

lemma make_read_only_ok:
  assumes "\<forall>i \<in> set slots. i < length (mappings t) \<and> mappings t ! i \<noteq> None"
  shows "\<exists>ms. make_read_only slots t = (Inr (), t\<lparr>mappings := ms\<rparr>) \<and> length ms = length (mappings t)
    \<and> (\<forall>i < length ms. ms ! i = (if i \<in> set slots then map_option (\<lambda>m. m\<lparr>map_rights := ReadOnly\<rparr>) (mappings t ! i) else mappings t ! i))"
  using assms
proof (induction slots arbitrary: t)
  case Nil
  then show ?case by (intro exI [of _ "mappings t"]) simp
next
  case (Cons i slots)
  then obtain m where m: "mappings t ! i = Some m" "i < length (mappings t)" by auto
  let ?t = "t\<lparr>mappings := (mappings t)[i := Some (m\<lparr>map_rights := ReadOnly\<rparr>)]\<rparr>"
  have "\<forall>j \<in> set slots. j < length (mappings ?t) \<and> mappings ?t ! j \<noteq> None"
    using Cons.prems m by (simp add: nth_list_update)
  from Cons.IH [OF this] obtain ms where ms: "make_read_only slots ?t = (Inr (), t\<lparr>mappings := ms\<rparr>)" "length ms = length (mappings t)"
    "\<forall>j < length ms. ms ! j = (if j \<in> set slots then map_option (\<lambda>m. m\<lparr>map_rights := ReadOnly\<rparr>) (mappings ?t ! j) else mappings ?t ! j)"
    by auto
  then show ?case using m by (intro exI [of _ ms]) (auto simp: nth_list_update)
qed

lemma writable_slots_iff:
  "i \<in> set (writable_slots t b) \<longleftrightarrow> i < length (mappings t)
     \<and> (\<exists>m. mappings t ! i = Some m \<and> map_buffer m = b \<and> map_rights m = ReadWrite)"
  by (auto simp: writable_slots_def is_some_and_iff)

text \<open>Mappings may lose their write permission.\<close>

lemma shape_lower:
  assumes sh: "shape t" and ms: "length ms = length (mappings t)"
      "\<forall>j < length ms. ms ! j = (if j \<in> S then map_option (\<lambda>m. m\<lparr>map_rights := ReadOnly\<rparr>) (mappings t ! j) else mappings t ! j)"
  shows "shape (t\<lparr>mappings := ms\<rparr>)" (is "shape ?t")
proof -
  have tm: "tot f ms = tot f (mappings t)" if "\<And>m. f (m\<lparr>map_rights := ReadOnly\<rparr>) = f m" for f
    by (rule tot_pointwise) (use ms that in \<open>auto simp: val_def split: option.split\<close>)
  have "buffer_accounts ?t"
    using shapeD(2) [OF sh] tm unfolding buffer_accounts_def all_units by simp
  moreover have "mappings_ok ?t"
    unfolding mappings_ok_def
  proof
    fix m' assume "m' \<in> mapping_set ?t"
    then obtain j where j: "j < length ms" "ms ! j = Some m'" by (auto simp: set_flatten_nth)
    then obtain m where m: "mappings t ! j = Some m" "m' = m \<or> m' = m\<lparr>map_rights := ReadOnly\<rparr>"
      using ms by (auto split: if_splits)
    then have "m \<in> mapping_set t" using j ms(1) by (auto simp: set_flatten_nth)
    then obtain r where r: "r \<in> region_set t" "backs r m" "granted t r m" by (rule mapping_region [OF sh])
    have "backs r m'" using r(2) m(2) by (auto simp: backs_def)
    moreover have "granted ?t r m'"
      using r(3) m(2) by (auto simp: granted_def lends_def split: option.splits)
    ultimately show "\<exists>r \<in> region_set ?t. backs r m' \<and> granted ?t r m'" using r(1) by auto
  qed
  moreover have "regions_ok ?t" "loans_ok ?t" "orphans_ok ?t" "budget ?t" "sized ?t"
    using sh ms(1) tm [of map_count] by (simp_all add: shape_defs orphan_count_def sized_def)
  ultimately show ?thesis by (simp add: shape_def)
qed

text \<open>A region may be sealed once its owner has no writable mapping left, and released once its owner has
  no mapping left and a loan remains.\<close>

lemma shape_region_update:
  assumes sh: "shape t" and slot: "i < length (regions t)" "regions t ! i = Some r"
    and same: "\<And>r. region_id (f r) = region_id r" "\<And>r. region_epoch (f r) = region_epoch r" "\<And>r. owner (f r) = owner r"
      "\<And>r. anchors (f r) = anchors r" "\<And>r. created_writable (f r) = created_writable r" "\<And>r. sealed r \<Longrightarrow> sealed (f r)"
    and lent: "released (f r) \<longrightarrow> (\<exists>l \<in> loan_set t. loan_buffer l = region_id r)"
    and own: "\<forall>m \<in> mapping_set t. map_buffer m = region_id r \<longrightarrow> map_via m = None
        \<longrightarrow> \<not> released (f r) \<and> (map_rights m = ReadWrite \<longrightarrow> \<not> sealed (f r))"
    and t': "t' = t\<lparr>regions := (regions t)[i := Some (f r)]\<rparr>"
  shows "shape t'"
proof -
  let ?g = "\<lambda>r'. if region_id r' = region_id r then f r' else r'"
  have R: "region_set t' = ?g ` region_set t"
    using region_set_update [OF sh slot, of f] by (simp add: t')
  have tr: "tot h (regions t') = tot h (regions t)" if "h (f r) = h r" for h
    using tot_replace [OF slot, of h] that by (simp add: t')
  have fr: "frames (?g r') = frames r'" "anchors (?g r') = anchors r'" "region_id (?g r') = region_id r'"
    "region_epoch (?g r') = region_epoch r'" "owner (?g r') = owner r'" for r'
    by (simp_all add: frames_def frame_list_def same)
  have r: "r' = r" if "r' \<in> region_set t" "region_id r' = region_id r" for r'
    using that slot region_unique [OF sh, of r' r] by (auto simp: set_flatten_nth)
  have keep: "loans t' = loans t" "table_epoch t' = table_epoch t" "next_buffer_id t' = next_buffer_id t"
    "next_loan_id t' = next_loan_id t" "orphans t' = orphans t" "mappings t' = mappings t" by (simp_all add: t')
  have "buffer_accounts t'"
    using shapeD(2) [OF sh] tr unfolding buffer_accounts_def all_units by (simp add: t' same)
  moreover have "regions_ok t'"
  proof -
    have "map region_id (flatten (regions t')) = map region_id (flatten (regions t))"
      using distinct_flatten_replace [OF slot(2), of region_id "f r"] slot(1) same(1) by (simp add: t')
    moreover have "\<exists>l \<in> loan_set t. loan_buffer l = region_id r'" if "r' \<in> region_set t" "released (?g r')" for r'
      using that lent r shapeD(3) [OF sh] by (fastforce simp: regions_ok_def split: if_splits)
    ultimately show ?thesis using shapeD(3) [OF sh] unfolding regions_ok_def R ball_simps fr keep by simp
  qed
  moreover have "mappings_ok t'"
    unfolding mappings_ok_def
  proof
    fix m assume "m \<in> mapping_set t'"
    then have m: "m \<in> mapping_set t" by (simp add: t')
    obtain r' where r': "r' \<in> region_set t" "backs r' m" "granted t r' m" by (rule mapping_region [OF sh m])
    have "backs (?g r') m" using r'(2) by (simp add: backs_def same)
    moreover have "granted t' (?g r') m"
      using r'(2,3) own [rule_format, OF m] r [OF r'(1)] fr(5) [of r']
      by (auto simp: granted_def backs_def keep split: option.splits)
    ultimately show "\<exists>r \<in> region_set t'. backs r m \<and> granted t' r m" using r'(1) R by blast
  qed
  moreover have "loans_ok t'"
  proof -
    have "supports (?g r') l" if "supports r' l" for r' l using that same by (auto simp: supports_def split: if_splits)
    then show ?thesis using shapeD(5) [OF sh] unfolding loans_ok_def R keep by (metis (no_types, lifting) imageI)
  qed
  moreover have "orphans_ok t'" using shapeD(6) [OF sh] unfolding orphans_ok_def R bex_simps fr by (simp add: t')
  moreover have "budget t'" "sized t'"
    using shapeD(1,7) [OF sh] unfolding budget_def sized_def R ball_simps fr by (simp_all add: t' orphan_count_def)
  ultimately show ?thesis by (simp add: shape_def)
qed

lemma shape_seal:
  assumes sh: "shape t" and slot: "i < length (regions t)" "regions t ! i = Some r"
    and ms: "length ms = length (mappings t)"
      "\<forall>j < length ms. ms ! j = (if j \<in> set (writable_slots t (region_id r))
         then map_option (\<lambda>m. m\<lparr>map_rights := ReadOnly\<rparr>) (mappings t ! j) else mappings t ! j)"
  shows "shape (t\<lparr>mappings := ms, regions := (regions t)[i := Some (r\<lparr>sealed := True\<rparr>)]\<rparr>)"
proof -
  have R: "r \<in> region_set t" using slot by (auto simp: set_flatten_nth)
  have ro: "map_rights m = ReadOnly" if m: "m \<in> set (flatten ms)" "map_buffer m = region_id r" for m
  proof -
    obtain j where j: "j < length ms" "ms ! j = Some m" using m(1) by (auto simp: set_flatten_nth)
    show ?thesis
    proof (cases "j \<in> set (writable_slots t (region_id r))")
      case True
      then show ?thesis using ms j by auto
    next
      case False
      then have "mappings t ! j = Some m" using ms j by simp
      then show ?thesis using False j(1) ms(1) m(2) by (cases "map_rights m") (auto simp: writable_slots_iff)
    qed
  qed
  have own: "\<not> released r" if m: "m \<in> set (flatten ms)" "map_buffer m = region_id r" "map_via m = None" for m
  proof -
    obtain r' where r': "r' \<in> region_set t" "backs r' m" "granted (t\<lparr>mappings := ms\<rparr>) r' m"
      using mapping_region [OF shape_lower [OF sh ms], of m] m(1) by auto
    have "r = r'" using r' m(2) by (intro region_unique [OF sh R]) (simp_all add: backs_def)
    then show ?thesis using r'(3) m(3) by (simp add: granted_def)
  qed
  show ?thesis
  proof (rule shape_region_update [OF shape_lower [OF sh ms], of i r "\<lambda>r. r\<lparr>sealed := True\<rparr>"])
    show "released (r\<lparr>sealed := True\<rparr>) \<longrightarrow> (\<exists>l \<in> loan_set (t\<lparr>mappings := ms\<rparr>). loan_buffer l = region_id r)"
      using shapeD(3) [OF sh] R by (simp add: regions_ok_def)
    show "\<forall>m \<in> mapping_set (t\<lparr>mappings := ms\<rparr>). map_buffer m = region_id r \<longrightarrow> map_via m = None
        \<longrightarrow> \<not> released (r\<lparr>sealed := True\<rparr>) \<and> (map_rights m = ReadWrite \<longrightarrow> \<not> sealed (r\<lparr>sealed := True\<rparr>))"
      using ro own by simp
  qed (use slot in simp_all)
qed

lemma live_region_slot_Inr:
  assumes "shape t" "authorize t h handle req = Inr (r, e)" "live_region_slot t (handle_id handle) = Inr slot"
  shows "slot < length (regions t)" "regions t ! slot = Some r"
proof -
  obtain r' where *: "slot < length (regions t)" "regions t ! slot = Some r'" "region_id r' = handle_id handle"
    using assms(3) by (auto simp: live_region_slot_def ok_or_Inr_iff position_Some is_some_and_iff)
  then have "r' \<in> region_set t" by (auto simp: set_flatten_nth)
  then have "r' = r" using region_unique [OF assms(1), of r' r] authorize_Inr [OF assms(2)] * by auto
  then show "slot < length (regions t)" "regions t ! slot = Some r" using * by simp_all
qed

text \<open>A seal that does something converts every writable mapping of the region and then marks it.\<close>

lemma seal_cases:
  assumes sh: "shape t" and run: "seal A h handle (t, d) = (res, (t', d'))"
  obtains (fail) e where "res = Inl e" "t' = t" "d' = d"
  | (failed) e r where "res = Inl e" "t' = t" "r \<in> region_set t" "seal_loop A t r [] (writable_slots t (region_id r)) d = (Inl e, d')"
  | (sealed) r where "r \<in> region_set t" "region_id r = handle_id handle" "sealed r" "res = Inr ()" "t' = t" "d' = d"
  | (converted) r slot ms where "r \<in> region_set t" "region_id r = handle_id handle" "\<not> sealed r"
      "slot < length (regions t)" "regions t ! slot = Some r"
      "seal_loop A t r [] (writable_slots t (region_id r)) d = (Inr (), d')" "res = Inr ()"
      "t' = t\<lparr>mappings := ms, regions := (regions t)[slot := Some (r\<lparr>sealed := True\<rparr>)]\<rparr>" "length ms = length (mappings t)"
      "\<forall>j < length ms. ms ! j = (if j \<in> set (writable_slots t (region_id r))
         then map_option (\<lambda>m. m\<lparr>map_rights := ReadOnly\<rparr>) (mappings t ! j) else mappings t ! j)"
proof (cases "rbind (authorize t h handle RIGHT_WRITE) (\<lambda>(r, _).
    rbind (live_region_slot t (handle_id handle)) (\<lambda>slot. Inr (r, slot)))")
  case (Inl e)
  then show ?thesis using run that(1) by (auto simp: seal_def)
next
  case x: (Inr x)
  then obtain r e slot where c: "authorize t h handle RIGHT_WRITE = Inr (r, e)" "live_region_slot t (handle_id handle) = Inr slot"
    "x = (r, slot)" by (auto simp: rbind_Inr_iff)
  note r = authorize_Inr [OF c(1)] and at = live_region_slot_Inr [OF sh c(1,2)]
  then have id: "region_id r = handle_id handle" by simp
  let ?ws = "writable_slots t (region_id r)"
  show ?thesis
  proof (cases "sealed r")
    case True
    then show ?thesis using run x c(3) by (intro that(3) [OF conjunct1 [OF r] id True]) (simp_all add: seal_def)
  next
    case False
    obtain q d1 where q: "seal_loop A t r [] ?ws d = (q, d1)" by (cases "seal_loop A t r [] ?ws d")
    have "\<forall>i \<in> set ?ws. i < length (mappings t) \<and> mappings t ! i \<noteq> None" by (auto simp: writable_slots_iff)
    from make_read_only_ok [OF this] obtain ms where ms: "make_read_only ?ws t = (Inr (), t\<lparr>mappings := ms\<rparr>)"
      "length ms = length (mappings t)" "\<forall>j < length ms. ms ! j = (if j \<in> set ?ws
         then map_option (\<lambda>m. m\<lparr>map_rights := ReadOnly\<rparr>) (mappings t ! j) else mappings t ! j)" by blast
    show ?thesis
    proof (cases q)
      case (Inl e)
      then have "res = Inl e" "t' = t" "d' = d1" using run x c(3) id q False by (simp_all add: seal_def)
      with q Inl show ?thesis by (intro that(2) [OF _ _ conjunct1 [OF r]]) simp_all
    next
      case (Inr u)
      then have "seal A h handle (t, d) = (Inr (), (t\<lparr>mappings := ms, regions := (regions t)[slot := Some (r\<lparr>sealed := True\<rparr>)]\<rparr>, d1))"
        using x c(3) id q False ms(1) at(2) by (simp add: seal_def on_table_def update_region_def)
      then have "res = Inr ()" "t' = t\<lparr>mappings := ms, regions := (regions t)[slot := Some (r\<lparr>sealed := True\<rparr>)]\<rparr>" "d' = d1"
        using run by simp_all
      with Inr q show ?thesis by (intro that(4) [OF conjunct1 [OF r] id False at _ _ _ ms(2,3)]) simp_all
    qed
  qed
qed

lemma seal_shape:
  assumes sh: "shape t" and run: "seal A h handle (t, d) = (res, (t', d'))"
  shows "shape t'"
  using sh run
proof (cases rule: seal_cases)
  case (converted r slot ms)
  then show ?thesis using shape_seal [OF sh converted(4,5,9,10)] by simp
qed (use sh in simp_all)

end
