(* ===== verification/SharedBufferTeardown.thy ===== *)
theory SharedBufferTeardown
  imports SharedBufferShape
begin

text \<open>
  Teardown of shared buffers.  A plan is closed when nothing that stays refers to something that
  goes.  The plans the operations build are closed and mark only occupied slots, the actions rendered
  from a plan reclaim every frame of a removed region, and executing them keeps the invariant of the
  table whether or not the adapter succeeds.
\<close>

section \<open>Orphans that disappear\<close>

definition shrunk :: "SharedBufferTable \<Rightarrow> SharedBufferTable \<Rightarrow> bool" where
  "shrunk t t' \<longleftrightarrow> t' = t\<lparr>orphans := orphans t'\<rparr> \<and> length (orphans t') = length (orphans t)
     \<and> (\<forall>i < length (orphans t). orphans t' ! i = orphans t ! i \<or> orphans t' ! i = None)"

lemma shrunk_refl [intro, simp]: "shrunk t t"
  by (simp add: shrunk_def)

lemma shrunk_trans:
  assumes "shrunk t u" "shrunk u v"
  shows "shrunk t v"
proof -
  have u: "u = t\<lparr>orphans := orphans u\<rparr>" and v: "v = u\<lparr>orphans := orphans v\<rparr>"
    using assms by (simp_all only: shrunk_def)
  have "v = t\<lparr>orphans := orphans v\<rparr>" by (subst v, subst u) simp
  then show ?thesis using assms unfolding shrunk_def by metis
qed

lemma shrunk_clear: "shrunk t (t\<lparr>orphans := (orphans t)[i := None]\<rparr>)"
  by (simp add: shrunk_def) (metis nth_list_update_eq nth_list_update_neq)

lemma shrunk_fields:
  assumes "shrunk t t'"
  shows "regions t' = regions t" "mappings t' = mappings t" "loans t' = loans t" "charges t' = charges t"
    "total_pages t' = total_pages t" "table_epoch t' = table_epoch t" "quotas t' = quotas t"
    "next_buffer_id t' = next_buffer_id t" "next_loan_id t' = next_loan_id t" "length (orphans t') = length (orphans t)"
proof -
  have t': "t' = t\<lparr>orphans := orphans t'\<rparr>" using assms by (simp only: shrunk_def)
  show "regions t' = regions t" "mappings t' = mappings t" "loans t' = loans t" "charges t' = charges t"
    "total_pages t' = total_pages t" "table_epoch t' = table_epoch t" "quotas t' = quotas t"
    "next_buffer_id t' = next_buffer_id t" "next_loan_id t' = next_loan_id t"
    by (subst t', simp)+
  show "length (orphans t') = length (orphans t)" using assms by (simp only: shrunk_def)
qed

lemma tot_pointwise_le:
  "length ys = length xs \<Longrightarrow> (\<forall>i < length xs. val f (ys ! i) \<le> val f (xs ! i)) \<Longrightarrow> tot f ys \<le> tot f xs"
proof (induction xs arbitrary: ys)
  case (Cons x xs)
  then obtain y ys' where ys: "ys = y # ys'" by (cases ys) auto
  then have "val f y \<le> val f x" "\<forall>i < length xs. val f (ys' ! i) \<le> val f (xs ! i)" using Cons.prems(2) by fastforce+
  then show ?case using Cons.IH [of ys'] Cons.prems(1) ys by fastforce
qed simp

lemma shrunk_orphans:
  assumes "shrunk t t'"
  shows "orphan_set t' \<subseteq> orphan_set t" "orphan_count t' \<le> orphan_count t"
proof -
  have at: "orphans t' ! i = orphans t ! i \<or> orphans t' ! i = None" if "i < length (orphans t)" for i
    using assms that by (auto simp: shrunk_def)
  have len: "length (orphans t') = length (orphans t)" using assms by (simp only: shrunk_def)
  show "orphan_set t' \<subseteq> orphan_set t"
    using at len by (fastforce simp: set_flatten_nth)
  show "orphan_count t' \<le> orphan_count t"
    unfolding orphan_count_def length_flatten using len at by (intro tot_pointwise_le) fastforce+
qed

lemma shrunk_shape:
  assumes "shape t" "shrunk t t'"
  shows "shape t'"
proof -
  have "t' = t\<lparr>orphans := orphans t'\<rparr>" using assms(2) by (simp only: shrunk_def)
  also have "shape \<dots>"
    using shrunk_orphans [OF assms(2)] shrunk_fields(10) [OF assms(2)]
    by (intro shape_orphans_subset [OF assms(1)]) (simp_all add: orphan_count_def)
  finally show ?thesis .
qed

lemma settle_orphans_effect:
  assumes "settle_orphans A P slots (t, d) = (res, (t', d'))" "\<forall>i \<in> set slots. i < length (orphans t)"
  shows "shrunk t t' \<and> (res = Inr () \<longrightarrow> (\<forall>i \<in> set slots. \<not> is_some_and P (orphans t' ! i)))"
  using assms
proof (induction slots arbitrary: t d)
  case (Cons i slots)
  have i: "i < length (orphans t)" using Cons.prems(2) by simp
  show ?case
  proof (cases "is_some_and P (orphans t ! i)")
    case False
    then have run: "settle_orphans A P slots (t, d) = (res, (t', d'))"
      using Cons.prems(1) by (cases "orphans t ! i") simp_all
    have IH: "shrunk t t'" "res = Inr () \<longrightarrow> (\<forall>i \<in> set slots. \<not> is_some_and P (orphans t' ! i))"
      using Cons.IH [OF run] Cons.prems(2) by simp_all
    have "\<not> is_some_and P (orphans t' ! i)"
      using IH(1) i False unfolding shrunk_def by (metis is_some_and_simps(1))
    then show ?thesis using IH by simp
  next
    case True
    then obtain o' where o': "orphans t ! i = Some o'" "P o'" by (auto simp: is_some_and_iff)
    obtain p d1 where p: "perform A (Unmap (orphan_frame o') (orphan_vspace o') (orphan_vaddr o')) d = (p, d1)"
      by (cases "perform A (Unmap (orphan_frame o') (orphan_vspace o') (orphan_vaddr o')) d")
    let ?t = "t\<lparr>orphans := (orphans t)[i := None]\<rparr>"
    show ?thesis
    proof (cases p)
      case (Inl e)
      then show ?thesis using Cons.prems(1) o' p by auto
    next
      case (Inr u)
      then have run: "settle_orphans A P slots (?t, d1) = (res, (t', d'))" using Cons.prems(1) o' p by simp
      have IH: "shrunk ?t t'" "res = Inr () \<longrightarrow> (\<forall>i \<in> set slots. \<not> is_some_and P (orphans t' ! i))"
        using Cons.IH [OF run] Cons.prems(2) by simp_all
      have "orphans t' ! i = None" using IH(1) i by (auto simp: shrunk_def)
      then show ?thesis using IH shrunk_trans [OF shrunk_clear IH(1)] by simp
    qed
  qed
qed simp

lemma perform_all_table:
  "perform_all A acts (t, d) = (res, (t', d')) \<Longrightarrow> t' = t"
  by (induction acts arbitrary: d)
    (auto simp: sbind_def on_adapter_def sreturn_def split: sum.splits prod.splits)

lemma run_actions_effect:
  assumes "run_actions A acts (t, d) = (res, (t', d'))"
  shows "shrunk t t' \<and> (res = Inr () \<longrightarrow> (\<forall>o' \<in> orphan_set t'. \<not> list_ex (reclaims (orphan_frame o')) acts))"
proof -
  let ?P = "\<lambda>o'. list_ex (reclaims (orphan_frame o')) acts"
  obtain q t1 d1 where q: "settle_orphans A ?P [0..<length (orphans t)] (t, d) = (q, (t1, d1))"
    by (rule prod_cases3)
  have 1: "shrunk t t1 \<and> (q = Inr () \<longrightarrow> (\<forall>i \<in> set [0..<length (orphans t)]. \<not> is_some_and ?P (orphans t1 ! i)))"
    by (rule settle_orphans_effect [OF q]) simp
  show ?thesis
  proof (cases q)
    case (Inl e)
    then show ?thesis using assms q 1 by (auto simp: run_actions_def)
  next
    case (Inr u)
    then have "t' = t1" using assms q perform_all_table by (auto simp: run_actions_def)
    moreover have "\<not> ?P o'" if mem: "o' \<in> orphan_set t1" for o'
    proof -
      obtain i where i: "i < length (orphans t)" "orphans t1 ! i = Some o'"
        using mem 1 shrunk_fields(10) [of t t1] by (auto simp: set_flatten_nth)
      then have "i \<in> set [0..<length (orphans t)]" "q = Inr ()" using Inr by simp_all
      then have "\<not> is_some_and ?P (orphans t1 ! i)" using 1 by blast
      then show ?thesis using i by simp
    qed
    ultimately show ?thesis using 1 by blast
  qed
qed

section \<open>Closed plans\<close>

lemma residue_sets:
  "r \<in> region_set (residue plan t) \<longleftrightarrow> (\<exists>i < length (regions t). regions t ! i = Some r \<and> \<not> remove_regions plan ! i)"
  "m \<in> mapping_set (residue plan t) \<longleftrightarrow> (\<exists>i < length (mappings t). mappings t ! i = Some m \<and> \<not> remove_mappings plan ! i)"
  "l \<in> loan_set (residue plan t) \<longleftrightarrow> (\<exists>i < length (loans t). loans t ! i = Some l \<and> \<not> remove_loans plan ! i)"
  by (simp_all add: residue_def set_flatten_clear_all)

lemma residue_subset:
  "region_set (residue plan t) \<subseteq> region_set t" "mapping_set (residue plan t) \<subseteq> mapping_set t" "loan_set (residue plan t) \<subseteq> loan_set t"
  unfolding subset_iff residue_sets by (auto simp: set_flatten_nth)

definition closed :: "SharedBufferTable \<Rightarrow> TeardownPlan \<Rightarrow> bool" where
  "closed t plan \<longleftrightarrow>
     (\<forall>m \<in> mapping_set (residue plan t). (\<exists>r \<in> region_set (residue plan t). region_id r = map_buffer m)
        \<and> (\<forall>i. map_via m = Some i \<longrightarrow> (\<exists>l \<in> loan_set (residue plan t). loan_id l = i)))
   \<and> (\<forall>l \<in> loan_set (residue plan t). \<exists>r \<in> region_set (residue plan t). region_id r = loan_buffer l)
   \<and> (\<forall>r \<in> region_set (residue plan t). released r \<longrightarrow> (\<exists>l \<in> loan_set (residue plan t). loan_buffer l = region_id r))"

lemma clear_tot_le: "tot f (clear flags slots xs) \<le> tot f xs"
  by (rule tot_pointwise_le) (auto simp: clear_nth)

lemma residue_shape:
  assumes sh: "shape t" and closed: "closed t plan"
    and orph: "\<forall>o' \<in> orphan_set t. \<exists>r \<in> region_set (residue plan t). orphan_frame o' \<in> frames r"
    and acc: "buffer_accounts ((residue plan t)\<lparr>charges := cs, total_pages := n\<rparr>)" (is "buffer_accounts ?t")
  shows "shape ?t"
proof -
  have R: "region_set ?t \<subseteq> region_set t" "region_set ?t = region_set (residue plan t)"
    and M: "mapping_set ?t \<subseteq> mapping_set t" "mapping_set ?t = mapping_set (residue plan t)"
    and L: "loan_set ?t \<subseteq> loan_set t" "loan_set ?t = loan_set (residue plan t)"
    using residue_subset [where plan = plan and t = t] by simp_all
  have same: "orphans ?t = orphans t" "table_epoch ?t = table_epoch t" "next_buffer_id ?t = next_buffer_id t"
    "next_loan_id ?t = next_loan_id t" by (simp_all add: residue_def)
  have "sized ?t" using shapeD(1) [OF sh] R(1) by (auto simp: sized_def residue_def)
  moreover have "regions_ok ?t"
    unfolding regions_ok_def
  proof (intro conjI)
    show "distinct (map region_id (flatten (regions ?t)))"
      using shapeD(3) [OF sh] distinct_clear [of region_id "regions t"] by (simp add: regions_ok_def residue_def)
    show "\<forall>r \<in> region_set ?t. \<forall>r' \<in> region_set ?t. region_id r \<noteq> region_id r' \<longrightarrow> frames r \<inter> frames r' = {}"
      using shapeD(3) [OF sh] R(1) unfolding regions_ok_def by blast
    show "\<forall>r \<in> region_set ?t. region_epoch r = table_epoch ?t \<and> region_id r < next_buffer_id ?t
        \<and> (released r \<longrightarrow> (\<exists>l \<in> loan_set ?t. loan_buffer l = region_id r))"
      using shapeD(3) [OF sh] R(1) closed unfolding regions_ok_def closed_def same R(2) L(2) by blast
  qed
  moreover have "loans_ok ?t"
    unfolding loans_ok_def
  proof (intro conjI ballI)
    show "distinct (map loan_id (flatten (loans ?t)))"
      using shapeD(5) [OF sh] distinct_clear [of loan_id "loans t"] by (simp add: loans_ok_def residue_def)
    fix l assume l: "l \<in> loan_set ?t"
    then show "loan_epoch l = table_epoch ?t" "loan_id l < next_loan_id ?t"
      using shapeD(5) [OF sh] L(1) same by (auto simp: loans_ok_def)
    obtain r where r: "r \<in> region_set t" "supports r l" using l L(1) loan_region [OF sh] by blast
    obtain r' where r': "r' \<in> region_set ?t" "region_id r' = loan_buffer l"
      using l closed unfolding L(2) R(2) closed_def by blast
    then have "r' = r" using region_unique [OF sh, of r' r] R(1) r by (auto simp: supports_def)
    then show "\<exists>r \<in> region_set ?t. supports r l" using r r' by blast
  qed
  moreover have "mappings_ok ?t"
    unfolding mappings_ok_def
  proof
    fix m assume m: "m \<in> mapping_set ?t"
    then obtain r where r: "r \<in> region_set t" "backs r m" "granted t r m" using M(1) mapping_region [OF sh] by blast
    obtain r' where r': "r' \<in> region_set ?t" "region_id r' = map_buffer m"
      using m closed unfolding M(2) R(2) closed_def by blast
    have eq: "r' = r" using region_unique [OF sh, of r' r] R(1) r r' by (auto simp: backs_def)
    have "granted ?t r m"
    proof (cases "map_via m")
      case (Some i)
      then obtain l where l: "l \<in> loan_set t" "loan_id l = i" "lends l m" using r(3) by (auto simp: granted_def)
      obtain l' where "l' \<in> loan_set ?t" "loan_id l' = i" using m Some closed unfolding M(2) L(2) closed_def by blast
      then show ?thesis using l loan_unique [OF sh, of l' l] L(1) Some by (auto simp: granted_def)
    qed (use r(3) in \<open>simp add: granted_def\<close>)
    then show "\<exists>r \<in> region_set ?t. backs r m \<and> granted ?t r m" using eq r r' by blast
  qed
  moreover have "orphans_ok ?t" using orph same R(2) by (simp add: orphans_ok_def)
  moreover have "budget ?t"
    using shapeD(7) [OF sh] buffer_accountsD(3) [OF acc] buffer_accountsD(3) [OF shapeD(2) [OF sh]]
      clear_tot_le [of map_count "remove_mappings plan" "[0..<length (mappings t)]" "mappings t"]
      clear_tot_le [of "\<lambda>r. anchors_len (anchors r)" "remove_regions plan" "[0..<length (regions t)]" "regions t"]
    by (simp add: budget_def residue_def orphan_count_def)
  ultimately show ?thesis using acc by (simp add: shape_def)
qed

section \<open>The actions of a plan\<close>

lemma push_all_Inr:
  "push_all f pages acts = Inr acts' \<longleftrightarrow> (\<exists>xs. map f pages = map Inr xs \<and> acts' = acts @ xs
     \<and> (pages = [] \<or> length acts + length pages \<le> MAX_TEARDOWN_ACTIONS \<or> MAX_TEARDOWN_ACTIONS < length acts))"
proof (induction pages arbitrary: acts)
  case (Cons page pages)
  show ?case
  proof (cases "f page")
    case (Inl e)
    then show ?thesis by (auto simp: rbind_Inr_iff)
  next
    case (Inr a)
    show ?thesis
    proof (cases "length acts = MAX_TEARDOWN_ACTIONS")
      case True
      then show ?thesis using Inr by (auto simp: rbind_Inr_iff action_push_def)
    next
      case False
      then have "push_all f (page # pages) acts = push_all f pages (acts @ [a])"
        using Inr by (simp add: action_push_def rbind_def)
      then show ?thesis using Inr Cons.IH [of "acts @ [a]"] False by (cases pages) (auto simp: Cons_eq_map_conv)
    qed
  qed
qed auto

text \<open>The frames of the removed regions, in slot order.\<close>

definition gone_frames :: "SharedBufferTable \<Rightarrow> TeardownPlan \<Rightarrow> nat list \<Rightarrow> FrameCap list" where
  "gone_frames t plan slots = concat (map (\<lambda>i. if remove_regions plan ! i
     then (case regions t ! i of None \<Rightarrow> [] | Some r \<Rightarrow> frame_list r) else []) slots)"

lemma map_frame_list:
  assumes "anchors_ok (anchors r)"
  shows "map (\<lambda>page. rbind (ok_or e (anchors_get (anchors r) page)) (\<lambda>frame. Inr (f frame))) [0..<anchors_len (anchors r)]
    = map Inr (map f (frame_list r))"
  by (rule nth_equalityI) (use assms in \<open>simp_all add: anchors_get_frame_list ok_or_def rbind_def\<close>)

lemma append_frames_Inr:
  assumes "append_frames f t plan slots acts = Inr acts'" "sized t" "\<forall>i \<in> set slots. i < length (regions t)"
  shows "acts' = acts @ map f (gone_frames t plan slots)"
  using assms
proof (induction slots arbitrary: acts)
  case Nil
  then show ?case by (simp add: gone_frames_def)
next
  case (Cons i slots)
  show ?case
  proof (cases "remove_regions plan ! i")
    case False
    then show ?thesis using Cons by (simp add: gone_frames_def)
  next
    case True
    then obtain r a where r: "regions t ! i = Some r"
      and a: "push_all (\<lambda>page. rbind (ok_or BadFrameAnchors (anchors_get (anchors r) page)) (\<lambda>frame. Inr (f frame)))
        [0..<anchors_len (anchors r)] acts = Inr a" and rest: "append_frames f t plan slots a = Inr acts'"
      using Cons.prems(1) by (auto simp: rbind_Inr_iff ok_or_Inr_iff)
    have "r \<in> region_set t" using r Cons.prems(3) by (auto simp: set_flatten_nth)
    then have "anchors_ok (anchors r)" using assms(2) by (simp add: sized_def)
    from map_frame_list [OF this, of BadFrameAnchors f]
    obtain xs where "map Inr (map f (frame_list r)) = (map Inr xs :: (SharedBufferError, AdapterAction) res list)" "a = acts @ xs"
      using a by (auto simp only: push_all_Inr)
    then have "a = acts @ map f (frame_list r)" using inj_map_eq_map [of Inr "map f (frame_list r)" xs] by (simp del: map_map)
    then show ?thesis using Cons.IH [OF rest] Cons.prems True r by (simp add: gone_frames_def)
  qed
qed

lemma append_region_reclamation_Inr:
  assumes "append_region_reclamation t plan acts = Inr acts'" "sized t"
  shows "acts' = acts @ map Revoke (gone_frames t plan [0..<length (regions t)])
    @ map ReleaseFrame (gone_frames t plan [0..<length (regions t)])"
  using assms append_frames_Inr [of Revoke t plan "[0..<length (regions t)]"]
    append_frames_Inr [of ReleaseFrame t plan "[0..<length (regions t)]"]
  by (fastforce simp: append_region_reclamation_def rbind_Inr_iff)

definition reclaiming :: "SharedBufferTable \<Rightarrow> TeardownPlan \<Rightarrow> AdapterAction list \<Rightarrow> bool" where
  "reclaiming t plan acts \<longleftrightarrow> (\<forall>i < length (regions t). \<forall>r. remove_regions plan ! i \<longrightarrow> regions t ! i = Some r
     \<longrightarrow> (\<forall>f \<in> frames r. list_ex (reclaims f) acts))"

lemma reclaiming_actions:
  assumes "append_region_reclamation t plan acts = Inr acts'" "sized t"
  shows "reclaiming t plan acts'"
  unfolding reclaiming_def
proof (intro allI impI ballI)
  fix i r f assume "i < length (regions t)" "remove_regions plan ! i" "regions t ! i = Some r" "f \<in> frames r"
  then have "f \<in> set (gone_frames t plan [0..<length (regions t)])" by (force simp: gone_frames_def frames_def)
  then show "list_ex (reclaims f) acts'"
    unfolding append_region_reclamation_Inr [OF assms] by (simp add: list_ex_iff reclaims_def bex_Un)
qed

section \<open>Executing a closed plan\<close>

lemma residue_shrunk_sets:
  assumes "shrunk t t1"
  shows "region_set (residue plan t1) = region_set (residue plan t)" "mapping_set (residue plan t1) = mapping_set (residue plan t)"
    "loan_set (residue plan t1) = loan_set (residue plan t)"
  using shrunk_fields [OF assms] by (simp_all add: residue_def)

lemma execute_teardown_shape:
  assumes sh: "shape t" and plan: "plan_marks t plan" "closed t plan" "reclaiming t plan acts"
    and run: "execute_teardown A acts plan (t, d) = (res, (t', d'))"
  shows "shape t' \<and> (case res of Inl e \<Rightarrow> shrunk t t'
    | Inr a \<Rightarrow> a = acts \<and> (\<exists>t1 cs n. shrunk t t1 \<and> t' = (residue plan t1)\<lparr>charges := cs, total_pages := n\<rparr>))"
proof -
  obtain q t1 d1 where q: "run_actions A acts (t, d) = (q, (t1, d1))" by (rule prod_cases3)
  note eff = run_actions_effect [OF q]
  then have s1: "shape t1" using shrunk_shape [OF sh] by blast
  show ?thesis
  proof (cases q)
    case (Inl e)
    then show ?thesis using run q eff s1 by (auto simp: execute_teardown_def)
  next
    case (Inr u)
    note f = shrunk_fields [OF conjunct1 [OF eff]]
    have "plan_marks t1 plan" using plan(1) f by (simp add: plan_marks_def)
    then obtain cs n where commit: "commit_teardown plan t1 = (Inr (), (residue plan t1)\<lparr>charges := cs, total_pages := n\<rparr>)"
      "buffer_accounts ((residue plan t1)\<lparr>charges := cs, total_pages := n\<rparr>)"
      using commit_teardown_ok [OF shapeD(2,1) [OF s1]] by blast
    have "\<exists>r \<in> region_set (residue plan t1). orphan_frame o' \<in> frames r" if o': "o' \<in> orphan_set t1" for o'
    proof -
      obtain r where r: "r \<in> region_set t1" "orphan_frame o' \<in> frames r" using o' shapeD(6) [OF s1] by (auto simp: orphans_ok_def)
      then obtain i where i: "i < length (regions t)" "regions t ! i = Some r" using f by (auto simp: set_flatten_nth)
      have "\<not> list_ex (reclaims (orphan_frame o')) acts" using eff Inr o' by simp
      then have "\<not> remove_regions plan ! i" using plan(3) i r(2) by (auto simp: reclaiming_def)
      then have "r \<in> region_set (residue plan t1)" unfolding residue_sets(1) using i f(1) by auto
      then show ?thesis using r(2) by blast
    qed
    moreover have "closed t1 plan" using plan(2) unfolding closed_def residue_shrunk_sets [OF conjunct1 [OF eff]] .
    ultimately have "shape ((residue plan t1)\<lparr>charges := cs, total_pages := n\<rparr>)"
      using residue_shape [OF s1] commit(2) by blast
    moreover have "res = Inr acts" "t' = (residue plan t1)\<lparr>charges := cs, total_pages := n\<rparr>"
      using run q Inr commit(1) by (simp_all add: execute_teardown_def on_table_def)
    ultimately show ?thesis using eff by auto
  qed
qed

section \<open>The plans of the operations\<close>

lemma length_mark [simp]: "length (mark P xs flags) = length flags"
proof -
  have "length (fold (\<lambda>slot flags. if is_some_and P (xs ! slot) then flags[slot := True] else flags) slots flags) = length flags" for slots
    by (induction slots arbitrary: flags) simp_all
  then show ?thesis by (simp add: mark_def)
qed

lemma mark_nth:
  assumes "i < length xs" "length flags = length xs"
  shows "mark P xs flags ! i \<longleftrightarrow> flags ! i \<or> is_some_and P (xs ! i)"
proof -
  have "fold (\<lambda>slot flags. if is_some_and P (xs ! slot) then flags[slot := True] else flags) slots flags ! i
      \<longleftrightarrow> flags ! i \<or> i \<in> set slots \<and> is_some_and P (xs ! i)"
    if "i < length flags" for slots
    using that
  proof (induction slots arbitrary: flags)
    case (Cons a slots)
    then show ?case by (cases "a = i") auto
  qed simp
  then show ?thesis using assms by (simp add: mark_def)
qed

lemma marks_mark: "marks flags xs \<Longrightarrow> marks (mark P xs flags) xs"
  by (auto simp: marks_def mark_nth is_some_and_iff)

lemma marks_new: "n = length xs \<Longrightarrow> marks (replicate n False) xs"
  by (simp add: marks_def)

text \<open>Closing a plan over its regions: a removed region, or a released one without remaining loans,
  goes with all its mappings.\<close>

definition plan_sized :: "SharedBufferTable \<Rightarrow> TeardownPlan \<Rightarrow> bool" where
  "plan_sized t plan \<longleftrightarrow> length (remove_mappings plan) = length (mappings t)
     \<and> length (remove_loans plan) = length (loans t) \<and> length (remove_regions plan) = length (regions t)"

definition goes :: "SharedBufferTable \<Rightarrow> TeardownPlan \<Rightarrow> nat \<Rightarrow> Region \<Rightarrow> bool" where
  "goes t plan i r \<longleftrightarrow> regions t ! i = Some r
     \<and> (released r \<and> \<not> loans_remain t plan (region_id r) \<or> remove_regions plan ! i)"

lemma complete_region_effect:
  assumes "plan_sized t plan" "a < length (regions t)"
  shows "plan_sized t (complete_region t a plan)" "remove_loans (complete_region t a plan) = remove_loans plan"
    "i < length (regions t) \<Longrightarrow> remove_regions (complete_region t a plan) ! i
       \<longleftrightarrow> remove_regions plan ! i \<or> i = a \<and> (\<exists>r. goes t plan i r)"
    "j < length (mappings t) \<Longrightarrow> remove_mappings (complete_region t a plan) ! j
       \<longleftrightarrow> remove_mappings plan ! j \<or> (\<exists>r m. goes t plan a r \<and> mappings t ! j = Some m \<and> map_buffer m = region_id r)"
  using assms
  by (auto simp: complete_region_def goes_def plan_sized_def mark_nth is_some_and_iff nth_list_update split: option.splits)

lemma complete_fold:
  assumes "plan_sized t plan" "\<forall>a \<in> set slots. a < length (regions t)"
  shows "plan_sized t (fold (complete_region t) slots plan) \<and> remove_loans (fold (complete_region t) slots plan) = remove_loans plan
    \<and> (\<forall>i < length (regions t). remove_regions (fold (complete_region t) slots plan) ! i
         \<longleftrightarrow> remove_regions plan ! i \<or> i \<in> set slots \<and> (\<exists>r. goes t plan i r))
    \<and> (\<forall>j < length (mappings t). remove_mappings (fold (complete_region t) slots plan) ! j
         \<longleftrightarrow> remove_mappings plan ! j
           \<or> (\<exists>a \<in> set slots. \<exists>r m. goes t plan a r \<and> mappings t ! j = Some m \<and> map_buffer m = region_id r))"
  using assms
proof (induction slots arbitrary: plan)
  case (Cons a slots)
  let ?p = "complete_region t a plan"
  note eff = complete_region_effect [OF Cons.prems(1), of a]
  have a: "a < length (regions t)" using Cons.prems(2) by simp
  have goes: "goes t ?p i r \<longleftrightarrow> goes t plan i r" if "i < length (regions t)" for i r
  proof -
    have "loans_remain t ?p b = loans_remain t plan b" for b using eff(2) [OF a] by (simp add: loans_remain_def)
    then show ?thesis unfolding goes_def [of t ?p] eff(3) [OF a that] by (metis goes_def option.inject)
  qed
  have "\<forall>b \<in> set slots. b < length (regions t)" using Cons.prems(2) by simp
  note IH = Cons.IH [OF eff(1) [OF a] this]
  have same: "(\<exists>b \<in> set slots. \<exists>r m. goes t ?p b r \<and> Q r m) \<longleftrightarrow> (\<exists>b \<in> set slots. \<exists>r m. goes t plan b r \<and> Q r m)" for Q
    using goes Cons.prems(2) by (metis list.set_intros(2))
  show ?case
  proof (intro conjI allI impI)
    show "plan_sized t (fold (complete_region t) (a # slots) plan)" "remove_loans (fold (complete_region t) (a # slots) plan) = remove_loans plan"
      using conjunct1 [OF IH] conjunct1 [OF conjunct2 [OF IH]] eff(2) [OF a] by simp_all
    show "remove_regions (fold (complete_region t) (a # slots) plan) ! i
         \<longleftrightarrow> remove_regions plan ! i \<or> i \<in> set (a # slots) \<and> (\<exists>r. goes t plan i r)" if "i < length (regions t)" for i
      unfolding fold_simps conjunct1 [OF conjunct2 [OF conjunct2 [OF IH]], rule_format, OF that] goes [OF that] eff(3) [OF a that] by auto
    show "remove_mappings (fold (complete_region t) (a # slots) plan) ! j \<longleftrightarrow> remove_mappings plan ! j
        \<or> (\<exists>a \<in> set (a # slots). \<exists>r m. goes t plan a r \<and> mappings t ! j = Some m \<and> map_buffer m = region_id r)"
      if "j < length (mappings t)" for j
      unfolding fold_simps conjunct2 [OF conjunct2 [OF conjunct2 [OF IH]], rule_format, OF that] same eff(4) [OF a that] by auto
  qed
qed simp

lemmas complete_removals = complete_fold [of t plan "[0..<length (regions t)]" for t plan, folded complete_region_removals_def]

lemma region_at:
  "r \<in> region_set t \<Longrightarrow> \<exists>i < length (regions t). regions t ! i = Some r"
  by (simp add: set_flatten_nth)

lemma complete_closed:
  assumes sh: "shape t" and marks: "plan_marks t plan"
    and via: "\<forall>j < length (mappings t). \<forall>m i. mappings t ! j = Some m \<longrightarrow> map_via m = Some i
      \<longrightarrow> (\<exists>k < length (loans t). \<exists>l. remove_loans plan ! k \<and> loans t ! k = Some l \<and> loan_id l = i) \<longrightarrow> remove_mappings plan ! j"
    and lent: "\<forall>i < length (regions t). \<forall>r. remove_regions plan ! i \<longrightarrow> regions t ! i = Some r
      \<longrightarrow> (\<forall>k < length (loans t). \<forall>l. loans t ! k = Some l \<longrightarrow> loan_buffer l = region_id r \<longrightarrow> remove_loans plan ! k)"
  shows "plan_marks t (complete_region_removals t plan)" "closed t (complete_region_removals t plan)"
proof -
  let ?p = "complete_region_removals t plan"
  have ps: "plan_sized t plan" using marks by (simp add: plan_marks_def plan_sized_def marks_def)
  note C = complete_removals [OF ps, simplified]
  have L: "remove_loans ?p = remove_loans plan" and ps': "plan_sized t ?p" using C by simp_all
  have R: "remove_regions ?p ! i \<longleftrightarrow> remove_regions plan ! i \<or> (\<exists>r. goes t plan i r)" if "i < length (regions t)" for i
    using C that by simp
  have M: "remove_mappings ?p ! j \<longleftrightarrow> remove_mappings plan ! j
      \<or> (\<exists>a < length (regions t). \<exists>r m. goes t plan a r \<and> mappings t ! j = Some m \<and> map_buffer m = region_id r)"
    if "j < length (mappings t)" for j
    using C that by (simp add: Bex_def)
  have gone: "goes t plan i r" if "i < length (regions t)" "regions t ! i = Some r" "remove_regions ?p ! i" for i r
    using R [OF that(1)] that(2,3) by (metis goes_def option.inject)
  show "plan_marks t ?p"
    using marks ps' L R M by (auto simp: plan_marks_def marks_def plan_sized_def goes_def)
  have keepR: "r \<in> region_set (residue ?p t)" if "i < length (regions t)" "regions t ! i = Some r" "\<not> goes t plan i r" for i r
    using that gone residue_sets(1) by blast
  have keepL: "l \<in> loan_set (residue ?p t)" if "k < length (loans t)" "loans t ! k = Some l" "\<not> remove_loans plan ! k" for k l
    using that L residue_sets(3) by metis
  show "closed t ?p"
    unfolding closed_def
  proof (intro conjI ballI allI impI)
    fix m assume "m \<in> mapping_set (residue ?p t)"
    then obtain j where j: "j < length (mappings t)" "mappings t ! j = Some m" "\<not> remove_mappings ?p ! j" unfolding residue_sets by blast
    then have m: "m \<in> mapping_set t" by (auto simp: set_flatten_nth)
    obtain r where r: "r \<in> region_set t" "backs r m" "granted t r m" by (rule mapping_region [OF sh m])
    obtain i where i: "i < length (regions t)" "regions t ! i = Some r" using region_at [OF r(1)] by blast
    have "map_buffer m = region_id r" using r(2) by (simp add: backs_def)
    then have "\<not> goes t plan i r" using j M [OF j(1)] i by blast
    then show "\<exists>r \<in> region_set (residue ?p t). region_id r = map_buffer m" using keepR [OF i] r(2) by (auto simp: backs_def)
    fix b assume b: "map_via m = Some b"
    then obtain l where l: "l \<in> loan_set t" "loan_id l = b" using r(3) by (auto simp: granted_def)
    then obtain k where k: "k < length (loans t)" "loans t ! k = Some l" by (auto simp: set_flatten_nth)
    have "\<not> remove_loans plan ! k" using via j M [OF j(1)] b k l(2) by blast
    then show "\<exists>l \<in> loan_set (residue ?p t). loan_id l = b" using keepL [OF k] l(2) by blast
  next
    fix l assume "l \<in> loan_set (residue ?p t)"
    then obtain k where k: "k < length (loans t)" "loans t ! k = Some l" "\<not> remove_loans plan ! k" unfolding residue_sets L by blast
    then have "l \<in> loan_set t" by (auto simp: set_flatten_nth)
    then obtain r where r: "r \<in> region_set t" "supports r l" by (rule loan_region [OF sh])
    obtain i where i: "i < length (regions t)" "regions t ! i = Some r" using region_at [OF r(1)] by blast
    have "loans_remain t plan (region_id r)" using k r(2) by (auto simp: loans_remain_def list_ex_iff supports_def)
    moreover have "\<not> remove_regions plan ! i" using lent i k r(2) by (auto simp: supports_def)
    ultimately have "\<not> goes t plan i r" by (simp add: goes_def)
    then show "\<exists>r \<in> region_set (residue ?p t). region_id r = loan_buffer l" using keepR [OF i] r(2) by (auto simp: supports_def)
  next
    fix r assume "r \<in> region_set (residue ?p t)" "released r"
    then obtain i where i: "i < length (regions t)" "regions t ! i = Some r" "\<not> remove_regions ?p ! i" unfolding residue_sets by blast
    then have "loans_remain t plan (region_id r)" using R [OF i(1)] \<open>released r\<close> by (auto simp: goes_def)
    then show "\<exists>l \<in> loan_set (residue ?p t). loan_buffer l = region_id r"
      using keepL by (fastforce simp: loans_remain_def list_ex_iff is_some_and_iff)
  qed
qed

text \<open>A plan that only removes mappings.\<close>

lemma mappings_only_closed:
  assumes "shape t" "\<forall>i < length (regions t). \<not> remove_regions plan ! i" "\<forall>i < length (loans t). \<not> remove_loans plan ! i"
  shows "closed t plan"
proof -
  have R: "region_set (residue plan t) = region_set t" and L: "loan_set (residue plan t) = loan_set t"
    using assms(2,3) by (auto simp: residue_def set_flatten_clear_all) (auto simp: set_flatten_nth)
  show ?thesis
    unfolding closed_def R L
  proof (intro conjI ballI allI impI)
    fix m assume "m \<in> mapping_set (residue plan t)"
    then have m: "m \<in> mapping_set t" using residue_subset(2) by blast
    obtain r where r: "r \<in> region_set t" "backs r m" "granted t r m" by (rule mapping_region [OF assms(1) m])
    then show "\<exists>r \<in> region_set t. region_id r = map_buffer m" by (auto simp: backs_def)
    show "\<exists>l \<in> loan_set t. loan_id l = i" if "map_via m = Some i" for i
      using r(3) that by (auto simp: granted_def)
  next
    show "\<exists>r \<in> region_set t. region_id r = loan_buffer l" if l: "l \<in> loan_set t" for l
      using loan_region [OF assms(1) l] by (metis supports_def)
    show "\<exists>l \<in> loan_set t. loan_buffer l = region_id r" if "r \<in> region_set t" "released r" for r
      using shapeD(3) [OF assms(1)] that by (auto simp: regions_ok_def)
  qed
qed

text \<open>Settling loans.\<close>

lemma teardown_new_marks:
  "sized t \<Longrightarrow> plan_marks t teardown_new"
  by (simp add: plan_marks_def teardown_new_def sized_def marks_new)

lemma teardown_new_nth:
  assumes "sized t"
  shows "i < length (mappings t) \<Longrightarrow> \<not> remove_mappings teardown_new ! i" "i < length (loans t) \<Longrightarrow> \<not> remove_loans teardown_new ! i"
    "i < length (regions t) \<Longrightarrow> \<not> remove_regions teardown_new ! i"
  using assms by (simp_all add: teardown_new_def sized_def)

definition settling :: "SharedBufferTable \<Rightarrow> (Loan \<Rightarrow> bool) \<Rightarrow> TeardownPlan" where
  "settling t P = (let plan = teardown_new\<lparr>remove_loans := mark P (loans t) (remove_loans teardown_new)\<rparr>
     in plan\<lparr>remove_mappings := mark (settles_mapping t plan) (mappings t) (remove_mappings plan)\<rparr>)"

lemma plan_settle_loans_eq: "plan_settle_loans t P = complete_region_removals t (settling t P)"
  by (simp add: plan_settle_loans_def settling_def Let_def)

lemma settling_marks: "sized t \<Longrightarrow> plan_marks t (settling t P)"
  using teardown_new_marks [of t] by (simp add: plan_marks_def settling_def Let_def marks_mark)

lemma settles_mapping_iff:
  "settles_mapping t plan m \<longleftrightarrow> (\<exists>i. map_via m = Some i
     \<and> (\<exists>k < length (loans t). \<exists>l. remove_loans plan ! k \<and> loans t ! k = Some l \<and> loan_id l = i))"
  unfolding settles_mapping_def is_some_and_iff list_ex_iff by (simp add: Bex_def)

lemma settling_nth:
  assumes "sized t"
  shows "k < length (loans t) \<Longrightarrow> remove_loans (settling t P) ! k \<longleftrightarrow> is_some_and P (loans t ! k)"
    "i < length (regions t) \<Longrightarrow> \<not> remove_regions (settling t P) ! i"
    "j < length (mappings t) \<Longrightarrow> remove_mappings (settling t P) ! j \<longleftrightarrow> is_some_and (settles_mapping t (settling t P)) (mappings t ! j)"
proof -
  have len: "length (remove_mappings teardown_new) = length (mappings t)" "length (remove_loans teardown_new) = length (loans t)"
    using teardown_new_marks [OF assms] by (simp_all add: plan_marks_def marks_def)
  have "settles_mapping t (settling t P) = settles_mapping t (teardown_new\<lparr>remove_loans := mark P (loans t) (remove_loans teardown_new)\<rparr>)"
    by (simp add: fun_eq_iff settles_mapping_def settling_def Let_def)
  then show "k < length (loans t) \<Longrightarrow> remove_loans (settling t P) ! k \<longleftrightarrow> is_some_and P (loans t ! k)"
    "i < length (regions t) \<Longrightarrow> \<not> remove_regions (settling t P) ! i"
    "j < length (mappings t) \<Longrightarrow> remove_mappings (settling t P) ! j \<longleftrightarrow> is_some_and (settles_mapping t (settling t P)) (mappings t ! j)"
    using teardown_new_nth [OF assms] len by (simp_all add: settling_def Let_def mark_nth)
qed

lemma settling_via:
  assumes "sized t" "j < length (mappings t)" "mappings t ! j = Some m" "map_via m = Some i"
    "\<exists>k < length (loans t). \<exists>l. remove_loans (settling t P) ! k \<and> loans t ! k = Some l \<and> loan_id l = i"
  shows "remove_mappings (settling t P) ! j"
proof -
  have "settles_mapping t (settling t P) m" unfolding settles_mapping_iff using assms(4,5) by blast
  then show ?thesis using settling_nth(3) [OF assms(1,2), of P] assms(3) by simp
qed

lemma plan_settle_loans_closed:
  assumes sh: "shape t"
  shows "plan_marks t (plan_settle_loans t P)" "closed t (plan_settle_loans t P)"
  unfolding plan_settle_loans_eq
  by (rule complete_closed [OF sh settling_marks [OF shapeD(1) [OF sh]]];
      use settling_via [OF shapeD(1) [OF sh]] settling_nth(2) [OF shapeD(1) [OF sh]] in blast)+

text \<open>Reclaiming a holder: its loans in either direction, its mappings and its regions.\<close>

definition reclaim_plan :: "SharedBufferTable \<Rightarrow> HolderId \<Rightarrow> TeardownPlan" where
  "reclaim_plan t h = (let plan = plan_settle_loans t (\<lambda>l. lender l = h \<or> loan_receiver l = h)
     in plan\<lparr>remove_mappings := mark (\<lambda>m. map_holder m = h) (mappings t) (remove_mappings plan),
          remove_regions := mark (\<lambda>r. owner r = h) (regions t) (remove_regions plan)\<rparr>)"

lemma reclaim_holder_eq: "reclaim_holder A h s = teardown A (Inr (complete_region_removals (fst s) (reclaim_plan (fst s) h))) s"
  by (simp add: reclaim_holder_def reclaim_plan_def Let_def)

lemma plan_settle_loans_nth:
  assumes sh: "shape t"
  shows "remove_loans (plan_settle_loans t P) = remove_loans (settling t P)"
    "i < length (regions t) \<Longrightarrow> remove_regions (plan_settle_loans t P) ! i \<longleftrightarrow> (\<exists>r. goes t (settling t P) i r)"
    "j < length (mappings t) \<Longrightarrow> remove_mappings (settling t P) ! j \<Longrightarrow> remove_mappings (plan_settle_loans t P) ! j"
proof -
  have "plan_sized t (settling t P)"
    using settling_marks [OF shapeD(1) [OF sh]] by (simp add: plan_marks_def plan_sized_def marks_def)
  from complete_removals [OF this, simplified]
  show "remove_loans (plan_settle_loans t P) = remove_loans (settling t P)"
    "i < length (regions t) \<Longrightarrow> remove_regions (plan_settle_loans t P) ! i \<longleftrightarrow> (\<exists>r. goes t (settling t P) i r)"
    "j < length (mappings t) \<Longrightarrow> remove_mappings (settling t P) ! j \<Longrightarrow> remove_mappings (plan_settle_loans t P) ! j"
    using settling_nth(2) [OF shapeD(1) [OF sh], of i P] by (simp_all add: plan_settle_loans_eq)
qed

lemma reclaim_plan_closed:
  assumes sh: "shape t"
  shows "plan_marks t (complete_region_removals t (reclaim_plan t h))" "closed t (complete_region_removals t (reclaim_plan t h))"
proof -
  let ?P = "\<lambda>l. lender l = h \<or> loan_receiver l = h"
  let ?s = "plan_settle_loans t ?P"
  note sz = shapeD(1) [OF sh] and nth = plan_settle_loans_nth [OF sh, where P = ?P]
  have ms: "plan_marks t ?s" by (rule plan_settle_loans_closed [OF sh])
  then have marks: "plan_marks t (reclaim_plan t h)"
    by (simp add: plan_marks_def reclaim_plan_def Let_def marks_mark)
  have len: "length (remove_mappings ?s) = length (mappings t)" "length (remove_regions ?s) = length (regions t)"
    using ms by (simp_all add: plan_marks_def marks_def)
  have loans: "remove_loans (reclaim_plan t h) = remove_loans (settling t ?P)" by (simp add: reclaim_plan_def Let_def nth(1))
  have via: "remove_mappings (reclaim_plan t h) ! j" if "j < length (mappings t)" "mappings t ! j = Some m" "map_via m = Some i"
    "\<exists>k < length (loans t). \<exists>l. remove_loans (reclaim_plan t h) ! k \<and> loans t ! k = Some l \<and> loan_id l = i" for j m i
    using nth(3) [OF that(1) settling_via [OF sz that(1-3)]] that(1,4) len by (simp add: loans) (simp add: reclaim_plan_def Let_def mark_nth)
  have lent: "remove_loans (reclaim_plan t h) ! k" if i: "i < length (regions t)" "regions t ! i = Some r" "remove_regions (reclaim_plan t h) ! i"
    and k: "k < length (loans t)" "loans t ! k = Some l" "loan_buffer l = region_id r" for i r k l
  proof (cases "owner r = h")
    case True
    have "l \<in> loan_set t" "r \<in> region_set t" using i k by (auto simp: set_flatten_nth)
    then have "lender l = owner r" using loan_region [OF sh] region_unique [OF sh] k(3) by (metis supports_def)
    then show ?thesis using True k settling_nth(1) [OF sz k(1), of ?P] by (simp add: loans)
  next
    case False
    then have "remove_regions ?s ! i" using i len by (simp add: reclaim_plan_def Let_def mark_nth)
    then obtain r' where "goes t (settling t ?P) i r'" using nth(2) [OF i(1)] by blast
    then have "\<not> loans_remain t (settling t ?P) (region_id r)" using i(2) settling_nth(2) [OF sz i(1), of ?P] by (simp add: goes_def)
    then show ?thesis using k unfolding loans by (auto simp: loans_remain_def list_ex_iff)
  qed
  show "plan_marks t (complete_region_removals t (reclaim_plan t h))" "closed t (complete_region_removals t (reclaim_plan t h))"
    by (rule complete_closed [OF sh marks]; use via lent in blast)+
qed

section \<open>The operations keep the invariant\<close>

lemma build_actions_reclaiming:
  assumes "build_actions t plan = Inr acts" "sized t"
  shows "reclaiming t plan acts"
  using assms reclaiming_actions [of t plan _ acts] by (auto simp: build_actions_def rbind_Inr_iff)

text \<open>A closed plan is torn down completely or, if the adapter refuses an action, only orphans disappear.\<close>

lemma teardown_cases:
  assumes sh: "shape t" and plan: "\<forall>plan. planned = Inr plan \<longrightarrow> plan_marks t plan \<and> closed t plan"
    and run: "teardown A planned (t, d) = (res, (t', d'))"
  shows "shape t' \<and> (case res of Inl e \<Rightarrow> shrunk t t'
    | Inr a \<Rightarrow> \<exists>plan t1 cs n. planned = Inr plan \<and> build_actions t plan = Inr a \<and> shrunk t t1
        \<and> t' = (residue plan t1)\<lparr>charges := cs, total_pages := n\<rparr>)"
proof (cases "rbind planned (\<lambda>plan. rbind (build_actions t plan) (\<lambda>acts. Inr (plan, acts)))")
  case (Inl e)
  then show ?thesis using run sh by (auto simp: teardown_def)
next
  case (Inr x)
  then obtain p acts where p: "planned = Inr p" "build_actions t p = Inr acts" "x = (p, acts)" by (auto simp: rbind_Inr_iff)
  then have "execute_teardown A acts p (t, d) = (res, (t', d'))" using run Inr by (simp add: teardown_def)
  from execute_teardown_shape [OF sh _ _ build_actions_reclaiming [OF p(2) shapeD(1) [OF sh]] this] plan p
  show ?thesis by (auto split: sum.splits)
qed

lemma sbind_return_state: "m s = (q, s') \<Longrightarrow> sbind m (\<lambda>_. sreturn ()) s = (res, s'') \<Longrightarrow> s'' = s'"
  by (auto simp: sbind_def sreturn_def split: sum.splits)

lemma return_loan_shape:
  assumes sh: "shape t" and run: "return_loan A h handle (t, d) = (res, (t', d'))"
  shows "shape t'"
proof -
  let ?planned = "rbind (authorize_loan t h handle) (\<lambda>l. Inr (plan_settle_loans t (\<lambda>c. loan_id c = loan_id l)))"
  obtain q t1 d1 where q: "teardown A ?planned (t, d) = (q, (t1, d1))" by (rule prod_cases3)
  have "shape t1" using teardown_cases [OF sh _ q] plan_settle_loans_closed [OF sh] by (auto simp: rbind_Inr_iff)
  moreover have "(t', d') = (t1, d1)" using run by (intro sbind_return_state [of "teardown A ?planned" "(t, d)" q "(t1, d1)" res, OF q]) (simp add: return_loan_def)
  ultimately show ?thesis by simp
qed

lemma revoke_loan_shape:
  assumes sh: "shape t" and run: "revoke_loan A h handle (t, d) = (res, (t', d'))"
  shows "shape t'"
proof -
  let ?planned = "rbind (check_epoch t (lh_epoch handle)) (\<lambda>_. rbind (live_loan t (lh_id handle)) (\<lambda>l.
    if loan_buffer l \<noteq> lh_buffer handle then Inl NotFound else if lender l \<noteq> h then Inl WrongOwner
    else Inr (plan_settle_loans t (\<lambda>c. loan_id c = loan_id l))))"
  obtain q t1 d1 where q: "teardown A ?planned (t, d) = (q, (t1, d1))" by (rule prod_cases3)
  have "plan_marks t p \<and> closed t p" if p: "?planned = Inr p" for p
  proof -
    obtain P where "p = plan_settle_loans t P"
      using p by (auto simp: rbind_Inr_iff split: if_splits)
    then show ?thesis using plan_settle_loans_closed [OF sh] by simp
  qed
  then have "shape t1" using teardown_cases [OF sh _ q] by blast
  moreover have "(t', d') = (t1, d1)" using run by (intro sbind_return_state [of "teardown A ?planned" "(t, d)" q "(t1, d1)" res, OF q]) (simp only: revoke_loan_def Let_def fst_conv)
  ultimately show ?thesis by simp
qed

lemma reclaim_holder_shape:
  assumes sh: "shape t" and run: "reclaim_holder A h (t, d) = (res, (t', d'))"
  shows "shape t'"
  using teardown_cases [OF sh _ run [unfolded reclaim_holder_eq fst_conv]] reclaim_plan_closed [OF sh] by auto

lemma unmap_plan_closed:
  assumes sh: "shape t" and slot: "slot < length (mappings t)" "mappings t ! slot = Some m"
    and plan: "plan = teardown_new\<lparr>remove_mappings := (remove_mappings teardown_new)[slot := True]\<rparr>"
  shows "plan_marks t plan" "closed t plan" "reclaiming t plan acts"
proof -
  note new = teardown_new_marks [OF shapeD(1) [OF sh]] teardown_new_nth [OF shapeD(1) [OF sh]]
  show "plan_marks t plan"
    using new slot by (auto simp: plan plan_marks_def marks_def nth_list_update)
  show "closed t plan" by (rule mappings_only_closed [OF sh]) (use new in \<open>simp_all add: plan\<close>)
  show "reclaiming t plan acts" using new by (simp add: reclaiming_def plan)
qed

definition unmap_plan :: "nat \<Rightarrow> TeardownPlan" where
  "unmap_plan slot = teardown_new\<lparr>remove_mappings := (remove_mappings teardown_new)[slot := True]\<rparr>"

lemma unmap_authorized_cases:
  assumes run: "unmap_authorized A h handle vspace base thr (t, d) = (res, (t', d'))"
  obtains (refused) e where "res = Inl e" "t' = t" "d' = d"
  | (torn) slot m acts q where "slot < length (mappings t)" "mappings t ! slot = Some m" "append_mapping_actions t slot [] = Inr acts"
      "execute_teardown A acts (unmap_plan slot) (t, d) = (q, (t', d'))"
proof -
  define checks where "checks = rbind (if \<not> thr then rbind (authorize t h handle RIGHT_MAP) (\<lambda>_. Inr ()) else Inr ()) (\<lambda>_.
    rbind (ok_or NotFound (position (is_some_and (\<lambda>m. map_holder m = h
        \<and> map_buffer m = handle_id handle \<and> map_epoch m = handle_epoch handle
        \<and> map_vspace m = vspace \<and> map_base m = base
        \<and> (map_via m \<noteq> None) = thr)) (mappings t))) (\<lambda>slot.
    rbind (append_mapping_actions t slot []) (\<lambda>acts. Inr (slot, acts))))"
  have run': "sbind (slift checks) (\<lambda>(slot, acts). sbind (execute_teardown A acts (unmap_plan slot)) (\<lambda>_. sreturn ())) (t, d) = (res, (t', d'))"
    using run unfolding unmap_authorized_def Let_def fst_conv checks_def unmap_plan_def .
  show ?thesis
  proof (cases checks)
    case (Inl e)
    then show ?thesis using run' refused [of e] by simp
  next
    case (Inr x)
    then obtain slot acts m where x: "x = (slot, acts)" "slot < length (mappings t)" "mappings t ! slot = Some m"
      "append_mapping_actions t slot [] = Inr acts"
      by (auto simp: checks_def rbind_Inr_iff ok_or_Inr_iff position_Some is_some_and_iff split: if_splits)
    obtain q t1 d1 where q: "execute_teardown A acts (unmap_plan slot) (t, d) = (q, (t1, d1))" by (rule prod_cases3)
    have "(t', d') = (t1, d1)"
      using run' Inr x(1) by (intro sbind_return_state [of "execute_teardown A acts (unmap_plan slot)" "(t, d)" q "(t1, d1)" res, OF q]) simp
    then show ?thesis using torn [OF x(2-4)] q by simp
  qed
qed

lemma unmap_authorized_shape:
  assumes sh: "shape t" and run: "unmap_authorized A h handle vspace base thr (t, d) = (res, (t', d'))"
  shows "shape t'"
  using run
proof (cases rule: unmap_authorized_cases)
  case (torn slot m acts q)
  then show ?thesis using execute_teardown_shape [OF sh unmap_plan_closed [OF sh torn(1,2) unmap_plan_def] torn(4)] by simp
qed (use sh in simp)

lemma unmap_shape:
  "shape t \<Longrightarrow> unmap A h handle vspace base (t, d) = (res, (t', d')) \<Longrightarrow> shape t'"
  unfolding unmap_def by (rule unmap_authorized_shape)

lemma unmap_loan_shape:
  assumes sh: "shape t" and run: "unmap_loan A h handle vspace base (t, d) = (res, (t', d'))"
  shows "shape t'"
  using run sh unmap_authorized_shape [OF sh]
  by (cases "authorize_loan t h handle") (auto simp: unmap_loan_def)

text \<open>Releasing a region: at once when nothing is lent, and only the owner's own mappings otherwise.\<close>

definition release_plan :: "SharedBufferTable \<Rightarrow> nat \<Rightarrow> Region \<Rightarrow> TeardownPlan" where
  "release_plan t slot r = teardown_new
     \<lparr>remove_mappings := mark (\<lambda>m. map_buffer m = region_id r \<and> (map_via m = None \<or> \<not> has_region_loans t (region_id r)))
        (mappings t) (remove_mappings teardown_new),
      remove_regions := (if has_region_loans t (region_id r) then remove_regions teardown_new
        else (remove_regions teardown_new)[slot := True])\<rparr>"

lemma has_region_loans_iff: "has_region_loans t b \<longleftrightarrow> (\<exists>l \<in> loan_set t. loan_buffer l = b)"
  by (simp add: has_region_loans_def list_ex_iff)

lemma release_plan_nth:
  assumes "sized t"
  shows "j < length (mappings t) \<Longrightarrow> remove_mappings (release_plan t slot r) ! j \<longleftrightarrow>
      is_some_and (\<lambda>m. map_buffer m = region_id r \<and> (map_via m = None \<or> \<not> has_region_loans t (region_id r))) (mappings t ! j)"
    "k < length (loans t) \<Longrightarrow> \<not> remove_loans (release_plan t slot r) ! k"
    "i < length (regions t) \<Longrightarrow> remove_regions (release_plan t slot r) ! i \<longleftrightarrow> i = slot \<and> \<not> has_region_loans t (region_id r)"
  using assms teardown_new_nth [OF assms] teardown_new_marks [OF assms]
  by (auto simp: release_plan_def mark_nth plan_marks_def marks_def nth_list_update) (metis nth_list_update_neq)

lemma release_plan_closed:
  assumes sh: "shape t" and slot: "slot < length (regions t)" "regions t ! slot = Some r"
  shows "plan_marks t (release_plan t slot r)" "closed t (release_plan t slot r)"
proof -
  let ?p = "release_plan t slot r"
  note sz = shapeD(1) [OF sh] and nth = release_plan_nth [OF shapeD(1) [OF sh], of _ slot r]
  have new: "plan_marks t teardown_new" by (rule teardown_new_marks [OF sz])
  then show "plan_marks t ?p"
    using slot unfolding plan_marks_def release_plan_def by (auto simp: marks_mark) (auto simp: marks_def nth_list_update)
  show "closed t ?p"
  proof (cases "has_region_loans t (region_id r)")
    case True
    then show ?thesis using nth by (intro mappings_only_closed [OF sh]) auto
  next
    case False
    have d: "distinct (map region_id (flatten (regions t)))" using sh by (simp add: shape_defs)
    have keepR: "r' \<in> region_set (residue ?p t)" if r': "r' \<in> region_set t" "region_id r' \<noteq> region_id r" for r'
    proof -
      obtain i where i: "i < length (regions t)" "regions t ! i = Some r'" using region_at [OF r'(1)] by blast
      then have "i \<noteq> slot" using slot(2) r'(2) by auto
      then show ?thesis unfolding residue_sets(1) using i nth(3) by blast
    qed
    have L: "loan_set (residue ?p t) = loan_set t" using nth(2) by (auto simp: residue_sets(3)) (auto simp: set_flatten_nth)
    show ?thesis
      unfolding closed_def L
    proof (intro conjI ballI allI impI)
      fix m assume "m \<in> mapping_set (residue ?p t)"
      then obtain j where j: "j < length (mappings t)" "mappings t ! j = Some m" "\<not> remove_mappings ?p ! j" unfolding residue_sets by blast
      then have m: "m \<in> mapping_set t" "map_buffer m \<noteq> region_id r" using nth(1) False by (auto simp: set_flatten_nth)
      obtain r' where r': "r' \<in> region_set t" "backs r' m" "granted t r' m" by (rule mapping_region [OF sh m(1)])
      then show "\<exists>r \<in> region_set (residue ?p t). region_id r = map_buffer m" using keepR [of r'] m(2) by (auto simp: backs_def)
      show "\<exists>l \<in> loan_set t. loan_id l = i" if "map_via m = Some i" for i using r'(3) that by (auto simp: granted_def)
    next
      fix l assume l: "l \<in> loan_set t"
      obtain r' where r': "r' \<in> region_set t" "supports r' l" by (rule loan_region [OF sh l])
      then show "\<exists>r \<in> region_set (residue ?p t). region_id r = loan_buffer l"
        using keepR [of r'] False l by (auto simp: supports_def has_region_loans_iff)
    next
      fix r' assume r': "r' \<in> region_set (residue ?p t)" "released r'"
      then have "r' \<in> region_set t" using residue_subset(1) by blast
      then show "\<exists>l \<in> loan_set t. loan_buffer l = region_id r'"
        using shapeD(3) [OF sh] r'(2) by (simp add: regions_ok_def)
    qed
  qed
qed

lemma shape_release:
  assumes sh: "shape t" and slot: "slot < length (regions t)" "regions t ! slot = Some r"
    and lent: "has_region_loans t (region_id r)" and own: "\<forall>m \<in> mapping_set t. map_buffer m = region_id r \<longrightarrow> map_via m \<noteq> None"
  shows "shape (t\<lparr>regions := (regions t)[slot := Some (r\<lparr>released := True\<rparr>)]\<rparr>)"
  by (rule shape_region_update [OF sh slot, of "\<lambda>r. r\<lparr>released := True\<rparr>"])
    (use lent own in \<open>simp_all add: has_region_loans_iff\<close>)

lemma release_cases:
  assumes sh: "shape t" and run: "release A h handle (t, d) = (res, (t', d'))"
  obtains (refused) e where "res = Inl e" "t' = t" "d' = d"
  | (torn) r slot acts0 acts q t1 where "slot < length (regions t)" "regions t ! slot = Some r"
      "append_mappings t (release_plan t slot r) [0..<length (mappings t)] [] = Inr acts0"
      "append_region_reclamation t (release_plan t slot r) acts0 = Inr acts"
      "execute_teardown A acts (release_plan t slot r) (t, d) = (q, (t1, d'))"
      "t' = (case q of Inr _ \<Rightarrow> if has_region_loans t (region_id r) then snd (update_region slot (\<lambda>r. r\<lparr>released := True\<rparr>) t1) else t1 | Inl _ \<Rightarrow> t1)"
proof -
  define checks where "checks = rbind (authorize t h handle RIGHT_MAP) (\<lambda>(r, _).
    rbind (live_region_slot t (handle_id handle)) (\<lambda>slot.
    rbind (append_mappings t (release_plan t slot r) [0..<length (mappings t)] []) (\<lambda>acts.
    rbind (append_region_reclamation t (release_plan t slot r) acts) (\<lambda>acts.
    Inr (slot, has_region_loans t (region_id r), release_plan t slot r, acts)))))"
  have run': "sbind (slift checks) (\<lambda>(slot, has_loans, plan, acts). sbind (execute_teardown A acts plan) (\<lambda>_.
      if has_loans then on_table (update_region slot (\<lambda>r. r\<lparr>released := True\<rparr>)) else sreturn ())) (t, d) = (res, (t', d'))"
    using run unfolding release_def Let_def fst_conv checks_def release_plan_def .
  show ?thesis
  proof (cases checks)
    case (Inl e)
    then show ?thesis using run' refused [of e] by simp
  next
    case (Inr x)
    then obtain r e slot acts0 acts where c: "authorize t h handle RIGHT_MAP = Inr (r, e)" "live_region_slot t (handle_id handle) = Inr slot"
      and acts: "append_mappings t (release_plan t slot r) [0..<length (mappings t)] [] = Inr acts0"
        "append_region_reclamation t (release_plan t slot r) acts0 = Inr acts"
      and x: "x = (slot, has_region_loans t (region_id r), release_plan t slot r, acts)"
      unfolding checks_def by (auto simp: rbind_Inr_iff)
    obtain q t1 d1 where q: "execute_teardown A acts (release_plan t slot r) (t, d) = (q, (t1, d1))" by (rule prod_cases3)
    have "d' = d1 \<and> t' = (case q of Inr _ \<Rightarrow> if has_region_loans t (region_id r)
        then snd (update_region slot (\<lambda>r. r\<lparr>released := True\<rparr>) t1) else t1 | Inl _ \<Rightarrow> t1)"
      using run' Inr x q by (cases q) (auto simp: on_table_def sreturn_def split: prod.splits if_splits)
    then show ?thesis using torn [OF live_region_slot_Inr [OF sh c] acts] q by simp
  qed
qed

lemma released_shape:
  assumes sh: "shape t" and slot: "slot < length (regions t)" "regions t ! slot = Some r" and lent: "has_region_loans t (region_id r)"
    and t0: "shrunk t t0" "t1 = (residue (release_plan t slot r) t0)\<lparr>charges := cs, total_pages := n\<rparr>" and sh1: "shape t1"
  shows "shape (snd (update_region slot (\<lambda>r. r\<lparr>released := True\<rparr>) t1))"
proof -
  let ?p = "release_plan t slot r"
  note f = shrunk_fields [OF t0(1)] and nth = release_plan_nth [OF shapeD(1) [OF sh], of _ slot r]
  have at: "regions t1 ! slot = Some r" "slot < length (regions t1)"
    using t0(2) f(1) slot nth(3) lent by (simp_all add: residue_def clear_nth)
  have "loan_set t1 = loan_set t"
    unfolding t0(2) using f(3) nth(2) by (auto simp: residue_sets(3)) (auto simp: set_flatten_nth)
  then have "has_region_loans t1 (region_id r)" using lent by (simp add: has_region_loans_iff)
  moreover have "map_via m \<noteq> None" if m: "m \<in> mapping_set t1" "map_buffer m = region_id r" for m
  proof -
    have "m \<in> mapping_set (residue ?p t0)" using m(1) t0(2) by simp
    then obtain j where "j < length (mappings t)" "mappings t ! j = Some m" "\<not> remove_mappings ?p ! j"
      unfolding residue_sets(2) using f(2) by auto
    then show ?thesis using nth(1) m(2) by auto
  qed
  ultimately show ?thesis using shape_release [OF sh1 at(2,1)] at(1) by (simp add: update_region_def)
qed

lemma release_shape:
  assumes sh: "shape t" and run: "release A h handle (t, d) = (res, (t', d'))"
  shows "shape t'"
  using sh run
proof (cases rule: release_cases)
  case (torn r slot acts0 acts q t1)
  note exe = execute_teardown_shape [OF sh release_plan_closed [OF sh torn(1,2)] reclaiming_actions [OF torn(4) shapeD(1) [OF sh]] torn(5)]
  show ?thesis
  proof (cases q)
    case (Inr a)
    then show ?thesis using exe torn(6) released_shape [OF sh torn(1,2)] by auto
  qed (use exe torn(6) in simp)
qed (use sh in simp)

end
