(* ===== verification/SharedBufferSystem.thy ===== *)
theory SharedBufferSystem
  imports SharedBufferTeardown
begin

text \<open>
  The shared-buffer table as a system: its operations as steps from any state a fresh table can reach,
  for an arbitrary adapter.  The invariant holds in every reachable state; the properties of the table
  are read off it.
\<close>

section \<open>The remaining operations\<close>

lemma residue_all:
  assumes "plan = \<lparr>remove_mappings = map (\<lambda>m. m \<noteq> None) (mappings t), remove_loans = map (\<lambda>l. l \<noteq> None) (loans t),
    remove_regions = map (\<lambda>r. r \<noteq> None) (regions t)\<rparr>"
  shows "region_set (residue plan t) = {}" "mapping_set (residue plan t) = {}" "loan_set (residue plan t) = {}"
    "plan_marks t plan" "closed t plan"
proof -
  show e: "region_set (residue plan t) = {}" "mapping_set (residue plan t) = {}" "loan_set (residue plan t) = {}"
    unfolding set_eq_iff residue_sets by (auto simp: assms)
  show "plan_marks t plan" by (simp add: plan_marks_def marks_def assms)
  show "closed t plan" unfolding closed_def e by simp
qed

lemma advance_epoch_cases:
  assumes sh: "shape t" and run: "advance_epoch A e (t, d) = (res, (t', d'))"
  shows "shape t' \<and> (case res of Inl _ \<Rightarrow> shrunk t t'
    | Inr _ \<Rightarrow> table_epoch t < e \<and> table_epoch t' = e \<and> region_set t' = {} \<and> mapping_set t' = {} \<and> loan_set t' = {} \<and> orphan_set t' = {})"
proof -
  define plan where "plan = \<lparr>remove_mappings = map (\<lambda>m. m \<noteq> None) (mappings t), remove_loans = map (\<lambda>l. l \<noteq> None) (loans t),
    remove_regions = map (\<lambda>r. r \<noteq> None) (regions t)\<rparr>"
  note all = residue_all [OF plan_def]
  have run': "(if e \<le> table_epoch t then (Inl EpochMismatch, (t, d)) else sbind (teardown A (Inr plan)) (\<lambda>acts.
      sbind (on_table (\<lambda>t. (Inr (), t\<lparr>table_epoch := e\<rparr>))) (\<lambda>_. sreturn acts)) (t, d)) = (res, (t', d'))"
    using run unfolding advance_epoch_def Let_def fst_conv plan_def .
  show ?thesis
  proof (cases "e \<le> table_epoch t")
    case True
    then show ?thesis using run' sh by auto
  next
    case False
    obtain q t1 d1 where q: "teardown A (Inr plan) (t, d) = (q, (t1, d1))" by (rule prod_cases3)
    note td = teardown_cases [OF sh _ q, simplified, OF conjI [OF all(4,5)]]
    show ?thesis
    proof (cases q)
      case (Inl x)
      then show ?thesis using run' q False td by auto
    next
      case (Inr acts)
      then obtain t0 cs n where t0: "shrunk t t0" "t1 = (residue plan t0)\<lparr>charges := cs, total_pages := n\<rparr>" using td by auto
      have s1: "shape t1" using td by simp
      have e: "region_set t1 = {}" "mapping_set t1 = {}" "loan_set t1 = {}"
        using residue_shrunk_sets [OF t0(1), of plan] all(1-3) by (simp_all add: t0(2))
      then have o: "orphan_set t1 = {}" using shapeD(6) [OF s1] by (simp add: orphans_ok_def)
      have t': "t' = t1\<lparr>table_epoch := e\<rparr>" "res = Inr acts" using run' q Inr False by (simp_all add: on_table_def)
      have "usage u t' h = usage u t1 h" for u h by (cases u) (simp_all add: t')
      then have "shape t'" using s1 e by (simp add: shape_defs sized_def buffer_accounts_def orphan_count_def t')
      then show ?thesis using e o t' False by (simp add: not_le)
    qed
  qed
qed

lemma retry_loop_shrunk:
  assumes "retry_loop A P slots (t, d) = (t', d')" "\<forall>i \<in> set slots. i < length (orphans t)"
  shows "shrunk t t'"
  using assms
proof (induction slots arbitrary: t d)
  case (Cons i slots)
  show ?case
  proof (cases "is_some_and P (orphans t ! i)")
    case False
    then show ?thesis using Cons by (cases "orphans t ! i") simp_all
  next
    case True
    then obtain o' where o': "orphans t ! i = Some o'" "P o'" by (auto simp: is_some_and_iff)
    obtain p d1 where p: "perform A (Unmap (orphan_frame o') (orphan_vspace o') (orphan_vaddr o')) d = (p, d1)"
      by (cases "perform A (Unmap (orphan_frame o') (orphan_vspace o') (orphan_vaddr o')) d")
    show ?thesis
    proof (cases p)
      case (Inl e)
      then show ?thesis using Cons o' p by simp
    next
      case (Inr u)
      then have "shrunk (t\<lparr>orphans := (orphans t)[i := None]\<rparr>) t'" using Cons o' p by simp
      then show ?thesis by (rule shrunk_trans [OF shrunk_clear])
    qed
  qed
qed simp

lemma shape_quotas: "shape (t\<lparr>quotas := qs\<rparr>) = shape t"
proof -
  have "usage u (t\<lparr>quotas := qs\<rparr>) h = usage u t h" for u h by (cases u) simp_all
  moreover have "granted (t\<lparr>quotas := qs\<rparr>) r m = granted t r m" for r m by (rule granted_cong) simp
  ultimately show ?thesis by (simp add: shape_defs sized_def buffer_accounts_def orphan_count_def)
qed

lemma table_new_shape: "shape (table_new e)"
proof -
  have "chg u (replicate MAX_CHARGE_HOLDERS None) h = 0" for u h by (simp add: chg_def)
  moreover have "usage u (table_new e) h = 0" for u h by (cases u) (simp_all add: table_new_def)
  ultimately show ?thesis
    by (simp add: shape_defs sized_def buffer_accounts_def charges_ok_def table_new_def orphan_count_def bound_defs)
qed

section \<open>Steps and reachable states\<close>

text \<open>One call of the table by the root task, with any arguments.  Only frame anchors are constrained:
  they are values of \<open>from_slice\<close>, their only constructor.  A creation plan comes from an earlier
  preflight of any table.\<close>

inductive sb_step :: "'d SharedBufferAdapter \<Rightarrow> 'd buffers \<Rightarrow> 'd buffers \<Rightarrow> bool" for A where
  create: "from_slice cs = Inr a \<Longrightarrow> sb_step A (t, d) (snd (create h a wr t), d)"
| commit_create: "from_slice cs = Inr a \<Longrightarrow> preflight_create t0 h a wr = Inr plan
    \<Longrightarrow> sb_step A (t, d) (snd (commit_create plan t), d)"
| map: "sb_step A s (snd (sb_map A h handle vspace base offset len rights s))"
| map_loan: "sb_step A s (snd (map_loan A h lhandle vspace base offset len s))"
| unmap: "sb_step A s (snd (unmap A h handle vspace base s))"
| unmap_loan: "sb_step A s (snd (unmap_loan A h lhandle vspace base s))"
| seal: "sb_step A s (snd (seal A h handle s))"
| loan: "sb_step A (t, d) (snd (loan h to_h handle offset len wr t), d)"
| return_loan: "sb_step A s (snd (return_loan A h lhandle s))"
| revoke_loan: "sb_step A s (snd (revoke_loan A h lhandle s))"
| release: "sb_step A s (snd (release A h handle s))"
| reclaim_holder: "sb_step A s (snd (reclaim_holder A h s))"
| advance_epoch: "sb_step A s (snd (advance_epoch A e s))"
| retry_vspace_orphans: "sb_step A s (snd (retry_vspace_orphans A vspace s))"
| retry_orphans: "sb_step A s (snd (retry_orphans A s))"
| declare_quota: "sb_step A (t, d) (snd (declare_quota h q t), d)"
| release_quota: "sb_step A (t, d) (snd (release_quota h t), d)"

definition sb_reachable :: "'d SharedBufferAdapter \<Rightarrow> 'd buffers \<Rightarrow> bool" where
  "sb_reachable A s \<longleftrightarrow> (\<exists>e d. (sb_step A)\<^sup>*\<^sup>* (table_new e, d) s)"

lemma create_shape:
  assumes "shape t" "from_slice cs = Inr a"
  shows "shape (snd (create h a wr t))"
proof (cases "preflight_create t h a wr")
  case (Inl e)
  then show ?thesis using assms(1) by (simp add: create_def)
next
  case (Inr plan)
  then show ?thesis
    using commit_create_shape [OF assms(1) Inr from_slice_ok [OF assms(2)]]
    by (cases "commit_create plan t") (simp add: create_def)
qed

lemma retry_shape: "shape (fst s) \<Longrightarrow> shape (fst (retry_loop A P [0..<length (orphans (fst s))] s))"
  using retry_loop_shrunk [of A P "[0..<length (orphans (fst s))]" "fst s" "snd s"] shrunk_shape
  by (cases s; cases "retry_loop A P [0..<length (orphans (fst s))] s") auto

text \<open>Each operation, read as a transformer of the whole state.\<close>

lemma op_shape:
  assumes "\<And>t d res t' d'. shape t \<Longrightarrow> f (t, d) = (res, (t', d')) \<Longrightarrow> shape t'" "shape (fst s)"
  shows "shape (fst (snd (f s)))"
  using assms by (cases s; cases "f s") auto

lemma sb_step_shape: "sb_step A s s' \<Longrightarrow> shape (fst s) \<Longrightarrow> shape (fst s')"
proof (induction rule: sb_step.induct)
  case (create cs a t d h wr)
  then show ?case using create_shape by simp
next
  case (commit_create cs a t0 h wr plan t d)
  then show ?case using commit_create_shape [of t t0 h a wr plan] from_slice_ok by (cases "commit_create plan t") auto
next
  case (loan t d h to_h handle offset len wr)
  then show ?case using loan_shape [of t] by (cases "loan h to_h handle offset len wr t") auto
next
  case (advance_epoch s e)
  show ?case by (rule op_shape [OF _ advance_epoch]) (rule conjunct1 [OF advance_epoch_cases])
next
  case (retry_vspace_orphans s vspace)
  then show ?case by (simp add: retry_vspace_orphans_def Let_def retry_shape)
next
  case (retry_orphans s)
  then show ?case by (simp add: retry_orphans_def Let_def retry_shape)
next
  case (declare_quota t d h q)
  then show ?case by (simp add: declare_quota_def shape_quotas split: option.split)
next
  case (release_quota t d h)
  then show ?case by (simp add: release_quota_def shape_quotas split: option.split)
qed (rule op_shape, (erule (1) sb_map_shape | erule (1) map_loan_shape | erule (1) unmap_shape | erule (1) unmap_loan_shape
    | erule (1) seal_shape | erule (1) return_loan_shape | erule (1) revoke_loan_shape | erule (1) release_shape
    | erule (1) reclaim_holder_shape), assumption)+

lemma reachable_shape: "sb_reachable A s \<Longrightarrow> shape (fst s)"
proof -
  assume "sb_reachable A s"
  then obtain e d where "(sb_step A)\<^sup>*\<^sup>* (table_new e, d) s" by (auto simp: sb_reachable_def)
  then show ?thesis by (induction rule: rtranclp_induct) (simp_all add: table_new_shape sb_step_shape)
qed

end
