(* ===== verification/SharedBufferActions.thy ===== *)
theory SharedBufferActions
  imports SharedBufferSystem
begin

text \<open>
  The action lists of teardown plans, exactly: the pages of the removed mappings, then one revoke and
  then one release for every frame of the removed regions.  In a table that satisfies the invariant
  every such list fits, so a teardown can only fail in the adapter.
\<close>

section \<open>Pages of a mapping\<close>

definition page_unmaps :: "Region \<Rightarrow> MappingRecord \<Rightarrow> AdapterAction list" where
  "page_unmaps r m = map (\<lambda>page. Unmap (frame_list r ! (map_offset m + page)) (map_vspace m) (map_base m + page * PAGE_SIZE))
     [0..<map_count m]"

definition mapping_unmaps :: "SharedBufferTable \<Rightarrow> MappingRecord option \<Rightarrow> AdapterAction list" where
  "mapping_unmaps t v = (case v of None \<Rightarrow> [] | Some m \<Rightarrow>
     (case live_region_any t (map_buffer m) of Inl _ \<Rightarrow> [] | Inr r \<Rightarrow> page_unmaps r m))"

lemma length_page_unmaps [simp]: "length (page_unmaps r m) = map_count m"
  by (simp add: page_unmaps_def)

lemma mapping_unmaps_eq:
  assumes "shape t" "m \<in> mapping_set t" "r \<in> region_set t" "region_id r = map_buffer m"
  shows "mapping_unmaps t (Some m) = page_unmaps r m"
  using live_region_any_found [OF assms(1,3)] assms(4) by (simp add: mapping_unmaps_def)

lemma append_mapping_actions_eq:
  assumes sh: "shape t" and slot: "slot < length (mappings t)" "mappings t ! slot = Some m"
    and fits: "length acts + map_count m \<le> MAX_TEARDOWN_ACTIONS"
  shows "append_mapping_actions t slot acts = Inr (acts @ mapping_unmaps t (mappings t ! slot))"
proof -
  have m: "m \<in> mapping_set t" using slot by (auto simp: set_flatten_nth)
  obtain r where r: "r \<in> region_set t" "backs r m" "granted t r m" by (rule mapping_region [OF sh m])
  have found: "live_region_any t (map_buffer m) = Inr r" using live_region_any_found [OF sh r(1)] r(2) by (simp add: backs_def)
  have "map (\<lambda>page. rbind (ok_or BadRange (anchors_get (anchors r) (map_offset m + page)))
      (\<lambda>frame. Inr (Unmap frame (map_vspace m) (map_base m + page * PAGE_SIZE)))) [0..<map_count m] = map Inr (page_unmaps r m)"
    using r(2) by (simp add: page_unmaps_def anchors_get_frame_list ok_or_def rbind_def backs_def)
  then have "push_all (\<lambda>page. rbind (ok_or BadRange (anchors_get (anchors r) (map_offset m + page)))
      (\<lambda>frame. Inr (Unmap frame (map_vspace m) (map_base m + page * PAGE_SIZE)))) [0..<map_count m] acts = Inr (acts @ page_unmaps r m)"
    unfolding push_all_Inr using fits by auto
  then show ?thesis
    using found slot mapping_unmaps_eq [OF sh m r(1)] r(2) by (simp add: append_mapping_actions_def ok_or_def rbind_def backs_def)
qed

definition gone_unmaps :: "SharedBufferTable \<Rightarrow> TeardownPlan \<Rightarrow> nat list \<Rightarrow> AdapterAction list" where
  "gone_unmaps t plan slots = concat (map (\<lambda>i. if remove_mappings plan ! i then mapping_unmaps t (mappings t ! i) else []) slots)"

lemma append_mappings_eq:
  assumes sh: "shape t" and slots: "\<forall>i \<in> set slots. i < length (mappings t)" "\<forall>i \<in> set slots. remove_mappings plan ! i \<longrightarrow> mappings t ! i \<noteq> None"
    and fits: "length acts + sum_list (map (\<lambda>i. val map_count (mappings t ! i)) slots) \<le> MAX_TEARDOWN_ACTIONS"
  shows "append_mappings t plan slots acts = Inr (acts @ gone_unmaps t plan slots)
    \<and> length (gone_unmaps t plan slots) \<le> sum_list (map (\<lambda>i. val map_count (mappings t ! i)) slots)"
  using slots fits
proof (induction slots arbitrary: acts)
  case Nil
  then show ?case by (simp add: gone_unmaps_def)
next
  case (Cons i slots)
  show ?case
  proof (cases "remove_mappings plan ! i")
    case False
    then show ?thesis using Cons.IH [of acts] Cons.prems by (simp add: gone_unmaps_def)
  next
    case True
    then obtain m where m: "mappings t ! i = Some m" "i < length (mappings t)" using Cons.prems by auto
    then have "m \<in> mapping_set t" by (auto simp: set_flatten_nth)
    then obtain r where r: "r \<in> region_set t" "backs r m" "granted t r m" by (rule mapping_region [OF sh])
    have len: "length (mapping_unmaps t (Some m)) = map_count m"
      using mapping_unmaps_eq [OF sh \<open>m \<in> mapping_set t\<close> r(1)] r(2) by (simp add: backs_def)
    have one: "append_mapping_actions t i acts = Inr (acts @ mapping_unmaps t (Some m))"
      using append_mapping_actions_eq [OF sh m(2,1), of acts] Cons.prems(3) m(1) by simp
    show ?thesis
      using Cons.IH [of "acts @ mapping_unmaps t (Some m)"] Cons.prems True m(1) one len
      by (simp add: gone_unmaps_def rbind_def)
  qed
qed

lemma sum_list_val: "sum_list (map (\<lambda>i. val f (xs ! i)) [0..<length xs]) = tot f xs"
proof -
  have "map (\<lambda>i. val f (xs ! i)) [0..<length xs] = map (val f) xs" by (rule nth_equalityI) simp_all
  moreover have "sum_list (map (val f) xs) = tot f xs" by (induction xs) simp_all
  ultimately show ?thesis by simp
qed

lemma append_frames_eq:
  assumes sz: "sized t" and slots: "\<forall>i \<in> set slots. i < length (regions t)" "\<forall>i \<in> set slots. remove_regions plan ! i \<longrightarrow> regions t ! i \<noteq> None"
    and fits: "length acts + sum_list (map (\<lambda>i. val (\<lambda>r. anchors_len (anchors r)) (regions t ! i)) slots) \<le> MAX_TEARDOWN_ACTIONS"
  shows "append_frames f t plan slots acts = Inr (acts @ map f (gone_frames t plan slots))
    \<and> length (gone_frames t plan slots) \<le> sum_list (map (\<lambda>i. val (\<lambda>r. anchors_len (anchors r)) (regions t ! i)) slots)"
  using slots fits
proof (induction slots arbitrary: acts)
  case Nil
  then show ?case by (simp add: gone_frames_def)
next
  case (Cons i slots)
  show ?case
  proof (cases "remove_regions plan ! i")
    case False
    then show ?thesis using Cons.IH [of acts] Cons.prems by (simp add: gone_frames_def)
  next
    case True
    then obtain r where r: "regions t ! i = Some r" "i < length (regions t)" using Cons.prems by auto
    then have ok: "anchors_ok (anchors r)" using sz by (auto simp: sized_def set_flatten_nth)
    have "push_all (\<lambda>page. rbind (ok_or BadFrameAnchors (anchors_get (anchors r) page)) (\<lambda>frame. Inr (f frame)))
        [0..<anchors_len (anchors r)] acts = Inr (acts @ map f (frame_list r))"
      unfolding push_all_Inr map_frame_list [OF ok] using Cons.prems(3) r(1) by (intro exI [of _ "map f (frame_list r)"]) simp
    then show ?thesis
      using Cons.IH [of "acts @ map f (frame_list r)"] Cons.prems True r(1) ok by (simp add: gone_frames_def rbind_def ok_or_def)
  qed
qed

text \<open>Every plan over occupied slots has an action list, in three phases.\<close>

definition plan_actions :: "SharedBufferTable \<Rightarrow> TeardownPlan \<Rightarrow> AdapterAction list" where
  "plan_actions t plan = gone_unmaps t plan [0..<length (mappings t)]
     @ map Revoke (gone_frames t plan [0..<length (regions t)])
     @ map ReleaseFrame (gone_frames t plan [0..<length (regions t)])"

lemma plan_actions_fit:
  assumes sh: "shape t" and marks: "plan_marks t plan"
  shows "append_mappings t plan [0..<length (mappings t)] [] = Inr (gone_unmaps t plan [0..<length (mappings t)])"
    "append_region_reclamation t plan (gone_unmaps t plan [0..<length (mappings t)]) = Inr (plan_actions t plan)"
proof -
  let ?u = "gone_unmaps t plan [0..<length (mappings t)]" and ?f = "gone_frames t plan [0..<length (regions t)]"
  have m: "tot map_count (mappings t) \<le> 4096" and r: "tot (\<lambda>r. anchors_len (anchors r)) (regions t) \<le> 256"
    using shapeD(7) [OF sh] buffer_accountsD(3) [OF shapeD(2) [OF sh]] by (simp_all add: budget_def bound_defs)
  have slots: "\<forall>i \<in> set [0..<length (mappings t)]. i < length (mappings t)"
    "\<forall>i \<in> set [0..<length (mappings t)]. remove_mappings plan ! i \<longrightarrow> mappings t ! i \<noteq> None"
    "\<forall>i \<in> set [0..<length (regions t)]. i < length (regions t)"
    "\<forall>i \<in> set [0..<length (regions t)]. remove_regions plan ! i \<longrightarrow> regions t ! i \<noteq> None"
    using marks by (simp_all add: plan_marks_def marks_def)
  have u: "append_mappings t plan [0..<length (mappings t)] [] = Inr ?u" "length ?u \<le> 4096"
    using append_mappings_eq [OF sh slots(1,2), of "[]"] m by (simp_all add: sum_list_val bound_defs)
  have f1: "append_frames Revoke t plan [0..<length (regions t)] ?u = Inr (?u @ map Revoke ?f)" "length ?f \<le> 256"
    using append_frames_eq [OF shapeD(1) [OF sh] slots(3,4), of ?u Revoke] u(2) r by (simp_all add: sum_list_val bound_defs)
  have f2: "append_frames ReleaseFrame t plan [0..<length (regions t)] (?u @ map Revoke ?f) = Inr (plan_actions t plan)"
    using append_frames_eq [OF shapeD(1) [OF sh] slots(3,4), of "?u @ map Revoke ?f" ReleaseFrame] u(2) f1(2) r
    by (simp add: sum_list_val bound_defs plan_actions_def)
  show "append_mappings t plan [0..<length (mappings t)] [] = Inr ?u" by (rule u)
  show "append_region_reclamation t plan ?u = Inr (plan_actions t plan)"
    using f1(1) f2 by (simp add: append_region_reclamation_def rbind_def)
qed

lemma build_actions_eq: "shape t \<Longrightarrow> plan_marks t plan \<Longrightarrow> build_actions t plan = Inr (plan_actions t plan)"
  using plan_actions_fit [of t plan] by (simp add: build_actions_def rbind_def)

section \<open>A cooperative adapter\<close>

definition cooperative :: "'d SharedBufferAdapter \<Rightarrow> bool" where
  "cooperative A \<longleftrightarrow> (\<forall>a d. fst (perform A a d) = Inr ())"

lemma cooperativeD: "cooperative A \<Longrightarrow> \<exists>d'. perform A a d = (Inr (), d')"
  by (cases "perform A a d") (auto simp: cooperative_def dest!: spec [of _ a] spec [of _ d])

lemma settle_orphans_cooperative: "cooperative A \<Longrightarrow> \<exists>s'. settle_orphans A P slots s = (Inr (), s')"
proof (induction slots arbitrary: s)
  case (Cons i slots)
  show ?case
  proof (cases "is_some_and P (orphans (fst s) ! i)")
    case False
    then show ?thesis using Cons by (cases "orphans (fst s) ! i") simp_all
  next
    case True
    then obtain o' where o': "orphans (fst s) ! i = Some o'" "P o'" by (auto simp: is_some_and_iff)
    obtain d' where "perform A (Unmap (orphan_frame o') (orphan_vspace o') (orphan_vaddr o')) (snd s) = (Inr (), d')"
      using cooperativeD [OF Cons.prems] by blast
    then show ?thesis using Cons o' by simp
  qed
qed simp

lemma perform_all_cooperative: "cooperative A \<Longrightarrow> \<exists>s'. perform_all A acts s = (Inr (), s')"
proof (induction acts arbitrary: s)
  case (Cons a acts)
  obtain d' where "perform A a (snd s) = (Inr (), d')" using cooperativeD [OF Cons.prems] by blast
  then have "perform_all A (a # acts) s = perform_all A acts (fst s, d')"
    by (simp add: sbind_def on_adapter_def map_err_def)
  then show ?case using Cons by auto
qed simp

lemma teardown_succeeds:
  assumes sh: "shape t" and plan: "plan_marks t plan" "closed t plan" and coop: "cooperative A"
  shows "\<exists>t1 cs n d'. shrunk t t1
    \<and> teardown A (Inr plan) (t, d) = (Inr (plan_actions t plan), ((residue plan t1)\<lparr>charges := cs, total_pages := n\<rparr>, d'))"
proof -
  obtain s1 where s1: "run_actions A (plan_actions t plan) (t, d) = (Inr (), s1)"
    using settle_orphans_cooperative [OF coop] perform_all_cooperative [OF coop] unfolding run_actions_def by (metis sbind_simps(2))
  obtain t1 d1 where s1': "s1 = (t1, d1)" by (cases s1)
  have eff: "shrunk t t1" using run_actions_effect [OF s1 [unfolded s1']] by blast
  then have "plan_marks t1 plan" using plan(1) shrunk_fields [OF eff] by (simp add: plan_marks_def)
  then obtain cs n where "commit_teardown plan t1 = (Inr (), (residue plan t1)\<lparr>charges := cs, total_pages := n\<rparr>)"
    using commit_teardown_ok shapeD(1,2) [OF shrunk_shape [OF sh eff]] by blast
  then have "teardown A (Inr plan) (t, d) = (Inr (plan_actions t plan),
      ((residue plan t1)\<lparr>charges := cs, total_pages := n\<rparr>, commit_releases A (plan_actions t plan) d1))"
    using build_actions_eq [OF sh plan(1)] s1 s1' by (simp add: teardown_def rbind_def execute_teardown_def on_table_def)
  then show ?thesis using eff by blast
qed

section \<open>Reclaiming a holder\<close>

lemma reclaim_marks:
  assumes sh: "shape t" and P: "plan = complete_region_removals t (reclaim_plan t h)"
  shows "j < length (mappings t) \<Longrightarrow> is_some_and (\<lambda>m. map_holder m = h) (mappings t ! j) \<Longrightarrow> remove_mappings plan ! j"
    "i < length (regions t) \<Longrightarrow> is_some_and (\<lambda>r. owner r = h) (regions t ! i) \<Longrightarrow> remove_regions plan ! i"
    "k < length (loans t) \<Longrightarrow> remove_loans plan ! k \<longleftrightarrow> is_some_and (\<lambda>l. lender l = h \<or> loan_receiver l = h) (loans t ! k)"
    "i < length (regions t) \<Longrightarrow> is_some_and (\<lambda>r. owner r \<noteq> h \<and> \<not> released r) (regions t ! i) \<Longrightarrow> \<not> remove_regions plan ! i"
proof -
  let ?Q = "\<lambda>l. lender l = h \<or> loan_receiver l = h"
  note sz = shapeD(1) [OF sh] and st = plan_settle_loans_nth [OF sh, where P = ?Q]
  have marks: "plan_marks t (plan_settle_loans t ?Q)" by (rule plan_settle_loans_closed [OF sh])
  then have len: "length (remove_mappings (plan_settle_loans t ?Q)) = length (mappings t)"
    "length (remove_regions (plan_settle_loans t ?Q)) = length (regions t)" "plan_sized t (reclaim_plan t h)"
    by (simp_all add: plan_marks_def marks_def plan_sized_def reclaim_plan_def Let_def)
  note C = complete_removals [OF len(3), simplified, folded P]
  show "j < length (mappings t) \<Longrightarrow> is_some_and (\<lambda>m. map_holder m = h) (mappings t ! j) \<Longrightarrow> remove_mappings plan ! j"
    using C len(1) by (simp add: reclaim_plan_def Let_def mark_nth)
  show "i < length (regions t) \<Longrightarrow> is_some_and (\<lambda>r. owner r = h) (regions t ! i) \<Longrightarrow> remove_regions plan ! i"
    using C len(2) by (simp add: reclaim_plan_def Let_def mark_nth)
  show "k < length (loans t) \<Longrightarrow> remove_loans plan ! k \<longleftrightarrow> is_some_and ?Q (loans t ! k)"
    using C st(1) settling_nth(1) [OF sz, of k ?Q] by (simp add: reclaim_plan_def Let_def)
  have goes: "\<not> goes t plan' i r" if "is_some_and (\<lambda>r. owner r \<noteq> h \<and> \<not> released r) (regions t ! i)" "\<not> remove_regions plan' ! i" for plan' r
    using that by (auto simp: goes_def)
  have "\<not> remove_regions (reclaim_plan t h) ! i" if "i < length (regions t)" "is_some_and (\<lambda>r. owner r \<noteq> h \<and> \<not> released r) (regions t ! i)"
    using st(2) [OF that(1)] goes [OF that(2) settling_nth(2) [OF sz that(1)]] that len(2)
    by (auto simp: reclaim_plan_def Let_def mark_nth is_some_and_iff)
  then show "i < length (regions t) \<Longrightarrow> is_some_and (\<lambda>r. owner r \<noteq> h \<and> \<not> released r) (regions t ! i) \<Longrightarrow> \<not> remove_regions plan ! i"
    using C goes by blast
qed

lemma usage_none:
  assumes "\<forall>r \<in> region_set t. owner r \<noteq> h" "\<forall>m \<in> mapping_set t. map_holder m \<noteq> h" "\<forall>l \<in> loan_set t. lender l \<noteq> h"
  shows "usage u t h = 0"
  using assms by (cases u) (simp_all add: tot_zero)

lemma occupancy_none:
  assumes "buffer_accounts t" "\<forall>u. usage u t h = 0"
  shows "holder_occupancy t h = EMPTY"
proof -
  show ?thesis
  proof (cases "charge t h")
    case (Some c)
    have z: "charged u c = 0" for u
      using charge_chg [OF buffer_accountsD(1) [OF assms(1)], where h = h and u = u] Some assms(2) buffer_accountsD(2) [OF assms(1)] by simp
    show ?thesis
      using z [of Pages] z [of Buffers] z [of Mappings] z [of Loans] Some
      by (simp add: holder_occupancy_def EMPTY_def unat_eq_0)
  qed (simp add: holder_occupancy_def)
qed

end
