(* ===== verification/SharedBufferPages.thy ===== *)
theory SharedBufferPages
  imports SharedBufferActions
begin

text \<open>
  What is physically mapped.  \<open>pt d\<close> is the set of pages present in the page tables that an adapter
  state \<open>d\<close> stands for.  For an adapter whose page tables only grow by successful mappings, and lose a
  page when its unmapping succeeds, every page present is one the table records: a page of a recorded
  mapping with at least those rights, or a recorded orphan.  Hence every frame that is mapped anywhere
  belongs to a live region.
\<close>

section \<open>Faithful adapters and recorded pages\<close>

type_synonym page = "FrameCap \<times> VSpaceCap \<times> nat \<times> MappingRights"

definition faithful :: "'d SharedBufferAdapter \<Rightarrow> ('d \<Rightarrow> page set) \<Rightarrow> bool" where
  "faithful A pt \<longleftrightarrow>
     (\<forall>f v x w d. pt (snd (map_frame A f v x w d)) \<subseteq> insert (f, v, x, w) (pt d))
   \<and> (\<forall>f v x w d e d'. map_frame A f v x w d = (Inl e, d') \<longrightarrow> pt d' \<subseteq> pt d)
   \<and> (\<forall>a d. pt (snd (perform A a d)) \<subseteq> pt d)
   \<and> (\<forall>f v x d d' w. perform A (Unmap f v x) d = (Inr (), d') \<longrightarrow> (f, v, x, w) \<notin> pt d')
   \<and> (\<forall>acts d. pt (commit_releases A acts d) \<subseteq> pt d)"

lemma faithfulD:
  assumes "faithful A pt"
  shows "map_frame A f v x w d = (res, d') \<Longrightarrow> pt d' \<subseteq> insert (f, v, x, w) (pt d)"
    "map_frame A f v x w d = (Inl e, d') \<Longrightarrow> pt d' \<subseteq> pt d"
    "perform A a d = (res2, d') \<Longrightarrow> pt d' \<subseteq> pt d"
    "perform A (Unmap f v x) d = (Inr (), d') \<Longrightarrow> (f, v, x, w) \<notin> pt d'"
    "pt (commit_releases A acts d) \<subseteq> pt d"
  using assms unfolding faithful_def by (blast | metis snd_conv)+

definition page_of :: "Region \<Rightarrow> MappingRecord \<Rightarrow> FrameCap \<Rightarrow> VSpaceCap \<Rightarrow> nat \<Rightarrow> bool" where
  "page_of r m f v x \<longleftrightarrow> v = map_vspace m
     \<and> (\<exists>page < map_count m. f = frame_list r ! (map_offset m + page) \<and> x = map_base m + page * PAGE_SIZE)"

definition mapped_in :: "SharedBufferTable \<Rightarrow> page \<Rightarrow> bool" where
  "mapped_in t = (\<lambda>(f, v, x, w). \<exists>m \<in> mapping_set t. \<exists>r \<in> region_set t. region_id r = map_buffer m
     \<and> page_of r m f v x \<and> (w = ReadWrite \<longrightarrow> map_rights m = ReadWrite))"

definition orphaned_in :: "SharedBufferTable \<Rightarrow> page \<Rightarrow> bool" where
  "orphaned_in t = (\<lambda>(f, v, x, w). \<lparr>orphan_frame = f, orphan_vspace = v, orphan_vaddr = x\<rparr> \<in> orphan_set t)"

definition recorded :: "SharedBufferTable \<Rightarrow> page set \<Rightarrow> bool" where
  "recorded t S \<longleftrightarrow> (\<forall>p \<in> S. mapped_in t p \<or> orphaned_in t p)"

lemma recorded_subset: "recorded t S \<Longrightarrow> S' \<subseteq> S \<Longrightarrow> recorded t S'"
  by (auto simp: recorded_def)

lemma recorded_mono:
  assumes "recorded t S" "region_set t \<subseteq> region_set t'" "mapping_set t \<subseteq> mapping_set t'" "orphan_set t \<subseteq> orphan_set t'"
  shows "recorded t' S"
  using assms unfolding recorded_def mapped_in_def orphaned_in_def by fast

lemma recorded_accounts: "recorded (t\<lparr>charges := cs, total_pages := n\<rparr>) S = recorded t S"
  by (simp add: recorded_def mapped_in_def orphaned_in_def)

section \<open>Orphans settled after a successful unmap\<close>

lemma recorded_clear:
  assumes "recorded t S" "i < length (orphans t)" "orphans t ! i = Some o'"
    and "\<forall>w. (orphan_frame o', orphan_vspace o', orphan_vaddr o', w) \<notin> S'" "S' \<subseteq> S"
  shows "recorded (t\<lparr>orphans := (orphans t)[i := None]\<rparr>) S'" (is "recorded ?t S'")
  unfolding recorded_def
proof
  fix p assume p: "p \<in> S'"
  then consider "mapped_in t p" | "orphaned_in t p" using assms(1,5) by (auto simp: recorded_def)
  then show "mapped_in ?t p \<or> orphaned_in ?t p"
  proof cases
    case 1
    then show ?thesis by (simp add: mapped_in_def)
  next
    case 2
    obtain f v x w where fvx: "p = (f, v, x, w)" by (cases p)
    let ?o = "\<lparr>orphan_frame = f, orphan_vspace = v, orphan_vaddr = x\<rparr>"
    have "?o \<noteq> o'" using assms(4) p fvx by auto
    obtain j where j: "j < length (orphans t)" "orphans t ! j = Some ?o"
      using 2 fvx by (auto simp: orphaned_in_def set_flatten_nth)
    then have "j \<noteq> i" using assms(3) \<open>?o \<noteq> o'\<close> by auto
    then have "?o \<in> orphan_set ?t" using j by (auto simp: set_flatten_nth intro!: exI [of _ j])
    then show ?thesis by (simp add: orphaned_in_def fvx)
  qed
qed

lemma settle_orphans_recorded:
  assumes "faithful A pt" "settle_orphans A P slots (t, d) = (res, (t', d'))" "\<forall>i \<in> set slots. i < length (orphans t)"
    "recorded t (pt d)"
  shows "recorded t' (pt d') \<and> pt d' \<subseteq> pt d"
  using assms(2-)
proof (induction slots arbitrary: t d)
  case (Cons i slots)
  show ?case
  proof (cases "is_some_and P (orphans t ! i)")
    case False
    then show ?thesis using Cons by (cases "orphans t ! i") simp_all
  next
    case True
    then obtain o' where o': "orphans t ! i = Some o'" "P o'" by (auto simp: is_some_and_iff)
    obtain p d1 where p: "perform A (Unmap (orphan_frame o') (orphan_vspace o') (orphan_vaddr o')) d = (p, d1)"
      by (cases "perform A (Unmap (orphan_frame o') (orphan_vspace o') (orphan_vaddr o')) d")
    have d1: "pt d1 \<subseteq> pt d" by (rule faithfulD(3) [OF assms(1) p])
    show ?thesis
    proof (cases p)
      case (Inl e)
      then show ?thesis using Cons.prems o' p recorded_subset [OF _ d1] d1 by auto
    next
      case (Inr u)
      let ?t = "t\<lparr>orphans := (orphans t)[i := None]\<rparr>"
      have "\<forall>w. (orphan_frame o', orphan_vspace o', orphan_vaddr o', w) \<notin> pt d1"
        using faithfulD(4) [OF assms(1)] p Inr by simp
      then have "recorded ?t (pt d1)" using recorded_clear [OF Cons.prems(3) _ o'(1) _ d1] Cons.prems(2) by simp
      then show ?thesis using Cons.IH [of ?t d1] Cons.prems(1,2) o' p Inr d1 by auto
    qed
  qed
qed simp

lemma retry_loop_recorded:
  assumes "faithful A pt" "retry_loop A P slots (t, d) = (t', d')" "\<forall>i \<in> set slots. i < length (orphans t)" "recorded t (pt d)"
  shows "recorded t' (pt d')"
  using assms(2-)
proof (induction slots arbitrary: t d)
  case (Cons i slots)
  show ?case
  proof (cases "is_some_and P (orphans t ! i)")
    case False
    then show ?thesis using Cons by (cases "orphans t ! i") simp_all
  next
    case True
    then obtain o' where o': "orphans t ! i = Some o'" "P o'" by (auto simp: is_some_and_iff)
    obtain p d1 where p: "perform A (Unmap (orphan_frame o') (orphan_vspace o') (orphan_vaddr o')) d = (p, d1)"
      by (cases "perform A (Unmap (orphan_frame o') (orphan_vspace o') (orphan_vaddr o')) d")
    have d1: "pt d1 \<subseteq> pt d" by (rule faithfulD(3) [OF assms(1) p])
    show ?thesis
    proof (cases p)
      case (Inl e)
      then show ?thesis using Cons o' p recorded_subset [OF _ d1] by simp
    next
      case (Inr u)
      let ?t = "t\<lparr>orphans := (orphans t)[i := None]\<rparr>"
      have "\<forall>w. (orphan_frame o', orphan_vspace o', orphan_vaddr o', w) \<notin> pt d1"
        using faithfulD(4) [OF assms(1)] p Inr by simp
      then have "recorded ?t (pt d1)" using recorded_clear [OF Cons.prems(3) _ o'(1) _ d1] Cons.prems(2) by simp
      then show ?thesis using Cons.IH [of ?t d1] Cons.prems(1,2) o' p Inr by simp
    qed
  qed
qed simp

section \<open>Teardown\<close>

lemma perform_all_pages:
  assumes "faithful A pt" "perform_all A acts (t, d) = (res, (t', d'))"
  shows "pt d' \<subseteq> pt d \<and> (res = Inr () \<longrightarrow> (\<forall>f v x w. Unmap f v x \<in> set acts \<longrightarrow> (f, v, x, w) \<notin> pt d'))"
  using assms(2)
proof (induction acts arbitrary: d)
  case Nil
  then show ?case by (simp add: sreturn_def)
next
  case (Cons a acts)
  obtain p d1 where p: "perform A a d = (p, d1)" by (cases "perform A a d")
  have d1: "pt d1 \<subseteq> pt d" by (rule faithfulD(3) [OF assms(1) p])
  show ?case
  proof (cases p)
    case (Inl e)
    then show ?thesis using Cons.prems p d1 by (auto simp: sbind_def on_adapter_def map_err_def)
  next
    case (Inr u)
    then have "perform_all A acts (t, d1) = (res, (t', d'))"
      using Cons.prems p by (simp add: sbind_def on_adapter_def map_err_def)
    from Cons.IH [OF this] show ?thesis using d1 faithfulD(4) [OF assms(1)] p Inr by auto
  qed
qed

definition unmapping :: "SharedBufferTable \<Rightarrow> TeardownPlan \<Rightarrow> AdapterAction list \<Rightarrow> bool" where
  "unmapping t plan acts \<longleftrightarrow> (\<forall>j < length (mappings t). \<forall>m. \<forall>r \<in> region_set t. remove_mappings plan ! j \<longrightarrow> mappings t ! j = Some m
     \<longrightarrow> region_id r = map_buffer m \<longrightarrow> set (page_unmaps r m) \<subseteq> set acts)"

lemma page_of_unmaps: "page_of r m f v x \<longleftrightarrow> Unmap f v x \<in> set (page_unmaps r m)"
  by (auto simp: page_of_def page_unmaps_def)

lemma unmapping_plan:
  assumes "shape t"
  shows "unmapping t plan (plan_actions t plan)"
  unfolding unmapping_def
proof (intro allI impI ballI subsetI)
  fix j m r a
  assume j: "j < length (mappings t)" "remove_mappings plan ! j" "mappings t ! j = Some m"
    and r: "r \<in> region_set t" "region_id r = map_buffer m" and a: "a \<in> set (page_unmaps r m)"
  have "m \<in> mapping_set t" using j by (auto simp: set_flatten_nth)
  then have "mapping_unmaps t (mappings t ! j) = page_unmaps r m" using mapping_unmaps_eq [OF assms _ r] j(3) by simp
  then have "a \<in> set (gone_unmaps t plan [0..<length (mappings t)])" using a j by (auto simp: gone_unmaps_def intro!: bexI [of _ j])
  then show "a \<in> set (plan_actions t plan)" by (simp add: plan_actions_def)
qed

lemma residue_recorded:
  assumes sh: "shape t" and closed: "closed t plan" and unm: "unmapping t plan acts" and rec: "recorded t S"
    and gone: "\<forall>f v x w. Unmap f v x \<in> set acts \<longrightarrow> (f, v, x, w) \<notin> S"
  shows "recorded (residue plan t) S"
  unfolding recorded_def
proof
  fix p assume p: "p \<in> S"
  obtain f v x w where fvx: "p = (f, v, x, w)" by (cases p)
  consider "mapped_in t p" | "orphaned_in t p" using rec p by (auto simp: recorded_def)
  then show "mapped_in (residue plan t) p \<or> orphaned_in (residue plan t) p"
  proof cases
    case 1
    then obtain m r where m: "m \<in> mapping_set t" "r \<in> region_set t" "region_id r = map_buffer m" "page_of r m f v x"
      "w = ReadWrite \<longrightarrow> map_rights m = ReadWrite" by (auto simp: mapped_in_def fvx)
    obtain j where j: "j < length (mappings t)" "mappings t ! j = Some m" using m(1) by (auto simp: set_flatten_nth)
    have no: "Unmap f v x \<notin> set acts" using gone p fvx by blast
    have "\<not> remove_mappings plan ! j"
    proof
      assume "remove_mappings plan ! j"
      from unm [unfolded unmapping_def, rule_format, OF j(1) m(2) this j(2) m(3)]
      show False using no m(4) by (auto simp: page_of_unmaps)
    qed
    then have mk: "m \<in> mapping_set (residue plan t)" unfolding residue_sets using j by blast
    then obtain r' where r': "r' \<in> region_set (residue plan t)" "region_id r' = map_buffer m"
      using closed unfolding closed_def by blast
    have "r' \<in> region_set t" using r'(1) residue_subset(1) by (rule rev_subsetD)
    then have "r' = r" using region_unique [OF sh _ m(2), of r'] m(3) r'(2) by simp
    then have "mapped_in (residue plan t) p" using mk r' m(4,5) by (auto simp: mapped_in_def fvx)
    then show ?thesis ..
  next
    case 2
    then show ?thesis by (simp add: orphaned_in_def residue_def)
  qed
qed

lemma execute_teardown_recorded:
  assumes f: "faithful A pt" and sh: "shape t" and plan: "plan_marks t plan" "closed t plan" and unm: "unmapping t plan acts"
    and rec: "recorded t (pt d)" and run: "execute_teardown A acts plan (t, d) = (res, (t', d'))"
  shows "recorded t' (pt d')"
proof -
  let ?P = "\<lambda>o'. list_ex (reclaims (orphan_frame o')) acts"
  obtain q t1 d1 where q0: "settle_orphans A ?P [0..<length (orphans t)] (t, d) = (q, (t1, d1))" by (rule prod_cases3)
  have s: "recorded t1 (pt d1) \<and> pt d1 \<subseteq> pt d" by (rule settle_orphans_recorded [OF f q0 _ rec]) simp
  have t1: "shrunk t t1" using settle_orphans_effect [OF q0] by simp
  obtain q2 t2 d2 where q2: "perform_all A acts (t1, d1) = (q2, (t2, d2))" by (rule prod_cases3)
  then have t2: "t2 = t1" by (rule perform_all_table)
  note pa = perform_all_pages [OF f q2]
  have rec2: "recorded t1 (pt d2)" using s pa recorded_subset by blast
  show ?thesis
  proof (cases q)
    case (Inl e)
    then show ?thesis using run q0 s by (simp add: execute_teardown_def run_actions_def)
  next
    case q: (Inr u)
    show ?thesis
    proof (cases q2)
      case (Inl e)
      then show ?thesis using run q q0 q2 rec2 t2 by (simp add: execute_teardown_def run_actions_def)
    next
      case (Inr u')
      have pm: "plan_marks t1 plan" using plan(1) shrunk_fields [OF t1] by (simp add: plan_marks_def)
      have sh1: "shape t1" by (rule shrunk_shape [OF sh t1])
      obtain cs n where c: "commit_teardown plan t1 = (Inr (), (residue plan t1)\<lparr>charges := cs, total_pages := n\<rparr>)"
        using commit_teardown_ok [OF shapeD(2,1) [OF sh1] pm] by blast
      have "closed t1 plan" using plan(2) unfolding closed_def residue_shrunk_sets [OF t1] .
      moreover have "unmapping t1 plan acts" using unm shrunk_fields [OF t1] by (simp add: unmapping_def)
      ultimately have "recorded (residue plan t1) (pt d2)" using residue_recorded [OF sh1 _ _ rec2] pa Inr by simp
      then have "recorded ((residue plan t1)\<lparr>charges := cs, total_pages := n\<rparr>) (pt (commit_releases A acts d2))"
        using recorded_subset [OF _ faithfulD(5) [OF f]] by (simp add: recorded_accounts)
      moreover have "t' = (residue plan t1)\<lparr>charges := cs, total_pages := n\<rparr>" "d' = commit_releases A acts d2"
        using run q q0 q2 t2 Inr c by (simp_all add: execute_teardown_def run_actions_def on_table_def)
      ultimately show ?thesis by simp
    qed
  qed
qed

section \<open>Installing a mapping\<close>

text \<open>Pages recorded, or among the listed pages of a mapping that is being installed.\<close>

definition nearly :: "SharedBufferTable \<Rightarrow> Region \<Rightarrow> MappingRecord \<Rightarrow> nat set \<Rightarrow> page set \<Rightarrow> bool" where
  "nearly t r m K S \<longleftrightarrow> (\<forall>(f, v, x, w) \<in> S. mapped_in t (f, v, x, w) \<or> orphaned_in t (f, v, x, w)
     \<or> (v = map_vspace m \<and> w = map_rights m
        \<and> (\<exists>page \<in> K. f = frame_list r ! (map_offset m + page) \<and> x = map_base m + page * PAGE_SIZE)))"

lemma nearly_empty: "nearly t r m {} S = recorded t S"
  by (auto simp: nearly_def recorded_def)

lemma nearly_subset: "nearly t r m K S \<Longrightarrow> S' \<subseteq> S \<Longrightarrow> K \<subseteq> K' \<Longrightarrow> nearly t r m K' S'"
  unfolding nearly_def by fast

lemma nearly_orphaned:
  assumes "nearly t r m K S" "orphaned F n t t'"
  shows "nearly t' r m K S"
proof -
  have o: "orphan_set t \<subseteq> orphan_set t'" and t': "t' = t\<lparr>orphans := orphans t'\<rparr>" using assms(2) by (simp_all only: orphaned_def)
  have "mappings t' = mappings t" "regions t' = regions t" by (subst t', simp)+
  then have "mapped_in t' p = mapped_in t p" for p by (simp add: mapped_in_def)
  moreover have "orphaned_in t p \<Longrightarrow> orphaned_in t' p" for p using o by (auto simp: orphaned_in_def)
  ultimately show ?thesis using assms(1) unfolding nearly_def by fastforce
qed

lemma nearly_drop:
  assumes "nearly t r m (insert k K) S"
    and "\<And>w. (frame_list r ! (map_offset m + k), map_vspace m, map_base m + k * PAGE_SIZE, w) \<in> S \<Longrightarrow>
      orphaned_in t (frame_list r ! (map_offset m + k), map_vspace m, map_base m + k * PAGE_SIZE, w)"
  shows "nearly t r m K S"
  using assms unfolding nearly_def by fastforce

text \<open>The rollback leaves every page unmapped or recorded as an orphan, and never runs out of room.\<close>

lemma rollback_pages_recorded:
  assumes f: "faithful A pt" and m: "mp_record plan = m" "mp_anchors plan = anchors r" "anchors_ok (anchors r)"
    and run: "rollback_pages A plan cause pages err k u (t, d) = (res, (t', d'))"
    and range: "\<forall>page \<in> set pages. map_offset m + page < anchors_len (anchors r)"
    and room: "orphan_count t + length pages \<le> length (orphans t)"
    and near: "nearly t r m (set pages) (pt d)"
  shows "recorded t' (pt d') \<and> (res = Inl (Adapter cause) \<or> (\<exists>rb n. res = Inl (Orphaned cause rb n u)))"
  using run range room near
proof (induction pages arbitrary: err k t d)
  case Nil
  then show ?case by (cases err) (auto simp: nearly_empty)
next
  case (Cons page rest)
  let ?f = "frame_list r ! (map_offset m + page)" and ?x = "map_base m + page * PAGE_SIZE"
  have get: "anchors_get (mp_anchors plan) (map_offset (mp_record plan) + page) = Some ?f"
    using Cons.prems(2) m by (simp add: anchors_get_frame_list)
  obtain p d1 where p: "perform A (Unmap ?f (map_vspace m) ?x) d = (p, d1)" by (cases "perform A (Unmap ?f (map_vspace m) ?x) d")
  have d1: "pt d1 \<subseteq> pt d" by (rule faithfulD(3) [OF f p])
  have near1: "nearly t r m (insert page (set rest)) (pt d1)" using nearly_subset [OF Cons.prems(4) d1 subset_refl] by simp
  show ?case
  proof (cases p)
    case (Inr x)
    have "nearly t r m (set rest) (pt d1)" by (rule nearly_drop [OF near1]) (use faithfulD(4) [OF f] p Inr in simp)
    then show ?thesis using Cons.IH [of err k t d1] Cons.prems(1-3) get p Inr m(1) by (simp add: Let_def)
  next
    case (Inl rb)
    let ?o = "\<lparr>orphan_frame = ?f, orphan_vspace = map_vspace m, orphan_vaddr = ?x\<rparr>"
    obtain q t1 where q: "record_orphan ?o t = (q, t1)" by (cases "record_orphan ?o t")
    have "q \<noteq> Inl e" for e using record_orphan_Inl(3) [of ?o t e t1] q Cons.prems(3) by auto
    then have qr: "q = Inr ()" by (cases q) auto
    have fr: "?f \<in> frames r" using Cons.prems(2) m(3) by (simp add: frame_list_frames)
    have o: "orphaned (frames r) 1 t t1" by (rule record_orphan_orphaned [OF q]) (use fr in simp)
    have near2: "nearly t1 r m (set rest) (pt d1)"
      by (rule nearly_drop [OF nearly_orphaned [OF near1 o]]) (use record_orphan_recorded [of ?o t "()" t1] q qr in \<open>simp add: orphaned_in_def\<close>)
    have "orphan_count t1 + length rest \<le> length (orphans t1)" using o Cons.prems(3) by (simp add: orphaned_def)
    then show ?thesis
      using Cons.IH [of _ _ t1 d1] Cons.prems(1,2) near2 get p Inl m(1) q qr by (simp add: Let_def)
  qed
qed

lemma map_pages_recorded:
  assumes f: "faithful A pt" and m: "mp_record plan = m" "mp_anchors plan = anchors r" "anchors_ok (anchors r)" "backs r m"
    and room: "orphan_count t + map_count m \<le> length (orphans t)"
    and run: "map_pages A plan [k..<map_count m] (t, d) = (res, (t', d'))" and k: "k \<le> map_count m"
    and near: "nearly t r m {..<k} (pt d)"
  shows "case res of Inr _ \<Rightarrow> nearly t r m {..<map_count m} (pt d')
    | Inl e \<Rightarrow> recorded t' (pt d') \<and> (\<forall>c rb n u. e = Orphaned c rb n u \<longrightarrow> u = 0)"
  using run k near
proof (induction "map_count m - k" arbitrary: k d)
  case 0
  then show ?case by auto
next
  case (Suc j)
  let ?f = "frame_list r ! (map_offset m + k)" and ?x = "map_base m + k * PAGE_SIZE"
  have k: "k < map_count m" using Suc.hyps(2) by simp
  then have up: "[k..<map_count m] = k # [Suc k..<map_count m]" by (rule upt_conv_Cons)
  have get: "anchors_get (mp_anchors plan) (map_offset (mp_record plan) + k) = Some ?f"
    using k m by (simp add: anchors_get_frame_list backs_def)
  have addr: "usize_add (map_base (mp_record plan)) (k * PAGE_SIZE) = Some ?x"
    using k m by (simp add: usize_add_def backs_def USER_ADDRESS_CEILING_def PAGE_SIZE_def)
  obtain p d1 where p: "map_frame A ?f (map_vspace m) ?x (map_rights m) d = (p, d1)"
    by (cases "map_frame A ?f (map_vspace m) ?x (map_rights m) d")
  show ?case
  proof (cases p)
    case (Inr u)
    have "nearly t r m {..<Suc k} (pt d1)"
      using Suc.prems(3) faithfulD(1) [OF f p] unfolding nearly_def lessThan_Suc by fastforce
    then show ?thesis using Suc.hyps(1) [of "Suc k" d1] Suc.hyps(2) Suc.prems(1) k up get addr p Inr m(1) by simp
  next
    case (Inl cause)
    have rb: "rollback_pages A plan cause (rev [0..<k]) None 0 0 (t, d1) = (res, (t', d'))"
      using Suc.prems(1) up get addr p Inl m(1) by simp
    have "nearly t r m (set (rev [0..<k])) (pt d1)"
      by (rule nearly_subset [OF Suc.prems(3) faithfulD(2) [OF f]]) (use p Inl in auto)
    then have "recorded t' (pt d') \<and> (res = Inl (Adapter cause) \<or> (\<exists>b n. res = Inl (Orphaned cause b n 0)))"
      using rollback_pages_recorded [OF f m(1-3) rb] k m(4) room by (simp add: backs_def)
    then show ?thesis by auto
  qed
qed

lemma charge_positive_table:
  obtains c cs where "charge_positive h p b m l t = (c, t\<lparr>charges := cs\<rparr>)" "\<forall>e. c = Inl e \<longrightarrow> e = ChargesExhausted"
proof (cases "case charge_slot t h of Some slot \<Rightarrow> Some slot | None \<Rightarrow> position (\<lambda>c. c = None) (charges t)")
  case None
  then show ?thesis by (intro that [of "Inl ChargesExhausted" "charges t"]) (simp_all add: charge_positive_def)
next
  case (Some slot)
  then show ?thesis by (intro that [of "Inr ()"]) (auto simp: charge_positive_def Let_def)
qed

lemma recorded_charges: "recorded (t\<lparr>charges := cs\<rparr>) S = recorded t S"
  by (simp add: recorded_def mapped_in_def orphaned_in_def)

lemma shape_room:
  "shape t \<Longrightarrow> orphan_count t + tot map_count (mappings t) + n \<le> MAX_MAPPING_PAGES \<Longrightarrow> orphan_count t + n \<le> length (orphans t)"
  using shapeD(1) [of t] by (simp add: sized_def MAX_ORPHANS_def)

lemma execute_mapping_recorded:
  assumes f: "faithful A pt" and sh: "shape t" and plan: "preflight_mapping t h r vspace base off n rights ln = Inr plan"
    and r: "r \<in> region_set t" "backs r (mp_record plan)" and rec: "recorded t (pt d)"
    and run: "execute_mapping A plan (t, d) = (res, (t', d'))"
  shows "recorded t' (pt d') \<and> (\<forall>c rb n u. res = Inl (Orphaned c rb n u) \<longrightarrow> u = 0)"
proof -
  note p = preflight_mapping_Inr [OF plan]
  let ?m = "mp_record plan"
  have ok: "anchors_ok (anchors r)" using shapeD(1) [OF sh] r(1) by (simp add: sized_def)
  have room: "orphan_count t + map_count ?m \<le> length (orphans t)" using shape_room [OF sh] p(4,6) by simp
  obtain q t1 d1 where q: "map_pages A plan [0..<map_count ?m] (t, d) = (q, (t1, d1))" by (rule prod_cases3)
  have near: "nearly t r ?m {..<0} (pt d)" using rec by (simp add: nearly_empty)
  note mp = map_pages_recorded [OF f refl p(3) ok r(2) room q _ near, simplified]
  have same: "q = Inr () \<longrightarrow> t1 = t" using map_pages_orphaned [OF q, of "map_count ?m" r] p(3) ok by simp
  show ?thesis
  proof (cases q)
    case (Inl e)
    then show ?thesis using run q mp by (auto simp: execute_mapping_def)
  next
    case (Inr u)
    let ?t = "t\<lparr>mappings := (mappings t)[mp_slot plan := Some ?m]\<rparr>"
    have set: "mapping_set ?t = insert ?m (mapping_set t)" using set_flatten_update [OF p(1,2)] by simp
    have "recorded ?t (pt d1)"
      unfolding recorded_def
    proof
      fix pg assume pg: "pg \<in> pt d1"
      obtain a v x w where e: "pg = (a, v, x, w)" by (cases pg)
      have "mapped_in t pg \<or> orphaned_in t pg \<or> page_of r ?m a v x \<and> w = map_rights ?m"
        using mp Inr pg e unfolding nearly_def page_of_def by auto
      then show "mapped_in ?t pg \<or> orphaned_in ?t pg"
        using r(1) r(2) set unfolding mapped_in_def orphaned_in_def e by (auto simp: backs_def)
    qed
    moreover have "t1 = t" using same Inr by simp
    moreover obtain c cs where "charge_positive (map_holder ?m) 0 0 1 0 ?t = (c, ?t\<lparr>charges := cs\<rparr>)"
      "\<forall>e. c = Inl e \<longrightarrow> e = ChargesExhausted" by (rule charge_positive_table)
    ultimately show ?thesis
      using run q Inr by (auto simp: execute_mapping_def on_table_def recorded_charges)
  qed
qed

section \<open>The operations keep mapped pages recorded\<close>

lemma admitted_recorded:
  assumes f: "faithful A pt" and sh: "shape t" and adm: "admitted t h vspace base plan r" and rec: "recorded t (pt d)"
    and run: "execute_mapping A plan (t, d) = (res, (t', d'))"
  shows "recorded t' (pt d')"
proof -
  obtain off n rights ln where "preflight_mapping t h r vspace base off n rights ln = Inr plan"
    using adm by (auto simp: admitted_def)
  then show ?thesis using execute_mapping_recorded [OF f sh _ _ _ rec run] adm by (auto simp: admitted_def)
qed

lemma sb_map_recorded:
  assumes "faithful A pt" and sh: "shape t" and run: "sb_map A h handle vspace base offset len rights (t, d) = (res, (t', d'))"
    and "recorded t (pt d)"
  shows "recorded t' (pt d')"
  using sb_map_cases [OF sh run] admitted_recorded [OF assms(1,2)] assms(4) by metis

lemma map_loan_recorded:
  assumes "faithful A pt" and sh: "shape t" and run: "map_loan A h handle vspace base offset len (t, d) = (res, (t', d'))"
    and "recorded t (pt d)"
  shows "recorded t' (pt d')"
  using map_loan_cases [OF sh run] admitted_recorded [OF assms(1,2)] assms(4) by metis

lemma teardown_recorded:
  assumes f: "faithful A pt" and sh: "shape t" and plan: "\<forall>plan. planned = Inr plan \<longrightarrow> plan_marks t plan \<and> closed t plan"
    and run: "teardown A planned (t, d) = (res, (t', d'))" and rec: "recorded t (pt d)"
  shows "recorded t' (pt d')"
proof (cases planned)
  case (Inl e)
  then show ?thesis using run rec by (auto simp: teardown_def rbind_def)
next
  case (Inr p)
  then have p: "plan_marks t p" "closed t p" using plan by simp_all
  then have "execute_teardown A (plan_actions t p) p (t, d) = (res, (t', d'))"
    using run Inr build_actions_eq [OF sh p(1)] by (simp add: teardown_def rbind_def)
  then show ?thesis using execute_teardown_recorded [OF f sh p unmapping_plan [OF sh] rec] by blast
qed

lemma unmap_authorized_recorded:
  assumes f: "faithful A pt" and sh: "shape t" and run: "unmap_authorized A h handle vspace base thr (t, d) = (res, (t', d'))"
    and rec: "recorded t (pt d)"
  shows "recorded t' (pt d')"
  using run
proof (cases rule: unmap_authorized_cases)
  case (torn slot m acts q)
  have "map_count m \<le> tot map_count (mappings t)" using val_le_tot [OF torn(1), of map_count] torn(2) by simp
  then have "map_count m \<le> MAX_TEARDOWN_ACTIONS" using shapeD(7) [OF sh] by (simp add: budget_def bound_defs)
  then have acts: "acts = mapping_unmaps t (Some m)" using append_mapping_actions_eq [OF sh torn(1,2), of "[]"] torn(2,3) by simp
  have "unmapping t (unmap_plan slot) acts"
    unfolding unmapping_def
  proof (intro allI impI ballI)
    fix j m' r assume j: "j < length (mappings t)" "remove_mappings (unmap_plan slot) ! j" "mappings t ! j = Some m'"
      and r: "r \<in> region_set t" "region_id r = map_buffer m'"
    have "j = slot" using j teardown_new_nth(1) [OF shapeD(1) [OF sh], of j] by (cases "j = slot") (simp_all add: unmap_plan_def)
    then have "m' = m" "m \<in> mapping_set t" using j torn(1,2) by (auto simp: set_flatten_nth)
    then show "set (page_unmaps r m') \<subseteq> set acts" using mapping_unmaps_eq [OF sh _ r(1)] r(2) acts by simp
  qed
  then show ?thesis
    using execute_teardown_recorded [OF f sh unmap_plan_closed(1,2) [OF sh torn(1,2) unmap_plan_def] _ rec torn(4)] by blast
qed (use rec in simp)

lemma recorded_released:
  assumes sh: "shape t" and rec: "recorded t S"
  shows "recorded (snd (update_region slot (\<lambda>r. r\<lparr>released := True\<rparr>) t)) S"
proof (cases "slot < length (regions t) \<and> regions t ! slot \<noteq> None")
  case False
  then show ?thesis using rec by (cases "regions t ! slot") (auto simp: update_region_def list_update_beyond)
next
  case True
  then obtain r where r: "regions t ! slot = Some r" "slot < length (regions t)" by auto
  let ?t = "t\<lparr>regions := (regions t)[slot := Some (r\<lparr>released := True\<rparr>)]\<rparr>"
  let ?g = "\<lambda>r'. if region_id r' = region_id r then r'\<lparr>released := True\<rparr> else r'"
  have R: "region_set ?t = ?g ` region_set t" using region_set_update [OF sh r(2,1), of "\<lambda>r. r\<lparr>released := True\<rparr>"] by simp
  have "mapped_in ?t p" if mp: "mapped_in t p" for p
  proof -
    obtain a v x w where p: "p = (a, v, x, w)" by (cases p)
    obtain m r' where "m \<in> mapping_set t" "r' \<in> region_set t" "region_id r' = map_buffer m" "page_of r' m a v x"
      "w = ReadWrite \<longrightarrow> map_rights m = ReadWrite" using mp by (auto simp: mapped_in_def p)
    moreover have "?g r' \<in> region_set ?t" unfolding R using calculation(2) by (rule imageI)
    moreover have "region_id (?g r') = region_id r'" "page_of (?g r') m a v x = page_of r' m a v x"
      by (simp_all add: page_of_def frame_list_def)
    ultimately show ?thesis unfolding mapped_in_def p prod.case by (intro bexI [of _ m] bexI [of _ "?g r'"]) auto
  qed
  moreover have "orphaned_in ?t p = orphaned_in t p" for p by (simp add: orphaned_in_def)
  ultimately have "recorded ?t S" using rec by (auto simp: recorded_def)
  then show ?thesis using r(1) by (simp add: update_region_def)
qed

lemma release_recorded:
  assumes f: "faithful A pt" and sh: "shape t" and run: "release A h handle (t, d) = (res, (t', d'))" and rec: "recorded t (pt d)"
  shows "recorded t' (pt d')"
  using sh run
proof (cases rule: release_cases)
  case (torn r slot acts0 acts q t1)
  note closed = release_plan_closed [OF sh torn(1,2)]
  have "acts = plan_actions t (release_plan t slot r)" using plan_actions_fit [OF sh closed(1)] torn(3,4) by simp
  then have "recorded t1 (pt d')" using execute_teardown_recorded [OF f sh closed _ rec torn(5)] unmapping_plan [OF sh] by blast
  moreover have "shape t1" using execute_teardown_shape [OF sh closed reclaiming_actions [OF torn(4) shapeD(1) [OF sh]] torn(5)] by blast
  ultimately show ?thesis using torn(6) recorded_released by (cases q) auto
qed (use rec in simp)

section \<open>Sealing\<close>

text \<open>The pages of a mapping, with some rights.\<close>

definition pgs :: "Region \<Rightarrow> MappingRecord \<Rightarrow> MappingRights set \<Rightarrow> page set" where
  "pgs r m W = {(f, v, x, w). page_of r m f v x \<and> w \<in> W}"

lemma pgs_mono: "W \<subseteq> W' \<Longrightarrow> pgs r m W \<subseteq> pgs r m W'"
  by (auto simp: pgs_def)

lemma pgs_page:
  assumes "anchors_get (anchors r) (map_offset m + page) = Some f" "page < map_count m"
  shows "(f, map_vspace m, map_base m + page * PAGE_SIZE, w) \<in> pgs r m W \<longleftrightarrow> w \<in> W"
proof -
  have "f = frame_list r ! (map_offset m + page)" using assms(1) by (simp add: anchors_get_frame_list split: if_splits)
  then have "page_of r m f (map_vspace m) (map_base m + page * PAGE_SIZE)" using assms(2) by (auto simp: page_of_def)
  then show ?thesis by (simp add: pgs_def)
qed

lemma restore_pages_pages:
  assumes f: "faithful A pt" and run: "restore_pages A r m rights cause pages d = (res, d')" "\<forall>page \<in> set pages. page < map_count m"
  shows "pt d' \<subseteq> pt d \<union> pgs r m {rights}"
  using run
proof (induction pages arbitrary: d)
  case (Cons page rest)
  show ?case
  proof (cases "anchors_get (anchors r) (map_offset m + page)")
    case (Some fr)
    obtain p d1 where p: "map_frame A fr (map_vspace m) (map_base m + page * PAGE_SIZE) rights d = (p, d1)"
      by (cases "map_frame A fr (map_vspace m) (map_base m + page * PAGE_SIZE) rights d")
    have d1: "pt d1 \<subseteq> pt d \<union> pgs r m {rights}"
      using faithfulD(1) [OF f p] pgs_page [OF Some, of rights "{rights}"] Cons.prems(2) by auto
    show ?thesis
    proof (cases p)
      case (Inr u)
      then show ?thesis using Cons.IH [of d1] Cons.prems Some p d1 by auto
    qed (use Cons.prems Some p d1 in simp)
  qed (use Cons.prems in auto)
qed simp

lemma remove_pages_pages:
  assumes f: "faithful A pt" and run: "remove_pages A r m cause pages d = (res, d')"
  shows "pt d' \<subseteq> pt d"
  using run
proof (induction pages arbitrary: d)
  case (Cons page rest)
  show ?case
  proof (cases "anchors_get (anchors r) (map_offset m + page)")
    case (Some fr)
    obtain p d1 where p: "perform A (Unmap fr (map_vspace m) (map_base m + page * PAGE_SIZE)) d = (p, d1)"
      by (cases "perform A (Unmap fr (map_vspace m) (map_base m + page * PAGE_SIZE)) d")
    show ?thesis
    proof (cases p)
      case (Inr u)
      then show ?thesis using Cons.IH [of d1] Cons.prems Some p faithfulD(3) [OF f p] by auto
    qed (use Cons.prems Some p faithfulD(3) [OF f p] in auto)
  qed (use Cons.prems in auto)
qed simp

lemma remap_unmap_pages:
  assumes f: "faithful A pt" and run: "remap_unmap A r m rights pages d = (res, d')" "\<forall>page \<in> set pages. page < map_count m"
  shows "pt d' \<subseteq> pt d \<union> pgs r m {rights} \<and> (res = Inr () \<longrightarrow> pt d' \<subseteq> pt d
    \<and> (\<forall>page \<in> set pages. \<forall>w. (frame_list r ! (map_offset m + page), map_vspace m, map_base m + page * PAGE_SIZE, w) \<notin> pt d'))"
  using run
proof (induction pages arbitrary: d)
  case (Cons page rest)
  show ?case
  proof (cases "anchors_get (anchors r) (map_offset m + page)")
    case (Some fr)
    have fr: "fr = frame_list r ! (map_offset m + page)" using Some by (simp add: anchors_get_frame_list split: if_splits)
    obtain p d1 where p: "perform A (Unmap fr (map_vspace m) (map_base m + page * PAGE_SIZE)) d = (p, d1)"
      by (cases "perform A (Unmap fr (map_vspace m) (map_base m + page * PAGE_SIZE)) d")
    note d1 = faithfulD(3) [OF f p]
    show ?thesis
    proof (cases p)
      case (Inr u)
      then have run1: "remap_unmap A r m rights rest d1 = (res, d')" using Cons.prems(1) Some p by simp
      have gone: "(fr, map_vspace m, map_base m + page * PAGE_SIZE, w) \<notin> pt d1" for w using faithfulD(4) [OF f] p Inr by simp
      from Cons.IH [OF run1] Cons.prems(2) show ?thesis using d1 gone unfolding fr by auto
    next
      case (Inl cause)
      obtain q d2 where q: "restore_pages A r m rights cause [0..<page] d1 = (q, d2)" by (cases "restore_pages A r m rights cause [0..<page] d1")
      have "pt d2 \<subseteq> pt d1 \<union> pgs r m {rights}" by (rule restore_pages_pages [OF f q]) (use Cons.prems(2) in auto)
      moreover have "d' = d2 \<and> (\<exists>e. res = Inl e)"
        using Cons.prems(1) Some p Inl q by (cases q) (auto simp: sbind_def sfail_def)
      ultimately show ?thesis using d1 by auto
    qed
  qed (use Cons.prems in auto)
qed simp

lemma remap_map_pages:
  assumes f: "faithful A pt" and run: "remap_map A r m target rollback pages d = (res, d')" "\<forall>page \<in> set pages. page < map_count m"
  shows "pt d' \<subseteq> pt d \<union> pgs r m {target, rollback} \<and> (res = Inr () \<longrightarrow> pt d' \<subseteq> pt d \<union> pgs r m {target})"
  using run
proof (induction pages arbitrary: d)
  case (Cons page rest)
  show ?case
  proof (cases "anchors_get (anchors r) (map_offset m + page)")
    case (Some fr)
    obtain p d1 where p: "map_frame A fr (map_vspace m) (map_base m + page * PAGE_SIZE) target d = (p, d1)"
      by (cases "map_frame A fr (map_vspace m) (map_base m + page * PAGE_SIZE) target d")
    have d1: "pt d1 \<subseteq> pt d \<union> pgs r m {target}"
      using faithfulD(1) [OF f p] pgs_page [OF Some, of target "{target}"] Cons.prems(2) by auto
    have sub: "pgs r m {target} \<subseteq> pgs r m {target, rollback}" "pgs r m {rollback} \<subseteq> pgs r m {target, rollback}"
      by (auto simp: pgs_def)
    show ?thesis
    proof (cases p)
      case (Inr u)
      then show ?thesis using Cons.IH [of d1] Cons.prems Some p d1 sub by auto
    next
      case (Inl cause)
      obtain q d2 where q: "remove_pages A r m cause [0..<page] d1 = (q, d2)" by (cases "remove_pages A r m cause [0..<page] d1")
      obtain q2 d3 where q2: "restore_pages A r m rollback cause [0..<map_count m] d2 = (q2, d3)"
        by (cases "restore_pages A r m rollback cause [0..<map_count m] d2")
      have "pt d2 \<subseteq> pt d1" by (rule remove_pages_pages [OF f q])
      moreover have "pt d3 \<subseteq> pt d2 \<union> pgs r m {rollback}" by (rule restore_pages_pages [OF f q2]) simp
      moreover have "(d' = d2 \<or> d' = d3) \<and> (\<exists>e. res = Inl e)"
        using Cons.prems(1) Some p Inl q q2 by (cases q; cases q2) (auto simp: sbind_def sfail_def)
      ultimately show ?thesis using d1 sub by blast
    qed
  qed (use Cons.prems in auto)
qed simp

text \<open>A remap leaves no page of the mapping behind that it did not map with the target rights.\<close>

lemma remap_mapping_pages:
  assumes f: "faithful A pt" and run: "remap_mapping A r m target rollback d = (res, d')"
  shows "pt d' \<subseteq> pt d \<union> pgs r m {target, rollback}"
    "res = Inr () \<Longrightarrow> pt d' \<subseteq> pt d \<union> pgs r m {target}"
    "res = Inr () \<Longrightarrow> target \<noteq> rollback \<Longrightarrow> pt d' \<inter> pgs r m {rollback} = {}"
proof -
  obtain q d1 where q: "remap_unmap A r m rollback [0..<map_count m] d = (q, d1)" by (cases "remap_unmap A r m rollback [0..<map_count m] d")
  from remap_unmap_pages [OF f q]
  have un: "pt d1 \<subseteq> pt d \<union> pgs r m {rollback}" "q = Inr () \<Longrightarrow> pt d1 \<subseteq> pt d"
    and gone: "q = Inr () \<Longrightarrow> page < map_count m
      \<Longrightarrow> (frame_list r ! (map_offset m + page), map_vspace m, map_base m + page * PAGE_SIZE, w) \<notin> pt d1" for page w by auto
  have sub: "pgs r m {target} \<subseteq> pgs r m {target, rollback}" "pgs r m {rollback} \<subseteq> pgs r m {target, rollback}"
    by (auto simp: pgs_def)
  have "pt d' \<subseteq> pt d \<union> pgs r m {target, rollback} \<and> (res = Inr () \<longrightarrow> pt d' \<subseteq> pt d \<union> pgs r m {target}
    \<and> (target \<noteq> rollback \<longrightarrow> pt d' \<inter> pgs r m {rollback} = {}))"
  proof (cases q)
    case (Inl e)
    then have "d' = d1" "res = Inl e" using run q by (simp_all add: remap_mapping_def sbind_def)
    then show ?thesis using un(1) sub by blast
  next
    case (Inr u)
    then have "remap_map A r m target rollback [0..<map_count m] d1 = (res, d')" using run q by (simp add: remap_mapping_def sbind_def)
    from remap_map_pages [OF f this]
    have mp: "pt d' \<subseteq> pt d1 \<union> pgs r m {target, rollback}" "res = Inr () \<longrightarrow> pt d' \<subseteq> pt d1 \<union> pgs r m {target}" by auto
    have no: "pt d1 \<inter> pgs r m {rollback} = {}" using gone Inr by (auto simp: pgs_def page_of_def)
    have "pgs r m {target} \<inter> pgs r m {rollback} = {}" if "target \<noteq> rollback" using that by (auto simp: pgs_def)
    moreover have "q = Inr ()" using Inr by simp
    ultimately show ?thesis using mp no un(2) by blast
  qed
  then show "pt d' \<subseteq> pt d \<union> pgs r m {target, rollback}"
    "res = Inr () \<Longrightarrow> pt d' \<subseteq> pt d \<union> pgs r m {target}"
    "res = Inr () \<Longrightarrow> target \<noteq> rollback \<Longrightarrow> pt d' \<inter> pgs r m {rollback} = {}" by blast+
qed

definition slot_pages :: "SharedBufferTable \<Rightarrow> Region \<Rightarrow> MappingRights set \<Rightarrow> nat set \<Rightarrow> page set" where
  "slot_pages t r W I = {p. \<exists>i \<in> I. \<exists>m. mappings t ! i = Some m \<and> p \<in> pgs r m W}"

lemma slot_pagesI: "mappings t ! i = Some m \<Longrightarrow> i \<in> I \<Longrightarrow> pgs r m W \<subseteq> slot_pages t r W I"
  by (auto simp: slot_pages_def)

lemma slot_pages_mono: "W \<subseteq> W' \<Longrightarrow> I \<subseteq> I' \<Longrightarrow> slot_pages t r W I \<subseteq> slot_pages t r W' I'"
  unfolding slot_pages_def using pgs_mono [of W W' r] by blast

lemma rollback_seal_pages:
  assumes f: "faithful A pt" and run: "rollback_seal A t r slots d = (res, d')"
  shows "pt d' \<subseteq> pt d \<union> slot_pages t r UNIV (set slots)"
  using run
proof (induction slots arbitrary: d)
  case (Cons i slots)
  show ?case
  proof (cases "mappings t ! i")
    case None
    then show ?thesis using Cons.prems by auto
  next
    case (Some m)
    obtain q d1 where q: "remap_mapping A r m ReadWrite ReadOnly d = (q, d1)" by (cases "remap_mapping A r m ReadWrite ReadOnly d")
    have d1: "pt d1 \<subseteq> pt d \<union> slot_pages t r UNIV (set (i # slots))"
      using remap_mapping_pages(1) [OF f q] pgs_mono [of "{ReadWrite, ReadOnly}" UNIV r m] slot_pagesI [OF Some, of "set (i # slots)" r UNIV] by auto
    show ?thesis
    proof (cases q)
      case (Inr u)
      then have "rollback_seal A t r slots d1 = (res, d')" using Cons.prems Some q by simp
      from Cons.IH [OF this] show ?thesis using d1 slot_pages_mono [of UNIV UNIV "set slots" "set (i # slots)" t r] by auto
    qed (use Cons.prems Some q d1 in simp)
  qed
qed simp

lemma seal_loop_pages:
  assumes f: "faithful A pt" and run: "seal_loop A t r done_slots slots d = (res, d')"
  shows "pt d' \<subseteq> pt d \<union> slot_pages t r UNIV (set done_slots \<union> set slots)"
  using run
proof (induction slots arbitrary: d done_slots)
  case (Cons i slots)
  let ?all = "slot_pages t r UNIV (set done_slots \<union> set (i # slots))"
  show ?case
  proof (cases "mappings t ! i")
    case None
    then show ?thesis using Cons.prems by auto
  next
    case (Some m)
    obtain q d1 where q: "remap_mapping A r m ReadOnly (map_rights m) d = (q, d1)" by (cases "remap_mapping A r m ReadOnly (map_rights m) d")
    have d1: "pt d1 \<subseteq> pt d \<union> ?all"
      using remap_mapping_pages(1) [OF f q] pgs_mono [of "{ReadOnly, map_rights m}" UNIV r m]
        slot_pagesI [OF Some, of "set done_slots \<union> set (i # slots)" r UNIV] by auto
    show ?thesis
    proof (cases q)
      case (Inr u)
      then have "seal_loop A t r (done_slots @ [i]) slots d1 = (res, d')" using Cons.prems Some q by simp
      from Cons.IH [OF this] have "pt d' \<subseteq> pt d1 \<union> ?all" by (simp add: Un_ac insert_commute)
      then show ?thesis using d1 by blast
    next
      case (Inl e)
      obtain q2 d2 where q2: "rollback_seal A t r (rev done_slots) d1 = (q2, d2)" by (cases "rollback_seal A t r (rev done_slots) d1")
      have "d' = d2" using Cons.prems Some q Inl q2 by (cases q2) simp_all
      moreover have "slot_pages t r UNIV (set (rev done_slots)) \<subseteq> ?all" by (rule slot_pages_mono) auto
      ultimately show ?thesis using d1 rollback_seal_pages [OF f q2] by blast
    qed
  qed
qed simp

text \<open>When the loop succeeds it added read-only pages only, and no writable page of a visited mapping is left.\<close>

lemma seal_loop_sealed:
  assumes f: "faithful A pt" and run: "seal_loop A t r done_slots slots d = (Inr (), d')"
    and rw: "\<forall>i \<in> set slots. \<forall>m. mappings t ! i = Some m \<longrightarrow> map_rights m = ReadWrite"
  shows "pt d' \<subseteq> pt d \<union> slot_pages t r {ReadOnly} (set slots) \<and> pt d' \<inter> slot_pages t r {ReadWrite} (set slots) = {}"
  using run rw
proof (induction slots arbitrary: d done_slots)
  case Nil
  then show ?case by (simp add: slot_pages_def)
next
  case (Cons i slots)
  show ?case
  proof (cases "mappings t ! i")
    case None
    then show ?thesis using Cons.prems by auto
  next
    case (Some m)
    then have m: "map_rights m = ReadWrite" using Cons.prems(2) by simp
    obtain q d1 where q: "remap_mapping A r m ReadOnly (map_rights m) d = (q, d1)" by (cases "remap_mapping A r m ReadOnly (map_rights m) d")
    have ok: "q = Inr ()" "seal_loop A t r (done_slots @ [i]) slots d1 = (Inr (), d')"
      using Cons.prems(1) Some q by (auto split: sum.splits prod.splits)
    have d1: "pt d1 \<subseteq> pt d \<union> pgs r m {ReadOnly}" "pt d1 \<inter> pgs r m {ReadWrite} = {}"
      using remap_mapping_pages(2,3) [OF f q ok(1)] m by simp_all
    have ih: "pt d' \<subseteq> pt d1 \<union> slot_pages t r {ReadOnly} (set slots)" "pt d' \<inter> slot_pages t r {ReadWrite} (set slots) = {}"
      using Cons.IH [OF ok(2)] Cons.prems(2) by simp_all
    have split: "slot_pages t r W (set (i # slots)) = pgs r m W \<union> slot_pages t r W (set slots)" for W
      using Some by (auto simp: slot_pages_def)
    have "slot_pages t r {ReadOnly} (set slots) \<inter> pgs r m {ReadWrite} = {}" by (auto simp: slot_pages_def pgs_def)
    then show ?thesis unfolding split using d1 ih by blast
  qed
qed

lemma slot_pages_mapped:
  assumes "shape t" "r \<in> region_set t" "p \<in> slot_pages t r UNIV (set (writable_slots t (region_id r)))"
  shows "mapped_in t p"
proof -
  obtain i m where i: "i < length (mappings t)" "mappings t ! i = Some m" "map_buffer m = region_id r" "map_rights m = ReadWrite" "p \<in> pgs r m UNIV"
    using assms(3) unfolding slot_pages_def by (auto simp: writable_slots_iff)
  then have "m \<in> mapping_set t" by (auto simp: set_flatten_nth)
  moreover obtain f v x w where pw: "p = (f, v, x, w)" by (rule prod_cases4)
  moreover have "page_of r m f v x" using i(5) by (simp add: pgs_def pw)
  ultimately show ?thesis unfolding mapped_in_def pw prod.case using i(3,4) assms(2)
    by (intro bexI [of _ m] bexI [of _ r]) simp_all
qed

text \<open>The table after a successful seal still records every page that is not a writable page of a lowered mapping.\<close>

lemma sealed_records:
  assumes sh: "shape t" and at: "slot < length (regions t)" "regions t ! slot = Some r"
    and ms: "length ms = length (mappings t)" "\<forall>j < length ms. ms ! j = (if j \<in> set (writable_slots t (region_id r))
         then map_option (\<lambda>m. m\<lparr>map_rights := ReadOnly\<rparr>) (mappings t ! j) else mappings t ! j)"
    and p: "mapped_in t p" "p \<notin> slot_pages t r {ReadWrite} (set (writable_slots t (region_id r)))"
  shows "mapped_in (t\<lparr>mappings := ms, regions := (regions t)[slot := Some (r\<lparr>sealed := True\<rparr>)]\<rparr>) p"
proof -
  obtain f v x w where pw: "p = (f, v, x, w)" by (rule prod_cases4)
  obtain m r' where m: "m \<in> mapping_set t" "r' \<in> region_set t" "region_id r' = map_buffer m" "page_of r' m f v x"
    "w = ReadWrite \<longrightarrow> map_rights m = ReadWrite" using p(1) unfolding pw mapped_in_def by auto
  obtain j where j: "j < length (mappings t)" "mappings t ! j = Some m" using m(1) by (auto simp: set_flatten_nth)
  let ?g = "\<lambda>r'. if region_id r' = region_id r then r'\<lparr>sealed := True\<rparr> else r'"
  let ?m = "if j \<in> set (writable_slots t (region_id r)) then m\<lparr>map_rights := ReadOnly\<rparr> else m"
  have r: "r \<in> region_set t" using at by (auto simp: set_flatten_nth)
  have "ms ! j = Some ?m" using ms j by simp
  then have m': "?m \<in> set (flatten ms)" using j(1) ms(1) by (auto simp: set_flatten_nth)
  have r': "?g r' \<in> set (flatten ((regions t)[slot := Some (r\<lparr>sealed := True\<rparr>)]))"
    unfolding region_set_update [OF sh at, of "\<lambda>r. r\<lparr>sealed := True\<rparr>"] using m(2) by (rule imageI)
  have page: "page_of (?g r') ?m f v x" "region_id (?g r') = map_buffer ?m"
    using m(3,4) by (simp_all add: page_of_def frame_list_def)
  have w: "map_rights ?m = ReadWrite" if "w = ReadWrite"
  proof (cases "j \<in> set (writable_slots t (region_id r))")
    case True
    then have "r' = r" using j(2) m(2,3) r region_unique [OF sh] by (auto simp: writable_slots_iff)
    then have "p \<in> slot_pages t r {ReadWrite} (set (writable_slots t (region_id r)))"
      using True j(2) m(4) that unfolding pw slot_pages_def pgs_def by auto
    then show ?thesis using p(2) by simp
  qed (use m(5) that in simp)
  show ?thesis using m' r' page w unfolding pw mapped_in_def by fastforce
qed

lemma seal_recorded:
  assumes f: "faithful A pt" and sh: "shape t" and run: "seal A h handle (t, d) = (res, (t', d'))" and rec: "recorded t (pt d)"
  shows "recorded t' (pt d')"
  using sh run
proof (cases rule: seal_cases)
  case (failed e r)
  then show ?thesis
    using seal_loop_pages [OF f failed(4)] slot_pages_mapped [OF sh failed(3)] rec unfolding recorded_def by auto
next
  case (converted r slot ms)
  let ?ws = "set (writable_slots t (region_id r))"
  have "\<forall>i \<in> ?ws. \<forall>m. mappings t ! i = Some m \<longrightarrow> map_rights m = ReadWrite" by (auto simp: writable_slots_iff)
  then have loop: "pt d' \<subseteq> pt d \<union> slot_pages t r {ReadOnly} ?ws" "pt d' \<inter> slot_pages t r {ReadWrite} ?ws = {}"
    using seal_loop_sealed [OF f converted(6)] by blast+
  show ?thesis unfolding recorded_def
  proof
    fix p assume p: "p \<in> pt d'"
    then have no: "p \<notin> slot_pages t r {ReadWrite} ?ws" using loop(2) by blast
    have "p \<in> pt d \<or> p \<in> slot_pages t r UNIV ?ws" using loop(1) p slot_pages_mono [of "{ReadOnly}" UNIV ?ws ?ws t r] by blast
    then have "mapped_in t p \<or> orphaned_in t p" using rec slot_pages_mapped [OF sh converted(1)] unfolding recorded_def by blast
    moreover have "orphaned_in t' p = orphaned_in t p" by (simp add: orphaned_in_def converted(8))
    ultimately show "mapped_in t' p \<or> orphaned_in t' p"
      using sealed_records [OF sh converted(4,5,9,10) _ no] unfolding converted(8) by blast
  qed
qed (use rec in simp_all)

section \<open>Every operation\<close>

lemma return_loan_recorded:
  assumes f: "faithful A pt" and sh: "shape t" and run: "return_loan A h handle (t, d) = (res, (t', d'))" and rec: "recorded t (pt d)"
  shows "recorded t' (pt d')"
proof -
  let ?planned = "rbind (authorize_loan t h handle) (\<lambda>l. Inr (plan_settle_loans t (\<lambda>c. loan_id c = loan_id l)))"
  obtain q t1 d1 where q: "teardown A ?planned (t, d) = (q, (t1, d1))" by (rule prod_cases3)
  have "recorded t1 (pt d1)" by (rule teardown_recorded [OF f sh _ q rec]) (auto simp: rbind_Inr_iff plan_settle_loans_closed [OF sh])
  moreover have "(t', d') = (t1, d1)" using run by (intro sbind_return_state [of "teardown A ?planned" "(t, d)" q "(t1, d1)" res, OF q]) (simp add: return_loan_def)
  ultimately show ?thesis by simp
qed

lemma revoke_loan_recorded:
  assumes f: "faithful A pt" and sh: "shape t" and run: "revoke_loan A h handle (t, d) = (res, (t', d'))" and rec: "recorded t (pt d)"
  shows "recorded t' (pt d')"
proof -
  let ?planned = "rbind (check_epoch t (lh_epoch handle)) (\<lambda>_. rbind (live_loan t (lh_id handle)) (\<lambda>l.
    if loan_buffer l \<noteq> lh_buffer handle then Inl NotFound else if lender l \<noteq> h then Inl WrongOwner
    else Inr (plan_settle_loans t (\<lambda>c. loan_id c = loan_id l))))"
  obtain q t1 d1 where q: "teardown A ?planned (t, d) = (q, (t1, d1))" by (rule prod_cases3)
  have "recorded t1 (pt d1)"
    by (rule teardown_recorded [OF f sh _ q rec]) (auto simp: rbind_Inr_iff plan_settle_loans_closed [OF sh] split: if_splits)
  moreover have "(t', d') = (t1, d1)" using run by (intro sbind_return_state [of "teardown A ?planned" "(t, d)" q "(t1, d1)" res, OF q]) (simp add: revoke_loan_def)
  ultimately show ?thesis by simp
qed

lemma reclaim_holder_recorded:
  assumes f: "faithful A pt" and sh: "shape t" and run: "reclaim_holder A h (t, d) = (res, (t', d'))" and rec: "recorded t (pt d)"
  shows "recorded t' (pt d')"
  by (rule teardown_recorded [OF f sh _ run [unfolded reclaim_holder_eq fst_conv] rec]) (use reclaim_plan_closed [OF sh] in auto)

lemma unmap_loan_recorded:
  assumes f: "faithful A pt" and sh: "shape t" and run: "unmap_loan A h handle vspace base (t, d) = (res, (t', d'))" and rec: "recorded t (pt d)"
  shows "recorded t' (pt d')"
  using run rec unmap_authorized_recorded [OF f sh _ rec]
  by (cases "authorize_loan t h handle") (auto simp: unmap_loan_def)

lemma recorded_epoch: "recorded (t\<lparr>table_epoch := e\<rparr>) S = recorded t S"
  by (simp add: recorded_def mapped_in_def orphaned_in_def)

lemma advance_epoch_recorded:
  assumes f: "faithful A pt" and sh: "shape t" and run: "advance_epoch A e (t, d) = (res, (t', d'))" and rec: "recorded t (pt d)"
  shows "recorded t' (pt d')"
proof -
  define plan where "plan = \<lparr>remove_mappings = map (\<lambda>m. m \<noteq> None) (mappings t), remove_loans = map (\<lambda>l. l \<noteq> None) (loans t),
    remove_regions = map (\<lambda>r. r \<noteq> None) (regions t)\<rparr>"
  have run': "(if e \<le> table_epoch t then (Inl EpochMismatch, (t, d)) else sbind (teardown A (Inr plan)) (\<lambda>acts.
      sbind (on_table (\<lambda>t. (Inr (), t\<lparr>table_epoch := e\<rparr>))) (\<lambda>_. sreturn acts)) (t, d)) = (res, (t', d'))"
    using run unfolding advance_epoch_def Let_def fst_conv plan_def .
  obtain q t1 d1 where q: "teardown A (Inr plan) (t, d) = (q, (t1, d1))" by (rule prod_cases3)
  have "recorded t1 (pt d1)" by (rule teardown_recorded [OF f sh _ q rec]) (simp add: residue_all(4,5) [OF plan_def])
  then show ?thesis using run' q rec by (cases q) (auto simp: on_table_def recorded_epoch split: if_splits)
qed

text \<open>The operations on the table alone add regions, loans and quotas.\<close>

definition grown :: "SharedBufferTable \<Rightarrow> SharedBufferTable \<Rightarrow> bool" where
  "grown t t' \<longleftrightarrow> region_set t \<subseteq> region_set t' \<and> mapping_set t' = mapping_set t \<and> orphan_set t' = orphan_set t"

lemma grown_charge: "grown t t' \<Longrightarrow> grown t (snd (charge_positive h p b m l t'))"
  by (rule charge_positive_table [of h p b m l t']) (simp add: grown_def)

lemma grown_lift: "(\<And>x. c = Inr x \<Longrightarrow> grown t (snd (f x t))) \<Longrightarrow> grown t (snd (sbind (slift c) f t))"
  by (cases c) (simp_all add: sbind_def slift_def grown_def)

lemma snd_sbind_return: "snd (sbind f (\<lambda>_. sreturn y) t) = snd (f t)"
  by (auto simp: sbind_def sreturn_def split: sum.split prod.split)

lemma snd_sbind_update: "snd (sbind (\<lambda>t. (Inr (), g t)) f t) = snd (f () (g t))"
  by (simp add: sbind_def)

lemma commit_create_grown: "grown t (snd (commit_create plan t))"
  unfolding commit_create_def Let_def
proof (rule grown_lift, unfold snd_sbind_update snd_sbind_return, rule grown_charge)
  fix x assume "(if plan_epoch plan \<noteq> table_epoch t then Inl EpochMismatch
    else if next_buffer_id t \<noteq> plan_id plan \<or> \<not> (plan_slot plan < length (regions t) \<and> regions t ! plan_slot plan = None)
    then Inl NotFound
    else rbind (preflight_anchor_uniqueness t (plan_anchors plan)) (\<lambda>_.
      rbind (preflight_buffer_charge t (plan_owner plan) (anchors_len (plan_anchors plan))) (\<lambda>_.
      preflight_charge_slot t (plan_owner plan)))) = Inr x"
  then have "plan_slot plan < length (regions t) \<and> regions t ! plan_slot plan = None" by (simp split: if_splits)
  then show "grown t (t\<lparr>regions := (regions t)[plan_slot plan := Some
       \<lparr>region_id = plan_id plan, region_epoch = plan_epoch plan, owner = plan_owner plan, anchors = plan_anchors plan,
        region_rights = if plan_writable plan then RIGHT_ALL else RIGHT_MAP, created_writable = plan_writable plan,
        sealed = False, released = False\<rparr>], next_buffer_id := plan_next_id plan,
     total_pages := total_pages t + anchors_len (plan_anchors plan)\<rparr>)"
    by (auto simp: grown_def set_flatten_update)
qed

lemma create_grown: "grown t (snd (create h a wr t))"
  unfolding create_def by (rule grown_lift) (rule commit_create_grown)

lemma loan_grown: "grown t (snd (loan h to_h handle offset len wr t))"
  unfolding loan_def Let_def
proof (rule grown_lift)
  have add: "grown t (t\<lparr>loans := ls, next_loan_id := n\<rparr>)" for ls n by (simp add: grown_def)
  show "grown t (snd ((case x of (slot, next_id, l) \<Rightarrow>
    sbind (\<lambda>t. (Inr (), t\<lparr>loans := (loans t)[slot := Some l], next_loan_id := next_id\<rparr>)) (\<lambda>_.
    sbind (charge_positive h 0 0 0 1) (\<lambda>_.
    sreturn \<lparr>lh_id = loan_id l, lh_buffer = handle_id handle, lh_epoch = loan_epoch l, lh_receiver = to_h, lh_writable = wr\<rparr>))) t))" for x
    by (cases x) (simp add: snd_sbind_update snd_sbind_return grown_charge [OF add])
qed

lemma recorded_grown: "recorded t S \<Longrightarrow> grown t t' \<Longrightarrow> recorded t' S"
  unfolding grown_def by (elim conjE, rule recorded_mono) auto

lemma retry_recorded:
  assumes "faithful A pt" "recorded (fst s) (pt (snd s))"
  shows "recorded (fst (retry_loop A P [0..<length (orphans (fst s))] s)) (pt (snd (retry_loop A P [0..<length (orphans (fst s))] s)))"
  using retry_loop_recorded [OF assms(1), of P "[0..<length (orphans (fst s))]" "fst s" "snd s"] assms(2)
  by (cases s; cases "retry_loop A P [0..<length (orphans (fst s))] s") auto

lemma op_recorded:
  assumes "\<And>t d res t' d'. shape t \<Longrightarrow> f (t, d) = (res, (t', d')) \<Longrightarrow> recorded t (pt d) \<Longrightarrow> recorded t' (pt d')"
    "shape (fst s)" "recorded (fst s) (pt (snd s))"
  shows "recorded (fst (snd (f s))) (pt (snd (snd (f s))))"
  using assms by (cases s; cases "f s") auto

lemma sb_step_recorded:
  assumes f: "faithful A pt"
  shows "sb_step A s s' \<Longrightarrow> shape (fst s) \<Longrightarrow> recorded (fst s) (pt (snd s)) \<Longrightarrow> recorded (fst s') (pt (snd s'))"
proof (induction rule: sb_step.induct)
  case (create cs a t d h wr)
  then show ?case using recorded_grown create_grown by simp
next
  case (commit_create cs a t0 h wr plan t d)
  then show ?case using recorded_grown commit_create_grown by simp
next
  case (loan t d h to_h handle offset len wr)
  then show ?case using recorded_grown loan_grown by simp
next
  case (unmap s h handle vspace base)
  show ?case unfolding unmap_def using unmap by (rule op_recorded [rotated]) (erule (2) unmap_authorized_recorded [OF f])
next
  case (retry_vspace_orphans s vspace)
  then show ?case by (simp add: retry_vspace_orphans_def Let_def retry_recorded [OF f])
next
  case (retry_orphans s)
  then show ?case by (simp add: retry_orphans_def Let_def retry_recorded [OF f])
next
  case (declare_quota t d h q)
  then show ?case by (auto simp: declare_quota_def grown_def elim!: recorded_grown split: option.split)
next
  case (release_quota t d h)
  then show ?case by (auto simp: release_quota_def grown_def elim!: recorded_grown split: option.split)
qed (rule op_recorded, (erule (2) sb_map_recorded [OF f] map_loan_recorded [OF f] unmap_loan_recorded [OF f] seal_recorded [OF f]
    return_loan_recorded [OF f] revoke_loan_recorded [OF f] release_recorded [OF f] reclaim_holder_recorded [OF f]
    advance_epoch_recorded [OF f]), assumption, assumption)+

end
