(* ===== verification/SharedBufferProperties.thy ===== *)
theory SharedBufferProperties
  imports SharedBufferPages
begin

text \<open>
  The properties of the shared-buffer table, over every sequence of its calls, and concrete runs of
  the table on an adapter whose state is the set of mapped pages.
\<close>

section \<open>Concrete runs\<close>

text \<open>An adapter that performs every request on a set of mapped pages.\<close>

definition paging :: "page set SharedBufferAdapter" where
  "paging = \<lparr>map_frame = (\<lambda>f v x w d. (Inr (), insert (f, v, x, w) d)),
     perform = (\<lambda>a d. (Inr (), case a of Unmap f v x \<Rightarrow> {(f', v', x', w) \<in> d. (f', v', x') \<noteq> (f, v, x)} | _ \<Rightarrow> d)),
     commit_releases = (\<lambda>_ d. d)\<rparr>"

lemma paging_faithful: "faithful paging id"
  by (auto simp: faithful_def paging_def split: AdapterAction.splits)

lemma paging_cooperative: "cooperative paging"
  by (simp add: cooperative_def paging_def)

definition run_anchors :: FrameAnchors where
  "run_anchors = \<lparr>caps = 100 # replicate 63 0, anchors_len = 1\<rparr>"

lemma run_anchors: "from_slice [100] = Inr run_anchors"
proof -
  have "replicate 64 (0::nat) = 0 # replicate 63 0" by (simp add: numeral_eq_Suc)
  then show ?thesis by (simp add: from_slice_def run_anchors_def anchors_empty_def bound_defs enumerate_eq_zip rbind_def)
qed

definition run_quota :: HolderQuota where
  "run_quota = \<lparr>byte_pages = 8, buffer_count = 2, mapping_count = 4, loan_count = 4\<rparr>"

definition run_handle :: BufferHandle where
  "run_handle = \<lparr>handle_id = 1, handle_epoch = 1, handle_rights = RIGHT_ALL\<rparr>"

definition run_loan :: LoanHandle where
  "run_loan = \<lparr>lh_id = 1, lh_buffer = 1, lh_epoch = 1, lh_receiver = 6, lh_writable = True\<rparr>"

text \<open>Holder 5 creates a one-page region, lends it writable to holder 6 and seals it; holder 6 then maps
  the loan.\<close>

definition lent :: SharedBufferTable where
  "lent = snd (loan 5 6 run_handle 0 4096 True (snd (create 5 run_anchors True
     (snd (declare_quota 6 run_quota (snd (declare_quota 5 run_quota (table_new 1))))))))"

definition sealed_state :: "page set buffers" where
  "sealed_state = snd (seal paging 5 run_handle (lent, {}))"

definition written :: "page set buffers" where
  "written = snd (map_loan paging 6 run_loan 7 4096 0 4096 sealed_state)"

lemma sealed_steps: "(sb_step paging)\<^sup>*\<^sup>* (table_new 1, {}) sealed_state"
proof -
  have r: "(sb_step paging)\<^sup>*\<^sup>* s s' \<Longrightarrow> sb_step paging s' s'' \<Longrightarrow> (sb_step paging)\<^sup>*\<^sup>* s s''" for s s' s'' by (rule rtranclp.rtrancl_into_rtrancl)
  have "(sb_step paging)\<^sup>*\<^sup>* (table_new 1, {}) (lent, {})" unfolding lent_def
    by (rule r, rule r, rule r, rule r, rule rtranclp.rtrancl_refl, rule sb_step.declare_quota, rule sb_step.declare_quota,
      rule sb_step.create [OF run_anchors], rule sb_step.loan)
  then show ?thesis unfolding sealed_state_def by (rule r [OF _ sb_step.seal])
qed

lemma written_steps: "(sb_step paging)\<^sup>*\<^sup>* (table_new 1, {}) written"
  unfolding written_def by (rule rtranclp.rtrancl_into_rtrancl [OF sealed_steps sb_step.map_loan])

text \<open>The tables of the run, with all unused slots empty.\<close>

definition run_table :: "Region option \<Rightarrow> MappingRecord option \<Rightarrow> Loan option \<Rightarrow> Charge option \<Rightarrow> Charge option
    \<Rightarrow> QuotaEntry option \<Rightarrow> QuotaEntry option \<Rightarrow> nat \<Rightarrow> u64 \<Rightarrow> u64 \<Rightarrow> SharedBufferTable" where
  "run_table r m l c c' q q' n i j = \<lparr>table_epoch = 1, regions = r # replicate 31 None, mappings = m # replicate 63 None,
     loans = l # replicate 63 None, charges = c # c' # replicate 94 None, quotas = q # q' # replicate 94 None,
     orphans = replicate 4096 None, total_pages = n, next_buffer_id = i, next_loan_id = j\<rparr>"

lemma run_table_new: "table_new 1 = run_table None None None None None None None 0 1 1"
  by (simp add: table_new_def run_table_def bound_defs numeral_eq_Suc)

lemma position_replicate [simp]: "position P (replicate n x) = (if 0 < n \<and> P x then Some 0 else None)"
  by (induction n) auto

lemma declared: "snd (declare_quota 6 run_quota (snd (declare_quota 5 run_quota (table_new 1))))
  = run_table None None None None None (Some \<lparr>quota_holder = 5, quota_of = run_quota\<rparr>) (Some \<lparr>quota_holder = 6, quota_of = run_quota\<rparr>) 0 1 1"
  by (simp add: run_table_new) (simp add: run_table_def declare_quota_def)

abbreviation run_quotas :: "HolderId \<Rightarrow> QuotaEntry option" where
  "run_quotas h \<equiv> Some \<lparr>quota_holder = h, quota_of = run_quota\<rparr>"

definition run_region :: "bool \<Rightarrow> Region" where
  "run_region sl = \<lparr>region_id = 1, region_epoch = 1, owner = 5, anchors = run_anchors, region_rights = RIGHT_ALL,
     created_writable = True, sealed = sl, released = False\<rparr>"

definition run_charge :: "HolderId \<Rightarrow> u32 \<Rightarrow> u32 \<Rightarrow> u32 \<Rightarrow> u32 \<Rightarrow> Charge" where
  "run_charge h p b m l = \<lparr>charge_holder = h, charge_pages = p, charge_buffers = b, charge_mappings = m, charge_loans = l\<rparr>"

definition run_lent :: Loan where
  "run_lent = \<lparr>loan_id = 1, loan_epoch = 1, loan_buffer = 1, lender = 5, loan_receiver = 6, loan_offset = 0, loan_pages = 1,
     loan_writable = True\<rparr>"

lemma run_anchors_get [simp]: "anchors_len run_anchors = 1" "anchors_get run_anchors 0 = Some 100"
  by (simp_all add: run_anchors_def anchors_get_def)

lemmas run_evals = run_table_def rbind_def ok_or_def bound_defs quota_def run_quota_def charge_def exceeds_def usize_exceeds_def
  usize_add_def usize_mul_def checked_add_def preflight_charge_slot_def charge_positive_def charge_slot_def

lemmas right_defs = RIGHT_ALL_def RIGHT_MAP_def RIGHT_WRITE_def RIGHT_LOAN_def

lemma created: "snd (create 5 run_anchors True (run_table None None None None None (run_quotas 5) (run_quotas 6) 0 1 1))
  = run_table (Some (run_region False)) None None (Some (run_charge 5 1 1 0 0)) None (run_quotas 5) (run_quotas 6) 1 2 1"
proof -
  let ?t = "run_table None None None None None (run_quotas 5) (run_quotas 6) 0 1 1"
  have u: "preflight_anchor_uniqueness ?t run_anchors = Inr ()" "preflight_charge_slot ?t 5 = Inr ()"
    "preflight_buffer_charge ?t 5 1 = Inr ()"
    by (simp_all add: preflight_anchor_uniqueness_def anchor_is_live_def preflight_buffer_charge_def holder_pages_def holder_buffers_def run_evals)
  moreover from u have "preflight_create ?t 5 run_anchors True = Inr \<lparr>plan_epoch = 1, plan_owner = 5, plan_anchors = run_anchors,
    plan_writable = True, plan_slot = 0, plan_id = 1, plan_next_id = 2\<rparr>"
    by (simp add: preflight_create_def preflight_create_pages_def) (simp add: run_evals)
  ultimately show ?thesis
    by (simp add: create_def commit_create_def) (simp add: run_evals run_region_def run_charge_def)
qed

lemma run_authorize:
  "authorize (run_table (Some (run_region sl)) m l c c' q q' n i j) 5 run_handle required
    = (if contains RIGHT_ALL required then Inr (run_region sl, RIGHT_ALL) else Inl RightsDenied)"
  by (simp add: authorize_def check_epoch_def live_region_def live_region_any_def run_handle_def run_region_def intersect_def
    run_table_def rbind_def ok_or_def)

lemma lent_eq: "lent = run_table (Some (run_region False)) None (Some run_lent) (Some (run_charge 5 1 1 0 1)) None
    (run_quotas 5) (run_quotas 6) 1 2 2"
proof -
  let ?t = "run_table (Some (run_region False)) None None (Some (run_charge 5 1 1 0 0)) None (run_quotas 5) (run_quotas 6) 1 2 1"
  have "authorize ?t 5 run_handle (RIGHT_LOAN OR RIGHT_WRITE) = Inr (run_region False, RIGHT_ALL)"
    by (simp add: run_authorize contains_def right_defs)
  moreover have "validate_page_range 0 4096 (anchors_len (anchors (run_region False))) = Inr (0, 1)"
    by (simp add: validate_page_range_def run_evals run_region_def)
  ultimately show ?thesis
    unfolding lent_def declared created loan_def Let_def
    by (simp add: run_region_def) (simp add: run_evals holder_loans_def run_charge_def run_lent_def run_handle_def try_u16_def)
qed

lemma sealed_state_eq: "sealed_state = (run_table (Some (run_region True)) None (Some run_lent) (Some (run_charge 5 1 1 0 1)) None
    (run_quotas 5) (run_quotas 6) 1 2 2, {})"
proof -
  have "authorize lent 5 run_handle RIGHT_WRITE = Inr (run_region False, RIGHT_ALL)"
    by (simp add: lent_eq run_authorize contains_def right_defs)
  moreover have "live_region_slot lent 1 = Inr 0" by (simp add: lent_eq live_region_slot_def run_table_def ok_or_def run_region_def)
  moreover have "writable_slots lent 1 = []"
    by (auto simp: lent_eq writable_slots_def run_table_def filter_empty_conv nth_Cons split: nat.split)
  ultimately have "seal paging 5 run_handle (lent, {}) = on_table (update_region 0 (\<lambda>r. r\<lparr>sealed := True\<rparr>)) (lent, {})"
    by (simp add: seal_def rbind_def run_handle_def) (simp add: run_region_def on_table_def sbind_def)
  then show ?thesis by (simp add: sealed_state_def lent_eq on_table_def update_region_def run_table_def run_region_def)
qed

definition run_mapping :: MappingRecord where
  "run_mapping = \<lparr>map_holder = 6, map_buffer = 1, map_epoch = 1, map_vspace = 7, map_base = 4096, map_offset = 0, map_count = 1,
     map_rights = ReadWrite, map_via = Some 1\<rparr>"

lemma writes: "map_loan paging 6 run_loan 7 4096 0 4096 sealed_state = (Inr (), (run_table (Some (run_region True)) (Some run_mapping) (Some run_lent) (Some (run_charge 5 1 1 0 1))
    (Some (run_charge 6 0 0 1 0)) (run_quotas 5) (run_quotas 6) 1 2 2, {(100, 7, 4096, ReadWrite)}))"
proof -
  let ?t = "fst sealed_state"
  have "authorize_loan ?t 6 run_loan = Inr run_lent"
    by (simp add: sealed_state_eq authorize_loan_def check_epoch_def live_loan_def run_loan_def run_lent_def run_table_def rbind_def ok_or_def)
  moreover have "validate_page_range 0 4096 1 = Inr (0, 1)" by (simp add: validate_page_range_def run_evals)
  moreover have "live_region_any ?t 1 = Inr (run_region True)"
    by (simp add: sealed_state_eq live_region_any_def run_table_def ok_or_def run_region_def)
  moreover have "validate_mapping_range (run_region True) 4096 0 4096 = Inr (0, 1)"
    by (simp add: validate_mapping_range_def validate_page_range_def USER_ADDRESS_CEILING_def run_evals run_region_def)
  moreover have "preflight_mapping ?t 6 (run_region True) 7 4096 0 1 ReadWrite (Some 1)
    = Inr \<lparr>mp_slot = 0, mp_record = run_mapping, mp_anchors = run_anchors\<rparr>"
    by (simp add: preflight_mapping_def sealed_state_eq holder_mappings_def run_evals run_charge_def orphan_count_def try_u16_def run_mapping_def run_region_def)
  ultimately have "map_loan paging 6 run_loan 7 4096 0 4096 sealed_state
    = execute_mapping paging \<lparr>mp_slot = 0, mp_record = run_mapping, mp_anchors = run_anchors\<rparr> sealed_state"
    by (simp add: map_loan_def rbind_def run_lent_def ok_or_def usize_add_def usize_mul_def)
  then show ?thesis
    by (simp add: sealed_state_eq execute_mapping_def run_mapping_def paging_def sbind_def on_table_def run_evals run_charge_def)
qed

text \<open>The owner maps its own region, then seals it.\<close>

definition mapped :: "page set buffers" where
  "mapped = snd (sb_map paging 5 run_handle 7 4096 0 4096 ReadWrite (snd (create 5 run_anchors True
     (snd (declare_quota 6 run_quota (snd (declare_quota 5 run_quota (table_new 1)))))), {}))"

definition own_mapping :: "MappingRights \<Rightarrow> MappingRecord" where
  "own_mapping w = \<lparr>map_holder = 5, map_buffer = 1, map_epoch = 1, map_vspace = 7, map_base = 4096, map_offset = 0, map_count = 1,
     map_rights = w, map_via = None\<rparr>"

lemma mapped_steps: "(sb_step paging)\<^sup>*\<^sup>* (table_new 1, {}) mapped"
  unfolding mapped_def
  by (rule rtranclp.rtrancl_into_rtrancl, rule rtranclp.rtrancl_into_rtrancl, rule rtranclp.rtrancl_into_rtrancl,
    rule rtranclp.rtrancl_into_rtrancl, rule rtranclp.rtrancl_refl, rule sb_step.declare_quota, rule sb_step.declare_quota,
    rule sb_step.create [OF run_anchors], rule sb_step.map)

lemma mapped_eq: "mapped = (run_table (Some (run_region False)) (Some (own_mapping ReadWrite)) None (Some (run_charge 5 1 1 1 0)) None
    (run_quotas 5) (run_quotas 6) 1 2 1, {(100, 7, 4096, ReadWrite)})"
proof -
  let ?t = "run_table (Some (run_region False)) None None (Some (run_charge 5 1 1 0 0)) None (run_quotas 5) (run_quotas 6) 1 2 1"
  have "validate_mapping_range (run_region False) 4096 0 4096 = Inr (0, 1)"
    by (simp add: validate_mapping_range_def validate_page_range_def USER_ADDRESS_CEILING_def run_evals run_region_def)
  moreover have "preflight_mapping ?t 5 (run_region False) 7 4096 0 1 ReadWrite None
    = Inr \<lparr>mp_slot = 0, mp_record = own_mapping ReadWrite, mp_anchors = run_anchors\<rparr>"
    by (simp add: preflight_mapping_def holder_mappings_def run_evals run_charge_def orphan_count_def try_u16_def own_mapping_def run_region_def)
  moreover have "contains RIGHT_ALL (RIGHT_MAP OR RIGHT_WRITE)"
    by (simp add: contains_def right_defs)
  moreover have "created_writable (run_region False)" "\<not> sealed (run_region False)" by (simp_all add: run_region_def)
  ultimately have "sb_map paging 5 run_handle 7 4096 0 4096 ReadWrite (?t, {})
    = execute_mapping paging \<lparr>mp_slot = 0, mp_record = own_mapping ReadWrite, mp_anchors = run_anchors\<rparr> (?t, {})"
    by (simp add: sb_map_def run_authorize rights_writable_def rbind_def)
  then show ?thesis unfolding mapped_def declared created
    by (simp add: execute_mapping_def own_mapping_def paging_def sbind_def on_table_def run_evals run_charge_def)
qed

lemma seals: "seal paging 5 run_handle mapped = (Inr (), (run_table (Some (run_region True)) (Some (own_mapping ReadOnly)) None
    (Some (run_charge 5 1 1 1 0)) None (run_quotas 5) (run_quotas 6) 1 2 1, {(100, 7, 4096, ReadOnly)}))"
proof -
  let ?t = "run_table (Some (run_region False)) (Some (own_mapping ReadWrite)) None (Some (run_charge 5 1 1 1 0)) None (run_quotas 5) (run_quotas 6) 1 2 1"
  have w: "contains RIGHT_ALL RIGHT_WRITE" by (simp add: contains_def right_defs)
  have slot: "live_region_slot ?t 1 = Inr 0" by (simp add: live_region_slot_def run_table_def ok_or_def run_region_def)
  have "[0..<64::nat] = 0 # [1..<64]" by (simp add: upt_conv_Cons)
  moreover have "filter (\<lambda>i. is_some_and P (mappings ?t ! i)) [1..<64] = []" for P
    by (auto simp: run_table_def filter_empty_conv nth_Cons split: nat.split)
  ultimately have ws: "writable_slots ?t 1 = [0]"
    by (simp add: writable_slots_def) (simp add: run_table_def own_mapping_def)
  have "remap_mapping paging (run_region False) (own_mapping ReadWrite) ReadOnly ReadWrite {(100, 7, 4096, ReadWrite)}
      = (Inr (), {(100, 7, 4096, ReadOnly)})"
    by (auto simp: remap_mapping_def own_mapping_def run_region_def paging_def sbind_def)
  then have "seal_loop paging ?t (run_region False) [] [0] {(100, 7, 4096, ReadWrite)} = (Inr (), {(100, 7, 4096, ReadOnly)})"
    by (simp add: run_table_def) (simp add: own_mapping_def)
  moreover have "\<not> sealed (run_region False)" "handle_id run_handle = 1" by (simp_all add: run_region_def run_handle_def)
  ultimately have "seal paging 5 run_handle (?t, {(100, 7, 4096, ReadWrite)})
    = on_table (sbind (make_read_only [0]) (\<lambda>_. update_region 0 (\<lambda>r. r\<lparr>sealed := True\<rparr>))) (?t, {(100, 7, 4096, ReadOnly)})"
    by (simp add: seal_def Let_def run_authorize w slot ws rbind_def del: make_read_only.simps seal_loop.simps One_nat_def)
  then show ?thesis unfolding mapped_eq
    by (simp add: on_table_def sbind_def update_region_def) (simp add: run_table_def run_region_def own_mapping_def update_region_def)
qed

section \<open>Properties\<close>

lemma steps_recorded:
  assumes "faithful A pt" "pt d0 = {}" "(sb_step A)\<^sup>*\<^sup>* (table_new e, d0) s"
  shows "shape (fst s) \<and> recorded (fst s) (pt (snd s))"
  using assms(3)
proof (induction rule: rtranclp_induct)
  case base
  then show ?case using assms(2) by (simp add: table_new_shape recorded_def)
next
  case (step s s')
  then show ?case using sb_step_shape sb_step_recorded [OF assms(1)] by blast
qed

lemma page_of_frame:
  assumes "shape t" "r \<in> region_set t" "m \<in> mapping_set t" "region_id r = map_buffer m" "page_of r m f v x"
  shows "f \<in> frames r \<and> granted t r m"
proof -
  obtain r' where r': "r' \<in> region_set t" "backs r' m" "granted t r' m" using shapeD(4) [OF assms(1)] assms(3) unfolding mappings_ok_def by blast
  then have "r' = r" using region_unique [OF assms(1) r'(1) assms(2)] assms(4) by (simp add: backs_def)
  moreover have "length (frame_list r) = anchors_len (anchors r)" using shapeD(1) [OF assms(1)] assms(2) by (simp add: sized_def)
  ultimately show ?thesis using r' assms(5) by (auto simp: backs_def page_of_def frames_def)
qed

text \<open>
  C3: From an empty address space, after any sequence of calls, every page the kernel still maps shows
  a frame of a live region, and it is there for a reason the table records: a page whose unmapping
  failed, or a page of a mapping with at least its rights that the owner made, or that a receiver made
  inside the range and the rights of a live loan.  A frame of no live region is mapped nowhere.
\<close>

theorem mapped_pages_authorized:
  assumes "faithful A pt" "pt d0 = {}" "(sb_step A)\<^sup>*\<^sup>* (table_new e, d0) (t, d)" "(f, v, x, w) \<in> pt d"
  shows "\<exists>r \<in> set (flatten (regions t)). f \<in> frames r \<and> (orphaned_in t (f, v, x, w)
    \<or> (\<exists>m \<in> set (flatten (mappings t)). page_of r m f v x \<and> (w = ReadWrite \<longrightarrow> map_rights m = ReadWrite) \<and> granted t r m))"
proof -
  have sh: "shape t" and rec: "recorded t (pt d)" using steps_recorded [OF assms(1-3)] by simp_all
  then consider (mapped) "mapped_in t (f, v, x, w)" | (orphan) "orphaned_in t (f, v, x, w)"
    using assms(4) unfolding recorded_def by blast
  then show ?thesis
  proof cases
    case mapped
    then show ?thesis unfolding mapped_in_def using page_of_frame [OF sh] by fastforce
  next
    case orphan
    then show ?thesis using shapeD(6) [OF sh] unfolding orphans_ok_def orphaned_in_def by fastforce
  qed
qed

theorem mapped_pages_authorized_witness:
  "(100, 7, 4096, ReadWrite) \<in> snd written \<and> (\<exists>r \<in> set (flatten (regions (fst written))). 100 \<in> frames r)"
  using mapped_pages_authorized [OF paging_faithful, of "{}" 1 "fst written" "snd written" 100 7 4096 ReadWrite] written_steps writes
  by (auto simp: written_def)

text \<open>
  C40: A loan that was granted writable stays writable after its region is sealed: in a reachable
  state whose only region is sealed, the receiver's \<open>map_loan\<close> succeeds and maps the frame with write
  permission.
\<close>

theorem sealed_loan_stays_writable:
  "\<exists>t d t' d'. sb_reachable paging (t, d) \<and> flatten (regions t) = [run_region True] \<and> sealed (run_region True)
    \<and> map_loan paging 6 run_loan 7 4096 0 4096 (t, d) = (Inr (), (t', d'))
    \<and> 100 \<in> frames (run_region True) \<and> (100, 7, 4096, ReadWrite) \<in> d'"
proof -
  have "flatten (regions (fst sealed_state)) = [run_region True]" by (simp add: sealed_state_eq run_table_def)
  moreover have "sealed (run_region True)" "100 \<in> frames (run_region True)"
    by (simp_all add: run_region_def frames_def frame_list_def run_anchors_def)
  moreover have "sb_reachable paging sealed_state" unfolding sb_reachable_def using sealed_steps by blast
  moreover have "\<exists>t' d'. map_loan paging 6 run_loan 7 4096 0 4096 sealed_state = (Inr (), (t', d')) \<and> (100, 7, 4096, ReadWrite) \<in> d'"
    using writes by simp
  moreover obtain t d where "sealed_state = (t, d)" by (cases sealed_state)
  ultimately show ?thesis by (metis fst_conv)
qed

lemma distinct_frame_lists:
  assumes "distinct (map region_id rs)" "\<forall>r \<in> set rs. distinct (frame_list r)"
    "\<forall>r \<in> set rs. \<forall>r' \<in> set rs. region_id r \<noteq> region_id r' \<longrightarrow> frames r \<inter> frames r' = {}"
  shows "distinct (concat (map frame_list rs))"
  using assms
proof (induction rs)
  case (Cons r rs)
  have "frames r \<inter> frames r' = {}" if r': "r' \<in> set rs" for r'
  proof -
    have "region_id r \<noteq> region_id r'" using Cons.prems(1) r' by auto
    then show ?thesis using Cons.prems(3) r' by simp
  qed
  then have "set (frame_list r) \<inter> set (concat (map frame_list rs)) = {}" unfolding frames_def by auto
  moreover have "distinct (concat (map frame_list rs))" by (rule Cons.IH) (use Cons.prems in auto)
  ultimately show ?case using Cons.prems(2) by simp
qed simp

lemma frames_distinct:
  assumes "shape t"
  shows "distinct (concat (map frame_list (flatten (regions t))))"
  using shapeD(1,3) [OF assms] by (intro distinct_frame_lists) (simp_all add: regions_ok_def sized_def anchors_ok_def frame_list_def)

text \<open>
  C6: In every reachable state the accounting is exact: what the table says a holder has charged is
  what the table holds for it, the page total is the frames of the live regions and within its
  ceiling, recorded mappings and failed unmaps together stay within the budget of a teardown, and no
  frame belongs to two regions.
\<close>

theorem buffer_accounting_exact:
  assumes "sb_reachable A (t, d)"
  shows "unat (holder_pages t h) = sum_list (map (\<lambda>r. anchors_len (anchors r)) (filter (\<lambda>r. owner r = h) (flatten (regions t))))
    \<and> unat (holder_buffers t h) = length (filter (\<lambda>r. owner r = h) (flatten (regions t)))
    \<and> unat (holder_mappings t h) = length (filter (\<lambda>m. map_holder m = h) (flatten (mappings t)))
    \<and> unat (holder_loans t h) = length (filter (\<lambda>l. lender l = h) (flatten (loans t)))
    \<and> total_pages t = sum_list (map (\<lambda>r. anchors_len (anchors r)) (flatten (regions t))) \<and> total_pages t \<le> MAX_TOTAL_PAGES
    \<and> orphan_count t + sum_list (map map_count (flatten (mappings t))) \<le> MAX_MAPPING_PAGES
    \<and> distinct (concat (map frame_list (flatten (regions t))))"
proof -
  have sh: "shape t" using reachable_shape [OF assms] by simp
  have one: "sum_list (map (\<lambda>x. if P x then 1 else 0) xs) = length (filter P xs)" for P and xs :: "'b list" by (induction xs) simp_all
  have some: "sum_list (map (\<lambda>x. if P x then k x else 0) xs) = sum_list (map k (filter P xs))" for P k and xs :: "'b list" by (induction xs) simp_all
  show ?thesis
    using holder_usage [OF shapeD(2) [OF sh], of h] buffer_accountsD(3) [OF shapeD(2) [OF sh]] shapeD(7) [OF sh] frames_distinct [OF sh]
    by (simp add: tot_def budget_def one some)
qed

theorem buffer_accounting_exact_witness:
  "sb_reachable paging written \<and> total_pages (fst written) = 1 \<and> unat (holder_pages (fst written) 5) = 1
    \<and> unat (holder_mappings (fst written) 6) = 1
    \<and> total_pages (fst written) = sum_list (map (\<lambda>r. anchors_len (anchors r)) (flatten (regions (fst written))))"
proof -
  have r: "sb_reachable paging (fst written, snd written)" using written_steps by (auto simp: sb_reachable_def)
  have t: "fst written = run_table (Some (run_region True)) (Some run_mapping) (Some run_lent) (Some (run_charge 5 1 1 0 1))
    (Some (run_charge 6 0 0 1 0)) (run_quotas 5) (run_quotas 6) 1 2 2" by (simp add: written_def writes)
  have "flatten (regions (fst written)) = [run_region True]" "flatten (mappings (fst written)) = [run_mapping]"
    by (simp_all add: t run_table_def)
  then show ?thesis
    using r buffer_accounting_exact [OF r, of 5] buffer_accounting_exact [OF r, of 6] by (simp add: run_region_def run_mapping_def)
qed

text \<open>
  C11: When a holder dies and the adapter performs what it is asked, reclamation succeeds from every
  reachable state: it executes all unmaps before all revokes before all releases, nothing of the
  holder remains (regions, mappings, loans in either direction, charges), and the regions of other
  holders that they have not released stay.
\<close>

theorem reclaim_holder_complete:
  assumes "sb_reachable A (t, d)" "cooperative A"
  shows "\<exists>us fs t' d'. reclaim_holder A h (t, d) = (Inr (us @ map Revoke fs @ map ReleaseFrame fs), (t', d'))
    \<and> (\<forall>a \<in> set us. \<exists>f v x. a = Unmap f v x)
    \<and> holder_occupancy t' h = EMPTY
    \<and> (\<forall>r \<in> set (flatten (regions t')). owner r \<noteq> h) \<and> (\<forall>m \<in> set (flatten (mappings t')). map_holder m \<noteq> h)
    \<and> (\<forall>l \<in> set (flatten (loans t')). lender l \<noteq> h \<and> loan_receiver l \<noteq> h)
    \<and> (\<forall>r \<in> set (flatten (regions t)). owner r \<noteq> h \<and> \<not> released r \<longrightarrow> r \<in> set (flatten (regions t')))"
proof -
  have sh: "shape t" using reachable_shape [OF assms(1)] by simp
  define plan where "plan = complete_region_removals t (reclaim_plan t h)"
  note nth = reclaim_marks [OF sh plan_def]
  have pl: "plan_marks t plan" "closed t plan" unfolding plan_def by (rule reclaim_plan_closed [OF sh])+
  obtain t1 cs n d' where t1: "shrunk t t1" and run: "teardown A (Inr plan) (t, d)
      = (Inr (plan_actions t plan), ((residue plan t1)\<lparr>charges := cs, total_pages := n\<rparr>, d'))"
    using teardown_succeeds [OF sh pl assms(2)] by blast
  let ?t = "(residue plan t1)\<lparr>charges := cs, total_pages := n\<rparr>"
  have "shape ?t" using teardown_cases [OF sh _ run] pl by simp
  have R: "region_set ?t = region_set (residue plan t)" "mapping_set ?t = mapping_set (residue plan t)" "loan_set ?t = loan_set (residue plan t)"
    using residue_shrunk_sets [OF t1, of plan] by simp_all
  have gone: "\<forall>r \<in> region_set ?t. owner r \<noteq> h" "\<forall>m \<in> mapping_set ?t. map_holder m \<noteq> h"
    "\<forall>l \<in> loan_set ?t. lender l \<noteq> h \<and> loan_receiver l \<noteq> h"
    unfolding R Ball_def residue_sets using nth(1-3) by (auto simp: is_some_and_iff)
  have stay: "r \<in> region_set ?t" if r: "r \<in> region_set t" "owner r \<noteq> h" "\<not> released r" for r
  proof -
    obtain i where i: "i < length (regions t)" "regions t ! i = Some r" using region_at [OF r(1)] by blast
    then show ?thesis unfolding R residue_sets using nth(4) [OF i(1)] r(2,3) by auto
  qed
  have "holder_occupancy ?t h = EMPTY"
    using occupancy_none [OF shapeD(2) [OF \<open>shape ?t\<close>]] usage_none gone by blast
  moreover have "\<forall>a \<in> set (gone_unmaps t plan [0..<length (mappings t)]). \<exists>f v x. a = Unmap f v x"
    by (auto simp: gone_unmaps_def mapping_unmaps_def page_unmaps_def split: option.splits sum.splits if_splits)
  moreover have "reclaim_holder A h (t, d) = (Inr (plan_actions t plan), (?t, d'))"
    using run by (simp add: reclaim_holder_eq plan_def)
  ultimately show ?thesis using gone stay unfolding plan_actions_def by blast
qed

theorem reclaim_holder_complete_witness:
  "cooperative paging \<and> sb_reachable paging written
    \<and> (\<exists>acts t' d'. reclaim_holder paging 5 written = (Inr acts, (t', d')) \<and> holder_occupancy t' 5 = EMPTY
      \<and> (\<forall>r \<in> set (flatten (regions t')). owner r \<noteq> 5))"
proof -
  have r: "sb_reachable paging (fst written, snd written)" using written_steps by (auto simp: sb_reachable_def)
  from reclaim_holder_complete [OF this paging_cooperative, of 5] show ?thesis using r paging_cooperative by auto
qed

lemma lowered_none:
  assumes "length ms = length (mappings t)" "\<forall>j < length ms. ms ! j = (if j \<in> set (writable_slots t b)
      then map_option (\<lambda>m. m\<lparr>map_rights := ReadOnly\<rparr>) (mappings t ! j) else mappings t ! j)"
  shows "m \<in> set (flatten ms) \<Longrightarrow> map_buffer m = b \<Longrightarrow> map_rights m = ReadOnly"
proof -
  assume m: "m \<in> set (flatten ms)" "map_buffer m = b"
  then obtain j where j: "j < length ms" "ms ! j = Some m" by (auto simp: set_flatten_nth)
  show "map_rights m = ReadOnly"
  proof (cases "j \<in> set (writable_slots t b)")
    case False
    then have "mappings t ! j = Some m" using assms(2) j by simp
    then show ?thesis using False j(1) m(2) assms(1) by (cases "map_rights m") (auto simp: writable_slots_iff)
  qed (use assms(2) j in auto)
qed

text \<open>
  C19: Advancing to a later generation with an adapter that performs what it is asked succeeds from
  every reachable state and retires everything: no region, mapping, loan or failed unmap is left in
  the table, and no page is left mapped by the kernel.
\<close>

theorem advance_epoch_retires:
  assumes "faithful A pt" "cooperative A" "pt d0 = {}" "(sb_step A)\<^sup>*\<^sup>* (table_new e, d0) (t, d)" "table_epoch t < e'"
  shows "\<exists>acts t' d'. advance_epoch A e' (t, d) = (Inr acts, (t', d')) \<and> table_epoch t' = e' \<and> flatten (regions t') = []
    \<and> flatten (mappings t') = [] \<and> flatten (loans t') = [] \<and> flatten (orphans t') = [] \<and> pt d' = {}"
proof -
  have sh: "shape t" and rec: "recorded t (pt d)" using steps_recorded [OF assms(1,3,4)] by simp_all
  define plan where "plan = \<lparr>remove_mappings = map (\<lambda>m. m \<noteq> None) (mappings t), remove_loans = map (\<lambda>l. l \<noteq> None) (loans t),
    remove_regions = map (\<lambda>r. r \<noteq> None) (regions t)\<rparr>"
  obtain t1 d1 acts where "teardown A (Inr plan) (t, d) = (Inr acts, (t1, d1))"
    using teardown_succeeds [OF sh residue_all(4,5) [OF plan_def] assms(2)] by blast
  then have run: "advance_epoch A e' (t, d) = (Inr acts, (t1\<lparr>table_epoch := e'\<rparr>, d1))"
    using assms(5) unfolding advance_epoch_def Let_def fst_conv plan_def [symmetric] by (simp add: on_table_def not_le)
  note c = advance_epoch_cases [OF sh run] and r = advance_epoch_recorded [OF assms(1) sh run rec]
  have "pt d1 = {}" using r c by (auto simp: recorded_def mapped_in_def orphaned_in_def)
  then show ?thesis using run c by (intro exI conjI) (rule run, simp_all)
qed

theorem advance_epoch_retires_witness:
  "snd written \<noteq> {} \<and> table_epoch (fst written) < 2
    \<and> (\<exists>acts t' d'. advance_epoch paging 2 written = (Inr acts, (t', d')) \<and> flatten (regions t') = [] \<and> d' = {})"
proof -
  have "snd written \<noteq> {}" "table_epoch (fst written) < 2" by (simp_all add: written_def writes run_table_def)
  with advance_epoch_retires [OF paging_faithful paging_cooperative, of "{}" 1 "fst written" "snd written" 2] written_steps
  show ?thesis by auto
qed

text \<open>
  C20: A seal that succeeds on an unsealed region withdraws every write: the region is sealed, and a
  page of its frames the kernel still maps is read-only, unless it is recorded as a page whose earlier
  unmapping failed.
\<close>

theorem seal_withdraws_writes:
  assumes "faithful A pt" "pt d0 = {}" "(sb_step A)\<^sup>*\<^sup>* (table_new e, d0) (t, d)"
    "seal A h handle (t, d) = (Inr (), (t', d'))" "r \<in> set (flatten (regions t))" "region_id r = handle_id handle" "\<not> sealed r"
  shows "r\<lparr>sealed := True\<rparr> \<in> set (flatten (regions t'))
    \<and> (\<forall>f v x w. (f, v, x, w) \<in> pt d' \<longrightarrow> f \<in> frames r \<longrightarrow> w = ReadOnly \<or> orphaned_in t' (f, v, x, w))"
proof -
  have sh: "shape t" and rec: "recorded t (pt d)" using steps_recorded [OF assms(1-3)] by simp_all
  have sh': "shape t'" and rec': "recorded t' (pt d')" using seal_shape [OF sh assms(4)] seal_recorded [OF assms(1) sh assms(4) rec] by simp_all
  from sh assms(4) show ?thesis
  proof (cases rule: seal_cases)
    case (sealed r')
    then show ?thesis using region_unique [OF sh _ assms(5)] assms(6,7) by auto
  next
    case (converted r' slot ms)
    then have r: "r' = r" using region_unique [OF sh _ assms(5)] assms(6) by auto
    have in': "r\<lparr>sealed := True\<rparr> \<in> region_set t'"
      using converted(4,5,8) r by (auto simp: set_flatten_nth intro!: exI [of _ slot])
    have "w = ReadOnly \<or> orphaned_in t' (f, v, x, w)" if p: "(f, v, x, w) \<in> pt d'" "f \<in> frames r" for f v x w
    proof (rule ccontr)
      assume no: "\<not> (w = ReadOnly \<or> orphaned_in t' (f, v, x, w))"
      then have "w = ReadWrite" by (cases w) simp_all
      with no p(1) rec' obtain m r1 where m: "m \<in> mapping_set t'" "r1 \<in> region_set t'" "region_id r1 = map_buffer m" "page_of r1 m f v x"
        "map_rights m = ReadWrite" unfolding recorded_def mapped_in_def by fastforce
      have "f \<in> frames r1" using page_of_frame [OF sh' m(2,1,3,4)] by simp
      moreover have "f \<in> frames (r\<lparr>sealed := True\<rparr>)" using p(2) by (simp add: frames_def frame_list_def)
      ultimately have "region_id r1 = region_id r" using shapeD(3) [OF sh'] m(2) in' unfolding regions_ok_def by fastforce
      then have "map_buffer m = region_id r" using m(3) by simp
      then show False using lowered_none [OF converted(9,10)] m(1,5) r converted(8) by auto
    qed
    then show ?thesis using in' by blast
  qed simp_all
qed

theorem seal_withdraws_writes_witness:
  "(100, 7, 4096, ReadWrite) \<in> snd mapped \<and> (\<exists>t'. seal paging 5 run_handle mapped = (Inr (), (t', {(100, 7, 4096, ReadOnly)}))
    \<and> (run_region False)\<lparr>sealed := True\<rparr> \<in> set (flatten (regions t')))"
proof -
  let ?d = "{(100, 7, 4096, ReadOnly)}"
  obtain t' where run: "seal paging 5 run_handle (fst mapped, snd mapped) = (Inr (), (t', ?d))" using seals by simp
  have "(sb_step paging)\<^sup>*\<^sup>* (table_new 1, {}) (fst mapped, snd mapped)" using mapped_steps by simp
  moreover have "run_region False \<in> set (flatten (regions (fst mapped)))" by (simp add: mapped_eq run_table_def)
  ultimately have "(run_region False)\<lparr>sealed := True\<rparr> \<in> set (flatten (regions t'))"
    using seal_withdraws_writes [OF paging_faithful _ _ run, of "{}" 1 "run_region False"] by (simp add: run_region_def run_handle_def)
  then show ?thesis using run by (simp add: mapped_eq)
qed

end
