(* ===== verification/Spec2Isabelle.thy ===== *)
theory Spec2Isabelle
  imports Slime_Prelude Crc32 BootState BlockDevice BootSelector Gpt StoreDisk ObjectStore StoreCrash
    FixedArray Timer StreamHistory WaitSet MemoryPolicy MemoryPlan MemoryLedger SharedBuffer SharedBufferAccounts
    SharedBufferShape SharedBufferTeardown SharedBufferSystem SharedBufferActions SharedBufferPages SharedBufferProperties
begin

text \<open>
  Verification development of Slime OS, a component system on seL4: the storage and boot contracts
  every image shares (\<open>boot-contracts\<close>) and the resource tables of the root task (\<open>slime-root\<close>).

  \<^bold>\<open>How the parts interact.\<close>  The root task boots from a disk.  GPT validation finds the store partition;
  the boot selector reads two boot-state slots through a polled virtio block driver, decides which
  generation to start and commits state changes; the object store keeps the generation's objects.
  CRC-32 guards all of these formats.  Once running, the root task hands out resources from fixed
  tables: timers, private memory admitted by a policy and accounted for by a ledger, and shared buffers
  of frames that components map and lend.  Components wait on badge bits through wait sets and read
  streams through bounded histories.

  \<^bold>\<open>Conventions.\<close>  \<open>Slime_Prelude\<close> holds the vocabulary: \<open>u8\<close> to \<open>u64\<close> are machine words, \<open>usize\<close> is a
  natural number except where checked arithmetic on it matters, \<open>Result\<close> is a sum with \<open>Inl\<close> for
  \<open>Err\<close>, \<open>?\<close> is \<open>rbind\<close> or, where state is threaded, \<open>sbind\<close>, whose error branch keeps the state
  reached.  \<open>FixedArray\<close> holds the arrays \<open>[Option<T>; N]\<close>: the list an array stands for
  (\<open>packed\<close>, \<open>flatten\<close>), sums over its slots (\<open>tot\<close>) and the loops over it.  Records and datatypes have
  the fields and constructors of the source, prefixed where two would clash; one definition models one
  function, and a loop inside a function is a definition of its own beside it.

  \<^bold>\<open>Storage and boot.\<close>
  \<^item> \<open>Crc32\<close> (\<open>crc32.rs\<close>): the table-driven checksum equals the bit-serial register and detects every
    change within four adjacent bytes.
  \<^item> \<open>BootState\<close> (\<open>bootstate.rs\<close>): encoding and decoding are inverse, transitions are monotone, trial
    boots are bounded by the attempts, slot selection is specified on every branch.
  \<^item> \<open>BlockDevice\<close> (\<open>boot_selector_block.rs\<close>): requests against a device that may lose or reorder
    unflushed writes.  The locale \<open>block_device\<close> is what its clients rely on; the driver interprets it.
  \<^item> \<open>BootSelector\<close> (\<open>boot_selector.rs\<close>): a commit is atomic under power loss at every point, durable
    when it reports success, and succeeds on a device that acknowledges.
  \<^item> \<open>Gpt\<close> (\<open>gpt.rs\<close>): accepted partitions are disjoint and inside the usable span, and reads stay
    inside the device.
  \<^item> \<open>StoreDisk\<close>, \<open>ObjectStore\<close>, \<open>StoreCrash\<close> (\<open>store_disk.rs\<close>, \<open>object_store.rs\<close>): superblock and
    record round trips, and an append that is atomic under power loss, durable on success and read back
    exactly.  The locale \<open>store_device\<close> extends \<open>block_device\<close>; the virtio driver interprets it.

  \<^bold>\<open>Time, waiting and streams.\<close>
  \<^item> \<open>Timer\<close> (\<open>timer.rs\<close>, \<open>event.rs\<close>, \<open>platform_timer.rs\<close>): the deadline queue stays ordered, the event
    log is a journal of the pending timers, an expiry reports exactly the due timers, and servicing
    arms the next deadline.  Each operation interprets the locale \<open>scheduler_op\<close>, the AArch64 timer the
    locale \<open>platform_timer\<close>.
  \<^item> \<open>StreamHistory\<close> (\<open>stream_history.rs\<close>): the ring refines a bounded list (locale \<open>keep_last\<close>).
  \<^item> \<open>WaitSet\<close> (\<open>wait_set/mod.rs\<close>, \<open>wait_set/dispatch.rs\<close>): accepted resources are well formed, the
    registry stays well formed, and a wake dispatches in badge order.

  \<^bold>\<open>Memory.\<close>
  \<^item> \<open>MemoryPolicy\<close> (\<open>private_memory_policy.rs\<close>): the resource codec and the check against instances,
    whose walk up the owners is shown to end.
  \<^item> \<open>MemoryPlan\<close>, \<open>MemoryLedger\<close> (\<open>private_memory_policy/ledger.rs\<close>): certified placements are sound;
    along every run the ledger conserves pages, respects maxima and guarantees, refuses stale tokens,
    and retires any live incarnation without an open transaction.

  \<^bold>\<open>Shared buffers\<close> (\<open>shared_buffer.rs\<close>).
  \<^item> \<open>SharedBuffer\<close> is the table: creation, mapping, lending, sealing, release, reclamation, epochs and
    the retry of failed unmaps.  The kernel adapter is a record of functions over any state.
  \<^item> \<open>SharedBufferAccounts\<close> relates the charges to what the table holds; \<open>SharedBufferShape\<close> states the
    invariant \<open>shape\<close> and shows that creation, mapping, lending and sealing keep it;
    \<open>SharedBufferTeardown\<close> does so for the operations that remove, through closed teardown plans.
  \<^item> \<open>SharedBufferSystem\<close> makes the calls steps of a relation \<open>sb_step\<close>; every reachable table has the
    invariant.  \<open>SharedBufferActions\<close> computes the action list of a plan and shows that a teardown
    succeeds when the adapter does what it is asked (\<open>cooperative\<close>).
  \<^item> \<open>SharedBufferPages\<close> follows the pages the kernel really maps, for adapters that are \<open>faithful\<close>: page
    tables grow only by a successful mapping and a successful unmap removes its page.
  \<^item> \<open>SharedBufferProperties\<close> holds the properties, and concrete runs of the table.

  \<^bold>\<open>Parameters.\<close>  Code outside the repository is an argument: SHA-256 (only its length is used), the virtio
  device (a schedule of completions and of what an unacknowledged write became), the sector reader of
  GPT validation, the platform timer, and the shared-buffer adapter.  What a theorem needs of them is a
  premise, and the witness beside it instantiates them.

  \<^bold>\<open>Bounds and fuel.\<close>  No definition takes fuel as a substitute for termination: loops run over the fixed
  arrays and ranges of the code.  The one unbounded loop, the owner walk of the memory policy, is a
  partial function that is shown to return.  The capacities of the code are kept as they are (for
  example 4096 orphan slots), and the theorems that operations never run out of teardown actions
  rest on those values.

  \<^bold>\<open>Not modelled.\<close>  Everything that consists of seL4 invocations (task and address-space construction, the
  adapter's implementation, interrupt and device access, start-up and dispatch), because its meaning
  is kernel state the sources do not define.  The object allocator, the generation manifest and the
  other policy decoders, IPC decoding and the remaining tables of the root task (lifecycle,
  supervision, directory, scheduling) are within reach of the same methods and have not been taken up.
  User-space components, protocols, build scripts and generated contract sources are outside the
  trusted part of the system.  Of the modelled files, boxed allocation, debug formatting and unit
  tests are left out, of the block driver the MMIO handshake and the descriptor layout, of the platform
  timer the RISC-V and x86 devices, and of the selector the directory walk and the release check.
\<close>

end
